(* ===== verification/Prelude.thy ===== *)
theory Prelude
  imports Main
    "HOL-Library.Word"
    "HOL-Library.Char_ord"
    "HOL-Library.List_Lexorder"
    "HOL-Library.Product_Lexorder"
    "HOL-Library.Sublist"
begin

unbundle bit_operations_syntax

section \<open>Shared types, errors and lemmas\<close>

text \<open>
  What every component of the model shares: the integer and byte types, Rust strings as
  lists of UTF-8 bytes, \<open>std::io::Error\<close> and \<open>std::io::Result\<close>, signed 64-bit wrap-around,
  little-endian encodings, reachability with the locales of inductive invariants and of
  simulations, and the generic list lemmas the component theories use.
\<close>

named_theorems opdefs \<open>definitions of operations, unfolded when a proof follows the code\<close>

subsection \<open>Bytes, strings, errors\<close>

type_synonym u8 = "8 word"
type_synonym bytes = "u8 list"

text \<open>
  A Rust \<open>String\<close> is its UTF-8 bytes: the model uses \<open>string\<close>, one \<open>char\<close> per byte, so that
  \<open>length\<close> is \<open>str::len\<close> and the lexicographic order is the byte order that sqlite's BINARY
  collation and Rust's \<open>Ord for str\<close> both use. \<open>into_bytes\<close> and \<open>of_utf8_bytes\<close> change the type
  only.
\<close>

definition byte_of_char :: "char \<Rightarrow> u8" where
  "byte_of_char c = of_nat (of_char c)"

definition char_of_byte :: "u8 \<Rightarrow> char" where
  "char_of_byte b = char_of (unat b)"

definition into_bytes :: "string \<Rightarrow> bytes" where
  "into_bytes s = map byte_of_char s"

definition of_utf8_bytes :: "bytes \<Rightarrow> string" where
  "of_utf8_bytes bs = map char_of_byte bs"

lemma unat_byte_of_char [simp]: "unat (byte_of_char c) = of_char c"
  by (simp add: byte_of_char_def unat_of_nat)

lemma char_of_byte_of_char [simp]: "char_of_byte (byte_of_char c) = c"
  by (simp add: char_of_byte_def)

lemma byte_of_char_of_byte [simp]: "byte_of_char (char_of_byte b) = b"
proof -
  have "unat b < 256" using unsigned_less [of b, where 'a = nat] by simp
  then show ?thesis by (simp add: byte_of_char_def char_of_byte_def)
qed

lemma byte_of_char_eq_iff [simp]: "byte_of_char c = byte_of_char d \<longleftrightarrow> c = d"
  by (metis char_of_byte_of_char)

lemma of_utf8_into_bytes [simp]: "of_utf8_bytes (into_bytes s) = s"
  by (simp add: of_utf8_bytes_def into_bytes_def comp_def)

lemma into_of_utf8_bytes [simp]: "into_bytes (of_utf8_bytes bs) = bs"
  by (simp add: of_utf8_bytes_def into_bytes_def comp_def)

lemma length_into_bytes [simp]: "length (into_bytes s) = length s"
  by (simp add: into_bytes_def)

lemma into_bytes_eq_iff [simp]: "into_bytes s = into_bytes t \<longleftrightarrow> s = t"
  by (metis of_utf8_into_bytes)

lemma into_bytes_Nil [simp]: "into_bytes s = [] \<longleftrightarrow> s = []" "into_bytes [] = []" "of_utf8_bytes [] = []"
  by (simp_all add: into_bytes_def of_utf8_bytes_def)

text \<open>\<open>std::io::Error\<close>: the kinds the source creates or matches on, and the message.\<close>

datatype error_kind = InvalidInput | NotFound | OtherKind

datatype io_error = IoError (kind: error_kind) (msg: string)

type_synonym 'a res = "io_error + 'a"

definition io_other :: "string \<Rightarrow> io_error" where
  "io_other m = IoError OtherKind m"

definition io_invalid :: "string \<Rightarrow> io_error" where
  "io_invalid m = IoError InvalidInput m"

lemma kind_io_other [simp]: "kind (io_other m) = OtherKind"
  by (simp add: io_other_def)

lemma kind_io_invalid [simp]: "kind (io_invalid m) = InvalidInput"
  by (simp add: io_invalid_def)

text \<open>\<open>res.is_ok()\<close>.\<close>

definition is_ok :: "'a res \<Rightarrow> bool" where
  "is_ok r \<longleftrightarrow> (\<not> isl r)"

lemma is_ok_simps [simp]: "is_ok (Inr x)" "\<not> is_ok (Inl e)"
  by (simp_all add: is_ok_def)

text \<open>The \<open>?\<close> operator: go on with the value, or return the error.\<close>

definition and_then :: "'a res \<Rightarrow> ('a \<Rightarrow> 'b res) \<Rightarrow> 'b res" where
  "and_then r f = (case r of Inl e \<Rightarrow> Inl e | Inr x \<Rightarrow> f x)"

lemma and_then_simps [simp]: "and_then (Inl e) f = Inl e" "and_then (Inr x) f = f x"
  by (simp_all add: and_then_def)

lemma and_then_eq_Inr: "and_then r f = Inr y \<longleftrightarrow> (\<exists>x. r = Inr x \<and> f x = Inr y)"
  by (cases r) auto

lemma and_then_cong [fundef_cong]:
  "r = r' \<Longrightarrow> (\<And>x. r' = Inr x \<Longrightarrow> f x = f' x) \<Longrightarrow> and_then r f = and_then r' f'"
  by (cases r') (auto simp: and_then_def)

text \<open>The same where a state is passed along: the state of a failed step is kept.\<close>

definition then_st :: "'a res \<times> 's \<Rightarrow> ('a \<Rightarrow> 's \<Rightarrow> 'b res \<times> 's) \<Rightarrow> 'b res \<times> 's" where
  "then_st p f = (case p of (Inl e, s) \<Rightarrow> (Inl e, s) | (Inr x, s) \<Rightarrow> f x s)"

lemma then_st_simps [simp]: "then_st (Inl e, s) f = (Inl e, s)" "then_st (Inr x, s) f = f x s"
  by (simp_all add: then_st_def)

lemma then_st_Inr: "then_st p f = (Inr y, t) \<longleftrightarrow> (\<exists>x s. p = (Inr x, s) \<and> f x s = (Inr y, t))"
  by (auto simp: then_st_def split: prod.split sum.split)

subsection \<open>Signed 64-bit integers\<close>

text \<open>
  An \<open>i64\<close> is an \<open>int\<close> in range; arithmetic that can leave the range goes through
  \<open>wrap_i64\<close> (two's complement wrap-around, what the release profile does) or
  \<open>saturating_add_i64\<close>.
\<close>

definition i64_min :: int where "i64_min = - (2 ^ 63)"
definition i64_max :: int where "i64_max = 2 ^ 63 - 1"

definition is_i64 :: "int \<Rightarrow> bool" where
  "is_i64 x \<longleftrightarrow> i64_min \<le> x \<and> x \<le> i64_max"

definition wrap_i64 :: "int \<Rightarrow> int" where
  "wrap_i64 x = (x + 2 ^ 63) mod 2 ^ 64 - 2 ^ 63"

definition saturating_add_i64 :: "int \<Rightarrow> int \<Rightarrow> int" where
  "saturating_add_i64 a b = max i64_min (min i64_max (a + b))"

lemmas i64_defs = is_i64_def i64_min_def i64_max_def

lemma is_i64_wrap [simp]: "is_i64 (wrap_i64 x)"
proof -
  have "0 \<le> (x + 2 ^ 63) mod 2 ^ 64" "(x + 2 ^ 63) mod 2 ^ 64 < (2 :: int) ^ 64"
    by simp_all
  then show ?thesis by (simp add: i64_defs wrap_i64_def)
qed

lemma wrap_i64_id [simp]: "is_i64 x \<Longrightarrow> wrap_i64 x = x"
  by (simp add: i64_defs wrap_i64_def)

lemma is_i64_saturating_add [simp]: "is_i64 (saturating_add_i64 a b)"
  by (simp add: i64_defs saturating_add_i64_def)

lemma wrap_i64_overflow: "wrap_i64 (i64_max + 1) = i64_min"
  by (simp add: i64_defs wrap_i64_def)

subsection \<open>Little-endian encodings\<close>

text \<open>\<open>u64::to_le_bytes\<close> and \<open>i64::to_le_bytes\<close>, from the \<open>k\<close>-byte encoding of a natural number.\<close>

fun le_bytes :: "nat \<Rightarrow> nat \<Rightarrow> bytes" where
  "le_bytes 0 n = []"
| "le_bytes (Suc k) n = of_nat (n mod 256) # le_bytes k (n div 256)"

definition u64_to_le_bytes :: "nat \<Rightarrow> bytes" where
  "u64_to_le_bytes n = le_bytes 8 (n mod 2 ^ 64)"

definition i64_to_le_bytes :: "int \<Rightarrow> bytes" where
  "i64_to_le_bytes x = le_bytes 8 (nat (x mod 2 ^ 64))"

lemma length_le_bytes [simp]: "length (le_bytes k n) = k"
  by (induction k arbitrary: n) auto

lemma length_u64_to_le_bytes [simp]: "length (u64_to_le_bytes n) = 8"
  by (simp add: u64_to_le_bytes_def)

lemma length_i64_to_le_bytes [simp]: "length (i64_to_le_bytes x) = 8"
  by (simp add: i64_to_le_bytes_def)

lemma of_nat_byte_eq: "m < 256 \<Longrightarrow> n < 256 \<Longrightarrow> (of_nat m :: u8) = of_nat n \<longleftrightarrow> m = n"
  by (simp add: word_of_nat_eq_iff take_bit_eq_mod)

text \<open>The encoding determines the number below \<open>256 ^ k\<close>.\<close>

lemma le_bytes_inject:
  "m < 256 ^ k \<Longrightarrow> n < 256 ^ k \<Longrightarrow> le_bytes k m = le_bytes k n \<longleftrightarrow> m = n"
proof (induction k arbitrary: m n)
  case 0
  then show ?case by simp
next
  case (Suc k)
  have "m div 256 < 256 ^ k" "n div 256 < 256 ^ k"
    using Suc.prems by (simp_all add: less_mult_imp_div_less mult.commute)
  then have "le_bytes k (m div 256) = le_bytes k (n div 256) \<longleftrightarrow> m div 256 = n div 256"
    by (rule Suc.IH)
  moreover have "(of_nat (m mod 256) :: u8) = of_nat (n mod 256) \<longleftrightarrow> m mod 256 = n mod 256"
    by (rule of_nat_byte_eq) simp_all
  ultimately show ?case
    by (metis div_mult_mod_eq le_bytes.simps(2) list.inject)
qed

lemma u64_to_le_bytes_inject:
  assumes "m < 2 ^ 64" "n < 2 ^ 64"
  shows "u64_to_le_bytes m = u64_to_le_bytes n \<longleftrightarrow> m = n"
  using assms by (simp add: u64_to_le_bytes_def le_bytes_inject)

lemma i64_to_le_bytes_inject:
  assumes "is_i64 x" "is_i64 y"
  shows "i64_to_le_bytes x = i64_to_le_bytes y \<longleftrightarrow> x = y"
proof -
  have "nat (z mod 2 ^ 64) < 256 ^ 8" for z :: int
    by (simp add: nat_less_iff)
  then have "i64_to_le_bytes x = i64_to_le_bytes y \<longleftrightarrow> x mod 2 ^ 64 = y mod 2 ^ 64"
    by (simp add: i64_to_le_bytes_def le_bytes_inject eq_nat_nat_iff)
  also have "\<dots> \<longleftrightarrow> wrap_i64 x = wrap_i64 y"
  proof
    assume "x mod 2 ^ 64 = y mod 2 ^ 64"
    then have "(x + 2 ^ 63) mod 2 ^ 64 = (y + 2 ^ 63) mod 2 ^ 64" by (rule mod_add_cong) simp
    then show "wrap_i64 x = wrap_i64 y" by (simp only: wrap_i64_def)
  next
    assume "wrap_i64 x = wrap_i64 y"
    then show "x mod 2 ^ 64 = y mod 2 ^ 64" using assms by simp
  qed
  finally show ?thesis using assms by simp
qed

subsection \<open>Step relations and their invariants\<close>

text \<open>
  The states a machine can be in: an initial state, or a step away from one. A component
  with interleaved steps instantiates the locale \<open>inductive_invariant\<close> with its own initial
  states, step relation and invariant, and gets the invariant for every reachable state and
  for every state of a run.
\<close>

inductive reachable :: "('s \<Rightarrow> bool) \<Rightarrow> ('s \<Rightarrow> 's \<Rightarrow> bool) \<Rightarrow> 's \<Rightarrow> bool"
  for init :: "'s \<Rightarrow> bool" and step :: "'s \<Rightarrow> 's \<Rightarrow> bool" where
  reach_init: "init s \<Longrightarrow> reachable init step s"
| reach_step: "reachable init step s \<Longrightarrow> step s t \<Longrightarrow> reachable init step t"

locale inductive_invariant =
  fixes init :: "'s \<Rightarrow> bool" and step :: "'s \<Rightarrow> 's \<Rightarrow> bool" and inv :: "'s \<Rightarrow> bool"
  assumes inv_init: "init s \<Longrightarrow> inv s"
    and inv_step: "step s t \<Longrightarrow> inv s \<Longrightarrow> inv t"
begin

lemma inv_reachable: "reachable init step s \<Longrightarrow> inv s"
  by (induction rule: reachable.induct) (auto intro: inv_init inv_step)

lemma inv_steps: "step\<^sup>*\<^sup>* s t \<Longrightarrow> inv s \<Longrightarrow> inv t"
  by (induction rule: rtranclp_induct) (auto intro: inv_step)

end

text \<open>
  Refinement by forward simulation: a step of the detailed machine is a step of the specification that
  keeps the representation; so every run is a run of the specification.
\<close>

locale forward_simulation =
  fixes rep :: "'a \<Rightarrow> 'c \<Rightarrow> bool" and astep :: "'a \<Rightarrow> 'a \<Rightarrow> bool" and cstep :: "'c \<Rightarrow> 'c \<Rightarrow> bool"
  assumes sim_step: "rep a c \<Longrightarrow> cstep c c' \<Longrightarrow> \<exists>a'. astep a a' \<and> rep a' c'"
begin

lemma sim_steps:
  assumes "cstep\<^sup>*\<^sup>* c c'" "rep a c"
  shows "\<exists>a'. astep\<^sup>*\<^sup>* a a' \<and> rep a' c'"
  using assms
proof (induction rule: rtranclp_induct)
  case (step d e)
  then obtain a1 where "astep\<^sup>*\<^sup>* a a1" "rep a1 d" by blast
  moreover obtain a2 where "astep a1 a2" "rep a2 e" using sim_step [OF \<open>rep a1 d\<close> step.hyps(2)] by blast
  ultimately show ?case by (meson rtranclp.rtrancl_into_rtrancl)
qed blast

end

lemma reachable_steps: "step\<^sup>*\<^sup>* s t \<Longrightarrow> reachable init step s \<Longrightarrow> reachable init step t"
  by (induction rule: rtranclp_induct) (auto intro: reach_step)

subsection \<open>Lists\<close>

text \<open>
  Tables as lists of rows under a key: looking a row up, and storing a row under its key, in
  place where the key is there.
\<close>

definition find_row :: "('r \<Rightarrow> 'k) \<Rightarrow> 'k \<Rightarrow> 'r list \<Rightarrow> 'r option" where
  "find_row pk k rows = find (\<lambda>r. pk r = k) rows"

definition replace_row :: "('r \<Rightarrow> 'k) \<Rightarrow> 'r \<Rightarrow> 'r list \<Rightarrow> 'r list" where
  "replace_row pk row rows = map (\<lambda>r. if pk r = pk row then row else r) rows"

lemma find_row_simps [simp]:
  "find_row pk k [] = None"
  "find_row pk k (r # rows) = (if pk r = k then Some r else find_row pk k rows)"
  by (simp_all add: find_row_def)

lemma find_row_append [simp]:
  "find_row pk k (xs @ ys) = (case find_row pk k xs of None \<Rightarrow> find_row pk k ys | Some r \<Rightarrow> Some r)"
  by (induction xs) auto

lemma find_row_None: "find_row pk k rows = None \<longleftrightarrow> k \<notin> pk ` set rows"
  by (induction rows) auto

lemma find_row_SomeD: "find_row pk k rows = Some r \<Longrightarrow> r \<in> set rows \<and> pk r = k"
  by (induction rows) (auto split: if_splits)

lemma find_row_distinct:
  "distinct (map pk rows) \<Longrightarrow> find_row pk k rows = Some r \<longleftrightarrow> r \<in> set rows \<and> pk r = k"
proof
  assume d: "distinct (map pk rows)" and r: "r \<in> set rows \<and> pk r = k"
  then obtain r' where r': "find_row pk k rows = Some r'"
    by (metis find_row_None image_eqI not_None_eq)
  with d r show "find_row pk k rows = Some r"
    using find_row_SomeD [OF r'] by (auto simp: distinct_map dest: inj_onD)
qed (rule find_row_SomeD)

lemma map_pk_replace_row [simp]: "map pk (replace_row pk row rows) = map pk rows"
  by (auto simp: replace_row_def)

lemma find_row_replace [simp]:
  "find_row pk k (replace_row pk row rows) =
     (if k = pk row \<and> find_row pk k rows \<noteq> None then Some row else find_row pk k rows)"
  by (induction rows) (auto simp: replace_row_def)

lemma set_replace_row:
  "set (replace_row pk row rows) =
     {r \<in> set rows. pk r \<noteq> pk row} \<union> (if pk row \<in> pk ` set rows then {row} else {})"
  by (auto simp: replace_row_def rev_image_eqI)

lemma replace_row_absent: "pk row \<notin> pk ` set rows \<Longrightarrow> replace_row pk row rows = rows"
  unfolding replace_row_def by (rule map_idI) (metis image_eqI)

lemma replace_row_Cons [simp]:
  "replace_row pk row (r # rows) = (if pk r = pk row then row else r) # replace_row pk row rows"
  by (simp add: replace_row_def)

lemma distinct_map_replace_row:
  assumes "distinct (map pk rows)" "distinct (map f rows)"
    and "\<And>r. r \<in> set rows \<Longrightarrow> pk r \<noteq> pk row \<Longrightarrow> f r \<noteq> f row"
  shows "distinct (map f (replace_row pk row rows))"
  using assms
proof (induction rows)
  case (Cons r rows)
  have others: "f r' \<noteq> f row" if "r' \<in> set rows" "pk r' \<noteq> pk row" for r'
    using Cons.prems(3) that by simp
  show ?case
  proof (cases "pk r = pk row")
    case True
    with Cons.prems(1) have absent: "pk row \<notin> pk ` set rows" by simp
    have "f x \<noteq> f row" if "x \<in> set rows" for x
    proof -
      have "pk x \<noteq> pk row" using absent that by (metis imageI)
      then show ?thesis by (rule others [OF that])
    qed
    then have "f row \<notin> f ` set rows" by (metis imageE)
    with absent show ?thesis using Cons.prems(2) True by (simp add: replace_row_absent)
  next
    case False
    then have "f r \<noteq> f row" using Cons.prems(3) by simp
    moreover have "f r \<notin> f ` set rows" using Cons.prems(2) by simp
    ultimately have "f r \<notin> f ` set (replace_row pk row rows)"
      unfolding set_replace_row by (auto split: if_splits)
    moreover have "distinct (map f (replace_row pk row rows))"
      by (rule Cons.IH) (use Cons.prems others in simp_all)
    ultimately show ?thesis using False by simp
  qed
qed (simp add: replace_row_def)

lemma find_row_filter:
  assumes "\<And>r r'. pk r = pk r' \<Longrightarrow> P r = P r'"
  shows "find_row pk k (filter P rows) = (case find_row pk k rows of
      Some r \<Rightarrow> if P r then Some r else None | None \<Rightarrow> None)"
proof (induction rows)
  case (Cons r rows)
  have P: "P r' = P r" if "pk r = k" "find_row pk k rows = Some r'" for r'
    using find_row_SomeD [OF that(2)] that(1) by (intro assms) simp
  show ?case
    by (cases "pk r = k"; cases "find_row pk k rows") (simp_all add: Cons.IH P)
qed simp

lemma distinct_map_filter_snoc:
  assumes "distinct (map f xs)" and "\<And>x. x \<in> set xs \<Longrightarrow> P x \<Longrightarrow> f x \<noteq> f y"
  shows "distinct (map f (filter P xs @ [y]))"
  using assms by (auto simp: distinct_map_filter) metis

lemma sorted_sort_key_rev: "sorted_wrt (\<lambda>x y. f y \<le> f x) (rev (sort_key f xs))"
  using sorted_sort_key [of f xs] by (simp add: sorted_wrt_rev sorted_map)

lemma sorted_wrt_take: "sorted_wrt P xs \<Longrightarrow> sorted_wrt P (take n xs)"
  by (metis append_take_drop_id sorted_wrt_append)

lemma last_take: "0 < n \<Longrightarrow> n \<le> length xs \<Longrightarrow> last (take n xs) = xs ! (n - 1)"
  by (cases n) (simp_all add: take_Suc_conv_app_nth)

lemma filter_eq_self: "filter P xs = xs \<longleftrightarrow> (\<forall>x\<in>set xs. P x)"
  by (simp add: filter_id_conv)

end
