(* ===== verification/Rust_Std.thy ===== *)
theory Rust_Std
  imports Prelude
begin

section \<open>What the source uses of the Rust standard library\<close>

text \<open>
  String functions on UTF-8 bytes (\<open>strip_prefix\<close>, \<open>trim\<close>, \<open>contains\<close>, \<open>String::from_utf8\<close>,
  \<open>parse::<u64>\<close>), \<open>SystemTime\<close> arithmetic and \<open>std::ops::Bound\<close>, each as documented by std.
\<close>

subsection \<open>str\<close>

definition strip_prefix :: "string \<Rightarrow> string \<Rightarrow> string option" where
  "strip_prefix p s = (if prefix p s then Some (drop (length p) s) else None)"

lemma strip_prefix_append [simp]: "strip_prefix p (p @ s) = Some s"
  by (simp add: strip_prefix_def)

lemma strip_prefix_eq_Some [simp]: "strip_prefix p s = Some t \<longleftrightarrow> s = p @ t"
  by (auto simp: strip_prefix_def prefix_def)

text \<open>
  \<open>str::trim\<close> removes the Unicode \<open>White_Space\<close> characters at both ends; \<open>white_space\<close> lists
  their UTF-8 encodings.
\<close>

definition white_space :: "string list" where
  "white_space = [[CHR 0x09], [CHR 0x0A], [CHR 0x0B], [CHR 0x0C], [CHR 0x0D], [CHR 0x20],
     [CHR 0xC2, CHR 0x85], [CHR 0xC2, CHR 0xA0], [CHR 0xE1, CHR 0x9A, CHR 0x80],
     [CHR 0xE2, CHR 0x80, CHR 0x80], [CHR 0xE2, CHR 0x80, CHR 0x81],
     [CHR 0xE2, CHR 0x80, CHR 0x82], [CHR 0xE2, CHR 0x80, CHR 0x83],
     [CHR 0xE2, CHR 0x80, CHR 0x84], [CHR 0xE2, CHR 0x80, CHR 0x85],
     [CHR 0xE2, CHR 0x80, CHR 0x86], [CHR 0xE2, CHR 0x80, CHR 0x87],
     [CHR 0xE2, CHR 0x80, CHR 0x88], [CHR 0xE2, CHR 0x80, CHR 0x89],
     [CHR 0xE2, CHR 0x80, CHR 0x8A], [CHR 0xE2, CHR 0x80, CHR 0xA8],
     [CHR 0xE2, CHR 0x80, CHR 0xA9], [CHR 0xE2, CHR 0x80, CHR 0xAF],
     [CHR 0xE2, CHR 0x81, CHR 0x9F], [CHR 0xE3, CHR 0x80, CHR 0x80]]"

text \<open>Remove one of \<open>ws\<close> from the front as long as one is there.\<close>

function trim_front :: "string list \<Rightarrow> string \<Rightarrow> string" where
  "trim_front ws s =
     (case find (\<lambda>w. w \<noteq> [] \<and> prefix w s) ws of
        None \<Rightarrow> s
      | Some w \<Rightarrow> trim_front ws (drop (length w) s))"
  by pat_completeness auto
termination
  by (relation "measure (\<lambda>(ws, s). length s)") (auto simp: find_Some_iff prefix_def)

declare trim_front.simps [simp del]

definition str_trim :: "string \<Rightarrow> string" where
  "str_trim s = rev (trim_front (map rev white_space) (rev (trim_front white_space s)))"

definition is_white :: "char \<Rightarrow> bool" where
  "is_white c \<longleftrightarrow> c \<in> {CHR 0x09, CHR 0x0A, CHR 0x0B, CHR 0x0C, CHR 0x0D, CHR 0x20}"

text \<open>\<open>s.contains(c)\<close> for an ASCII character \<open>c\<close>.\<close>

definition str_contains :: "string \<Rightarrow> char \<Rightarrow> bool" where
  "str_contains s c \<longleftrightarrow> c \<in> set s"

text \<open>
  The UTF-8 validation of \<open>String::from_utf8\<close>: shortest encodings of scalar values only (no
  surrogates, nothing above U+10FFFF).
\<close>

definition cont_byte :: "char \<Rightarrow> bool" where
  "cont_byte c \<longleftrightarrow> (of_char c :: nat) div 64 = 2"

fun utf8_valid :: "string \<Rightarrow> bool" where
  "utf8_valid [] = True"
| "utf8_valid (a # s) = (let n = (of_char a :: nat) in
     if n < 0x80 then utf8_valid s
     else if 0xC2 \<le> n \<and> n \<le> 0xDF then
       (case s of b # t \<Rightarrow> cont_byte b \<and> utf8_valid t | _ \<Rightarrow> False)
     else if 0xE0 \<le> n \<and> n \<le> 0xEF then
       (case s of b # c # t \<Rightarrow>
          cont_byte b \<and> cont_byte c \<and> (n = 0xE0 \<longrightarrow> 0xA0 \<le> (of_char b :: nat)) \<and>
          (n = 0xED \<longrightarrow> (of_char b :: nat) < 0xA0) \<and> utf8_valid t
        | _ \<Rightarrow> False)
     else if 0xF0 \<le> n \<and> n \<le> 0xF4 then
       (case s of b # c # d # t \<Rightarrow>
          cont_byte b \<and> cont_byte c \<and> cont_byte d \<and> (n = 0xF0 \<longrightarrow> 0x90 \<le> (of_char b :: nat)) \<and>
          (n = 0xF4 \<longrightarrow> (of_char b :: nat) < 0x90) \<and> utf8_valid t
        | _ \<Rightarrow> False)
     else False)"

text \<open>\<open>String::from_utf8\<close>: the error carries no information the source uses.\<close>

definition from_utf8 :: "bytes \<Rightarrow> string option" where
  "from_utf8 bs = (let s = of_utf8_bytes bs in if utf8_valid s then Some s else None)"

lemma from_utf8_into_bytes [simp]:
  "from_utf8 (into_bytes s) = (if utf8_valid s then Some s else None)"
  by (simp add: from_utf8_def Let_def)

lemma utf8_valid_ascii: "(\<And>c. c \<in> set s \<Longrightarrow> (of_char c :: nat) < 0x80) \<Longrightarrow> utf8_valid s"
  by (induction s) (auto simp: Let_def)

text \<open>
  \<open>String::from_utf8_lossy\<close>: valid sequences are copied, each maximal invalid one becomes U+FFFD.
  \<open>utf8_head\<close> gives the length of the sequence at the front and whether it is valid.
\<close>

definition replacement :: string where
  "replacement = [CHR 0xEF, CHR 0xBF, CHR 0xBD]"

definition second_ok :: "nat \<Rightarrow> char \<Rightarrow> bool" where
  "second_ok n b \<longleftrightarrow> cont_byte b \<and> (n = 0xE0 \<longrightarrow> 0xA0 \<le> (of_char b :: nat)) \<and>
     (n = 0xED \<longrightarrow> (of_char b :: nat) < 0xA0) \<and> (n = 0xF0 \<longrightarrow> 0x90 \<le> (of_char b :: nat)) \<and>
     (n = 0xF4 \<longrightarrow> (of_char b :: nat) < 0x90)"

definition utf8_width :: "nat \<Rightarrow> nat" where
  "utf8_width n = (if n < 0x80 then 1 else if 0xC2 \<le> n \<and> n \<le> 0xDF then 2
     else if 0xE0 \<le> n \<and> n \<le> 0xEF then 3 else if 0xF0 \<le> n \<and> n \<le> 0xF4 then 4 else 0)"

definition utf8_head :: "string \<Rightarrow> nat \<times> bool" where
  "utf8_head s = (let n = (of_char (hd s) :: nat); w = utf8_width n in
     if w = 0 then (1, False)
     else if w = 1 then (1, True)
     else if length s < 2 \<or> \<not> second_ok n (s ! 1) then (1, False)
     else if w = 2 then (2, True)
     else if length s < 3 \<or> \<not> cont_byte (s ! 2) then (2, False)
     else if w = 3 then (3, True)
     else if length s < 4 \<or> \<not> cont_byte (s ! 3) then (3, False)
     else (4, True))"

lemma utf8_head_pos: "0 < fst (utf8_head s)"
  by (simp add: utf8_head_def Let_def)

function lossy :: "string \<Rightarrow> string" where
  "lossy s = (if s = [] then [] else
     (case utf8_head s of (k, ok) \<Rightarrow> (if ok then take k s else replacement) @ lossy (drop k s)))"
  by pat_completeness auto
termination
proof (relation "measure length", goal_cases)
  case (2 s k ok)
  then have "0 < k" using utf8_head_pos [of s] by (metis fst_conv)
  with 2 show ?case by (cases s) auto
qed simp

declare lossy.simps [simp del]

definition from_utf8_lossy :: "bytes \<Rightarrow> string" where
  "from_utf8_lossy bs = lossy (of_utf8_bytes bs)"

text \<open>Text that is valid already stays as it is.\<close>

lemma utf8_head_valid:
  assumes "utf8_valid s" "s \<noteq> []"
  shows "\<exists>k. utf8_head s = (k, True) \<and> k \<le> length s \<and> utf8_valid (drop k s)"
proof -
  obtain a t where s: "s = a # t" using assms(2) by (cases s) auto
  let ?n = "of_char a :: nat"
  consider "?n < 0x80" | "0xC2 \<le> ?n" "?n \<le> 0xDF" | "0xE0 \<le> ?n" "?n \<le> 0xEF" | "0xF0 \<le> ?n" "?n \<le> 0xF4"
    using assms(1) s by (auto simp: Let_def split: if_splits)
  then show ?thesis
  proof cases
    case 1
    then show ?thesis using assms(1) s by (simp add: utf8_head_def utf8_width_def)
  next
    case 2
    then obtain b t' where "t = b # t'" "cont_byte b" "utf8_valid t'"
      using assms(1) s by (auto simp: Let_def split: list.splits)
    then show ?thesis using 2 s by (simp add: utf8_head_def utf8_width_def second_ok_def)
  next
    case 3
    then obtain b c t' where "t = b # c # t'" "second_ok ?n b" "cont_byte c" "utf8_valid t'"
      using assms(1) s by (auto simp: Let_def second_ok_def split: list.splits)
    then show ?thesis using 3 s by (simp add: utf8_head_def utf8_width_def)
  next
    case 4
    then obtain b c d t' where "t = b # c # d # t'" "second_ok ?n b" "cont_byte c" "cont_byte d" "utf8_valid t'"
      using assms(1) s by (auto simp: Let_def second_ok_def split: list.splits)
    then show ?thesis using 4 s by (simp add: utf8_head_def utf8_width_def)
  qed
qed

lemma lossy_valid: "utf8_valid s \<Longrightarrow> lossy s = s"
proof (induction s rule: length_induct)
  case (1 s)
  show ?case
  proof (cases "s = []")
    case True
    then show ?thesis by (simp add: lossy.simps)
  next
    case False
    then obtain k where k: "utf8_head s = (k, True)" "k \<le> length s" "utf8_valid (drop k s)"
      using utf8_head_valid 1(2) by blast
    have "length (drop k s) < length s" using k(1) utf8_head_pos [of s] False by simp
    then have "lossy (drop k s) = drop k s" using 1(1) k(3) by blast
    then show ?thesis using k(1) False by (subst lossy.simps) simp
  qed
qed

text \<open>\<open>str::parse::<u64>\<close>: an optional \<open>+\<close>, then at least one decimal digit, no overflow.\<close>

definition digit_val :: "char \<Rightarrow> nat option" where
  "digit_val c = (let n = (of_char c :: nat) in if 48 \<le> n \<and> n \<le> 57 then Some (n - 48) else None)"

fun parse_digits :: "nat \<Rightarrow> string \<Rightarrow> nat option" where
  "parse_digits acc [] = Some acc"
| "parse_digits acc (c # s) =
     (case digit_val c of
        None \<Rightarrow> None
      | Some d \<Rightarrow> (if acc * 10 + d < 2 ^ 64 then parse_digits (acc * 10 + d) s else None))"

definition parse_u64 :: "string \<Rightarrow> nat option" where
  "parse_u64 s = (let t = (case s of c # t \<Rightarrow> if c = CHR ''+'' then t else s | [] \<Rightarrow> s)
                  in if t = [] then None else parse_digits 0 t)"

lemma parse_digits_bound: "parse_digits acc s = Some n \<Longrightarrow> acc < 2 ^ 64 \<Longrightarrow> n < 2 ^ 64"
  by (induction acc s rule: parse_digits.induct) (auto split: option.splits if_splits)

lemma parse_u64_bound: "parse_u64 s = Some n \<Longrightarrow> n < 2 ^ 64"
  by (auto simp: parse_u64_def Let_def split: if_splits dest!: parse_digits_bound)

subsection \<open>Time\<close>

text \<open>
  A \<open>SystemTime\<close> is a number of nanoseconds relative to the unix epoch (negative before it).
  \<open>duration_since(UNIX_EPOCH)\<close> fails before the epoch; \<open>as_micros\<close> rounds down; the cast to
  \<open>i64\<close> keeps the low 64 bits.
\<close>

type_synonym system_time = int

definition micros_since_epoch :: "system_time \<Rightarrow> int option" where
  "micros_since_epoch t = (if 0 \<le> t then Some (wrap_i64 (t div 1000)) else None)"

definition of_secs :: "int \<Rightarrow> int" where
  "of_secs n = n * 1000000000"

text \<open>
  \<open>SystemTime::checked_sub\<close> on unix, where the seconds are an \<open>i64\<close>: \<open>None\<close> when the result
  is not representable.
\<close>

definition checked_sub :: "system_time \<Rightarrow> int \<Rightarrow> system_time option" where
  "checked_sub t d = (if is_i64 ((t - d) div 1000000000) then Some (t - d) else None)"

subsection \<open>Bounds\<close>

text \<open>\<open>std::ops::Bound\<close>.\<close>

datatype 'a bound = Included 'a | Excluded 'a | Unbounded

end
