(* ===== verification/Sql_Tables.thy ===== *)
theory Sql_Tables
  imports Rust_Std
begin

section \<open>The sqlite schema and the statements\<close>

text \<open>
  \<open>sql/schema.sql\<close> as two tables of rows, and each statement of \<open>sql/*.sql\<close> (with the two that
  \<open>sql.rs\<close> holds inline) as a function on the tables: \<open>ON CONFLICT\<close> clauses, \<open>UNIQUE\<close> and
  \<open>FOREIGN KEY\<close> violations, \<open>ON DELETE CASCADE\<close>, and the count of changed rows. The order of
  rows in a list has no meaning; where a query has \<open>ORDER BY\<close>, the model sorts.
\<close>

record entry_row =
  e_class :: string
  e_key :: string
  e_modified :: int
  e_expires :: "int option"
  e_metadata :: "bytes option"

record chunk_row =
  c_class :: string
  c_key :: string
  c_idx :: int
  c_blob_id :: bytes
  c_hash :: bytes
  c_tag :: bytes
  c_size :: int
  c_is_final :: bool

record tables =
  entries :: "entry_row list"
  chunks :: "chunk_row list"

type_synonym entry_pk = "string \<times> string"
type_synonym chunk_pk = "string \<times> string \<times> int"

definition e_pk :: "entry_row \<Rightarrow> entry_pk" where
  "e_pk r = (e_class r, e_key r)"

definition c_pk :: "chunk_row \<Rightarrow> chunk_pk" where
  "c_pk r = (c_class r, c_key r, c_idx r)"

definition c_parent :: "chunk_row \<Rightarrow> entry_pk" where
  "c_parent r = (c_class r, c_key r)"

definition empty_tables :: tables where
  "empty_tables = \<lparr>entries = [], chunks = []\<rparr>"

text \<open>What the schema enforces: the primary keys, the unique timestamp, the foreign key.\<close>

definition tables_wf :: "tables \<Rightarrow> bool" where
  "tables_wf t \<longleftrightarrow> distinct (map e_pk (entries t)) \<and> distinct (map e_modified (entries t)) \<and>
     distinct (map c_pk (chunks t)) \<and> (\<forall>c \<in> set (chunks t). c_parent c \<in> e_pk ` set (entries t))"

lemma tables_wf_empty [simp]: "tables_wf empty_tables"
  by (simp add: tables_wf_def empty_tables_def)

text \<open>The errors of a statement, and their conversion by \<open>io::Error::other\<close>.\<close>

datatype sql_error = UniqueViolation | ForeignKeyViolation

fun io_of_sql :: "sql_error \<Rightarrow> io_error" where
  "io_of_sql UniqueViolation = io_other ''UNIQUE constraint failed''"
| "io_of_sql ForeignKeyViolation = io_other ''FOREIGN KEY constraint failed''"

subsection \<open>Writing statements\<close>

text \<open>
  \<open>upsert.sql\<close>: the conflict on the primary key is checked first; an update that is not
  strictly newer changes nothing; any other conflict on the timestamp is an error.
\<close>

definition exec_upsert :: "entry_row \<Rightarrow> tables \<Rightarrow> sql_error + (nat \<times> tables)" where
  "exec_upsert row t =
     (case find_row e_pk (e_pk row) (entries t) of
        None \<Rightarrow>
          (if e_modified row \<in> set (map e_modified (entries t)) then Inl UniqueViolation
           else Inr (1, t\<lparr>entries := entries t @ [row]\<rparr>))
      | Some old \<Rightarrow>
          (if e_modified row > e_modified old then
             (if e_modified row \<in> set (map e_modified (filter (\<lambda>r. e_pk r \<noteq> e_pk row) (entries t)))
              then Inl UniqueViolation
              else Inr (1, t\<lparr>entries := replace_row e_pk row (entries t)\<rparr>))
           else Inr (0, t)))"

text \<open>\<open>upsert_chunk.sql\<close>.\<close>

definition exec_upsert_chunk :: "chunk_row \<Rightarrow> tables \<Rightarrow> sql_error + tables" where
  "exec_upsert_chunk row t =
     (if find_row c_pk (c_pk row) (chunks t) \<noteq> None then
        Inr (t\<lparr>chunks := replace_row c_pk row (chunks t)\<rparr>)
      else if c_parent row \<in> set (map e_pk (entries t)) then
        Inr (t\<lparr>chunks := chunks t @ [row]\<rparr>)
      else Inl ForeignKeyViolation)"

text \<open>\<open>DELETE FROM entries\<close>: the count does not include the rows deleted by the cascade.\<close>

definition exec_delete :: "(entry_pk \<Rightarrow> bool) \<Rightarrow> tables \<Rightarrow> nat \<times> tables" where
  "exec_delete P t =
     (length (filter (\<lambda>r. P (e_pk r)) (entries t)),
      t\<lparr>entries := filter (\<lambda>r. \<not> P (e_pk r)) (entries t),
        chunks := filter (\<lambda>r. \<not> P (c_parent r)) (chunks t)\<rparr>)"

subsection \<open>Reading statements\<close>

definition q_chunk_count :: "entry_pk \<Rightarrow> tables \<Rightarrow> int" where
  "q_chunk_count k t = int (length (filter (\<lambda>r. c_parent r = k) (chunks t)))"

definition q_entry :: "entry_pk \<Rightarrow> tables \<Rightarrow> entry_row option" where
  "q_entry k t = find_row e_pk k (entries t)"

definition q_chunk :: "chunk_pk \<Rightarrow> tables \<Rightarrow> chunk_row option" where
  "q_chunk k t = find_row c_pk k (chunks t)"

definition q_blob_id_exists :: "bytes \<Rightarrow> tables \<Rightarrow> bool" where
  "q_blob_id_exists i t \<longleftrightarrow> i \<in> set (map c_blob_id (chunks t))"

definition q_blob_ids :: "(entry_pk \<Rightarrow> bool) \<Rightarrow> tables \<Rightarrow> bytes list" where
  "q_blob_ids P t = map c_blob_id (filter (\<lambda>r. P (c_parent r)) (chunks t))"

text \<open>\<open>LIMIT n\<close>: a negative limit is no limit.\<close>

definition sql_limit :: "int \<Rightarrow> 'a list \<Rightarrow> 'a list" where
  "sql_limit n xs = (if n < 0 then xs else take (nat n) xs)"

text \<open>The subquery of \<open>prune_expired.sql\<close> and \<open>prune_expired_blob_ids.sql\<close>.\<close>

definition expired :: "int \<Rightarrow> entry_row \<Rightarrow> bool" where
  "expired now r \<longleftrightarrow> (case e_expires r of None \<Rightarrow> False | Some x \<Rightarrow> x \<le> now)"

definition prune_batch :: "int \<Rightarrow> int \<Rightarrow> tables \<Rightarrow> entry_pk list" where
  "prune_batch now limit t =
     map e_pk (sql_limit limit
       (sort_key (\<lambda>r. (the (e_expires r), e_class r, e_key r)) (filter (expired now) (entries t))))"

subsection \<open>The schema invariant\<close>

lemma tables_wf_upsert:
  assumes "tables_wf t" "exec_upsert row t = Inr (n, t')"
  shows "tables_wf t'"
proof (cases "find_row e_pk (e_pk row) (entries t)")
  case None
  then have "e_pk row \<notin> e_pk ` set (entries t)" by (simp add: find_row_None)
  with None assms show ?thesis by (auto simp: exec_upsert_def tables_wf_def split: if_splits)
next
  case (Some old)
  let ?new = "replace_row e_pk row (entries t)"
  have fk: "e_pk ` set ?new = e_pk ` set (entries t)"
    by (metis list.set_map map_pk_replace_row)
  show ?thesis
  proof (cases "e_modified row > e_modified old")
    case True
    with Some assms(2) have fresh: "e_modified row \<notin> e_modified ` set (filter (\<lambda>r. e_pk r \<noteq> e_pk row) (entries t))"
      and t': "t' = t\<lparr>entries := ?new\<rparr>"
      by (simp_all add: exec_upsert_def split: if_splits)
    from fresh have "e_modified r \<noteq> e_modified row" if "r \<in> set (entries t)" "e_pk r \<noteq> e_pk row" for r
      using that by (simp add: image_iff) metis
    then have "distinct (map e_modified ?new)"
      using assms(1) by (intro distinct_map_replace_row) (simp_all add: tables_wf_def)
    with t' fk assms(1) show ?thesis by (simp add: tables_wf_def)
  next
    case False
    with Some assms show ?thesis by (simp add: exec_upsert_def)
  qed
qed

lemma tables_wf_upsert_chunk:
  assumes "tables_wf t" "exec_upsert_chunk row t = Inr t'"
  shows "tables_wf t'"
proof (cases "find_row c_pk (c_pk row) (chunks t)")
  case None
  then have "c_pk row \<notin> c_pk ` set (chunks t)" by (simp add: find_row_None)
  with None assms show ?thesis by (auto simp: exec_upsert_chunk_def tables_wf_def split: if_splits)
next
  case (Some old)
  then have "c_parent row = c_parent old" "old \<in> set (chunks t)"
    by (auto simp: c_pk_def c_parent_def dest!: find_row_SomeD)
  with Some assms show ?thesis
    by (auto simp: exec_upsert_chunk_def tables_wf_def set_replace_row split: if_splits)
qed

lemma tables_wf_delete: "tables_wf t \<Longrightarrow> tables_wf (snd (exec_delete P t))"
  by (fastforce simp: exec_delete_def tables_wf_def distinct_map_filter)

lemma tables_wf_exec_delete: "exec_delete P t = (n, t') \<Longrightarrow> tables_wf t \<Longrightarrow> tables_wf t'"
  using tables_wf_delete [of t P] by simp

subsection \<open>What a statement does to the lookups\<close>

lemma q_entry_upsert:
  assumes "exec_upsert row t = Inr (n, t')"
  shows "q_entry k t' = (if k = e_pk row \<and> 0 < n then Some row else q_entry k t)"
  using assms by (auto simp: exec_upsert_def q_entry_def split: option.splits if_splits)

lemma exec_upsert_count:
  "exec_upsert row t = Inr (n, t') \<Longrightarrow>
   0 < n \<longleftrightarrow> (case q_entry (e_pk row) t of None \<Rightarrow> True | Some old \<Rightarrow> e_modified old < e_modified row)"
  by (auto simp: exec_upsert_def q_entry_def split: option.splits if_splits)

lemma chunks_exec_upsert: "exec_upsert row t = Inr (n, t') \<Longrightarrow> chunks t' = chunks t"
  by (auto simp: exec_upsert_def split: option.splits if_splits)

text \<open>A timestamp no entry uses never fails.\<close>

lemma exec_upsert_fresh:
  "e_modified row \<notin> set (map e_modified (entries t)) \<Longrightarrow> \<exists>n t'. exec_upsert row t = Inr (n, t')"
  by (auto simp: exec_upsert_def split: option.splits)

lemma q_chunk_upsert_chunk:
  assumes "exec_upsert_chunk row t = Inr t'"
  shows "q_chunk k t' = (if k = c_pk row then Some row else q_chunk k t)"
  using assms by (auto simp: exec_upsert_chunk_def q_chunk_def split: option.splits if_splits)

lemma entries_upsert_chunk [simp]: "exec_upsert_chunk row t = Inr t' \<Longrightarrow> entries t' = entries t"
  by (auto simp: exec_upsert_chunk_def split: if_splits)

lemma exec_upsert_chunk_ok:
  assumes "tables_wf t"
  shows "isl (exec_upsert_chunk row t) \<longleftrightarrow> q_entry (c_parent row) t = None"
proof (cases "find_row c_pk (c_pk row) (chunks t)")
  case None
  have "isl (exec_upsert_chunk row t) = (c_parent row \<notin> e_pk ` set (entries t))"
    unfolding exec_upsert_chunk_def None by simp
  also have "\<dots> = (q_entry (c_parent row) t = None)"
    by (simp add: q_entry_def find_row_None)
  finally show ?thesis .
next
  case (Some old)
  then have "old \<in> set (chunks t)" "c_parent old = c_parent row"
    by (auto simp: c_pk_def c_parent_def dest!: find_row_SomeD)
  then have "c_parent row \<in> e_pk ` set (entries t)" using assms unfolding tables_wf_def by metis
  then have "q_entry (c_parent row) t \<noteq> None" by (simp add: q_entry_def find_row_None)
  moreover have "\<not> isl (exec_upsert_chunk row t)" unfolding exec_upsert_chunk_def Some by simp
  ultimately show ?thesis by simp
qed

lemma q_entry_delete: "q_entry k (snd (exec_delete P t)) = (if P k then None else q_entry k t)"
  by (auto simp: exec_delete_def q_entry_def find_row_filter split: option.splits dest: find_row_SomeD)

lemma q_chunk_delete:
  "q_chunk (c, k, i) (snd (exec_delete P t)) = (if P (c, k) then None else q_chunk (c, k, i) t)"
proof -
  have "find_row c_pk (c, k, i) (filter (\<lambda>r. \<not> P (c_parent r)) (chunks t)) =
      (case find_row c_pk (c, k, i) (chunks t) of
         Some r \<Rightarrow> if \<not> P (c_parent r) then Some r else None | None \<Rightarrow> None)"
    by (rule find_row_filter) (auto simp: c_pk_def c_parent_def)
  moreover have "c_parent r = (c, k)" if "find_row c_pk (c, k, i) (chunks t) = Some r" for r
    using find_row_SomeD [OF that] by (simp add: c_pk_def c_parent_def)
  ultimately show ?thesis by (simp add: q_chunk_def exec_delete_def split: option.split)
qed

lemma q_chunk_Some: "tables_wf t \<Longrightarrow> q_chunk k t = Some r \<longleftrightarrow> r \<in> set (chunks t) \<and> c_pk r = k"
  by (simp add: q_chunk_def tables_wf_def find_row_distinct)

lemma q_entry_Some: "tables_wf t \<Longrightarrow> q_entry k t = Some r \<longleftrightarrow> r \<in> set (entries t) \<and> e_pk r = k"
  by (simp add: q_entry_def tables_wf_def find_row_distinct)

subsection \<open>The expired batch\<close>

lemma set_sql_limit: "set (sql_limit n xs) \<subseteq> set xs"
  by (auto simp: sql_limit_def dest: in_set_takeD)

lemma length_sql_limit: "0 \<le> n \<Longrightarrow> length (sql_limit n xs) = min (nat n) (length xs)"
  by (simp add: sql_limit_def)

lemma sql_limit_all: "length xs \<le> nat n \<or> n < 0 \<Longrightarrow> sql_limit n xs = xs"
  by (auto simp: sql_limit_def)

lemma prune_batch_expired:
  "k \<in> set (prune_batch now limit t) \<Longrightarrow> \<exists>r. r \<in> set (entries t) \<and> e_pk r = k \<and> expired now r"
  using set_sql_limit by (fastforce simp: prune_batch_def)

lemma length_prune_batch:
  "0 \<le> limit \<Longrightarrow> length (prune_batch now limit t) = min (nat limit) (length (filter (expired now) (entries t)))"
  by (simp add: prune_batch_def length_sql_limit)

lemma distinct_prune_batch: "tables_wf t \<Longrightarrow> distinct (prune_batch now limit t)"
proof -
  assume "tables_wf t"
  then have "distinct (map e_pk (sort_key f (filter P (entries t))))" for f :: "entry_row \<Rightarrow> int \<times> string \<times> string" and P
    by (simp add: tables_wf_def distinct_map inj_on_def)
  then show ?thesis by (simp add: prune_batch_def sql_limit_def take_map [symmetric])
qed

text \<open>The count of the delete is the size of the batch.\<close>

lemma count_delete_batch:
  assumes "tables_wf t"
  shows "fst (exec_delete (\<lambda>k. k \<in> set (prune_batch now limit t)) t) = length (prune_batch now limit t)"
proof -
  let ?B = "prune_batch now limit t"
  have d: "distinct (map e_pk (entries t))" using assms by (simp add: tables_wf_def)
  have "fst (exec_delete (\<lambda>k. k \<in> set ?B) t) = length (map e_pk (filter (\<lambda>r. e_pk r \<in> set ?B) (entries t)))"
    by (simp add: exec_delete_def)
  also have "\<dots> = card (set (map e_pk (filter (\<lambda>r. e_pk r \<in> set ?B) (entries t))))"
    using d by (simp only: distinct_card distinct_map_filter)
  also have "set (map e_pk (filter (\<lambda>r. e_pk r \<in> set ?B) (entries t))) = set ?B"
    using prune_batch_expired [of _ now limit t] by (simp add: set_eq_iff image_iff) metis
  finally show ?thesis by (simp add: distinct_card distinct_prune_batch assms)
qed

end
