(* ===== verification/Sql_Glob.thy ===== *)
theory Sql_Glob
  imports Rust_Std
begin

section \<open>Prefix listing: the GLOB pattern of a key prefix\<close>

text \<open>
  \<open>glob_prefix_pattern\<close> of \<open>sql.rs\<close>, and the SQL operator it is written for: \<open>sql_glob\<close>
  follows sqlite's GLOB on UTF-8 text (\<open>*\<close>, \<open>?\<close>, sets with ranges and \<open>^\<close>; the text ends at a
  NUL). The theorem is that the pattern matches the keys with that prefix and no others.
\<close>

subsection \<open>The operator\<close>

definition c_str :: "string \<Rightarrow> string" where
  "c_str s = takeWhile (\<lambda>c. c \<noteq> CHR 0x00) s"

text \<open>The first UTF-8 character of a text and the rest.\<close>

definition next_char :: "string \<Rightarrow> string \<times> string" where
  "next_char s = (case s of
      [] \<Rightarrow> ([], [])
    | c # r \<Rightarrow> (if (of_char c :: nat) < 0xC0 then ([c], r)
                else (c # takeWhile cont_byte r, dropWhile cont_byte r)))"

lemma length_next_char: "s \<noteq> [] \<Longrightarrow> length (snd (next_char s)) < length s"
  by (cases s) (auto simp: next_char_def intro: le_imp_less_Suc length_dropWhile_le)

lemma length_next_char_le: "length (snd (next_char s)) \<le> length s"
  using length_next_char [of s] by (cases s) (auto simp: next_char_def)

text \<open>
  The members of a set after its opening: is \<open>c\<close> among them, and what follows the closing
  bracket. \<open>UTF-8\<close> encodings compare like the code points, so a range compares texts.
\<close>

function set_scan :: "string \<Rightarrow> string option \<Rightarrow> bool \<Rightarrow> string \<Rightarrow> (bool \<times> string) option" where
  "set_scan c prior seen p =
     (if p = [] then None
      else let (c2, q) = next_char p in
        if c2 = '']'' then Some (seen, q)
        else if c2 = ''-'' \<and> q \<noteq> [] \<and> hd q \<noteq> CHR '']'' \<and> prior \<noteq> None then
          let (c3, q') = next_char q in
          set_scan c None (seen \<or> (the prior \<le> c \<and> c \<le> c3)) q'
        else set_scan c (Some c2) (seen \<or> c = c2) q)"
  by pat_completeness auto
termination
proof (relation "measure (\<lambda>(c, prior, seen, p). length p)", goal_cases)
  case 1
  show ?case by simp
next
  case (2 c prior seen p x c2 q y c3 q')
  then show ?case
    using length_next_char [of p] length_next_char_le [of q] by (simp add: prod_eq_iff)
next
  case (3 c prior seen p x c2 q)
  then show ?case using length_next_char [of p] by (simp add: prod_eq_iff)
qed

declare set_scan.simps [simp del]

definition glob_set :: "string \<Rightarrow> string \<Rightarrow> (bool \<times> string) option" where
  "glob_set c p =
     (let (invert, p1) = (if p \<noteq> [] \<and> hd p = CHR ''^'' then (True, tl p) else (False, p));
          (seen, p2) = (if p1 \<noteq> [] \<and> hd p1 = CHR '']'' then (c = '']'', tl p1) else (False, p1))
      in map_option (\<lambda>(s, q). (s \<noteq> invert, q)) (set_scan c None seen p2))"

lemma set_scan_length: "set_scan c prior seen p = Some (s, q) \<Longrightarrow> length q < length p"
proof (induction c prior seen p rule: set_scan.induct)
  case (1 c prior seen p)
  obtain c2 r where r: "next_char p = (c2, r)" by fastforce
  obtain c3 r' where r': "next_char r = (c3, r')" by fastforce
  have p: "p \<noteq> []" using "1.prems" by (auto simp: set_scan.simps)
  have "length r < length p" using length_next_char [OF p] r by simp
  moreover have "length r' \<le> length r" using length_next_char_le [of r] r' by simp
  ultimately show ?case
    using "1.prems" "1.IH"(1) [OF p r [symmetric] refl _ _ r' [symmetric] refl]
      "1.IH"(2) [OF p r [symmetric] refl]
    by (subst (asm) set_scan.simps) (fastforce simp: r r' Let_def split: if_splits)
qed

lemma glob_set_length: "glob_set c p = Some (m, q) \<Longrightarrow> length q < length p"
  by (cases p; cases "tl p")
    (auto simp: glob_set_def Let_def split: if_splits prod.splits dest!: set_scan_length)

function glob :: "string \<Rightarrow> string \<Rightarrow> bool" where
  "glob [] s = (s = [])"
| "glob (c # p) s =
     (if c = CHR ''*'' then glob p s \<or> (if s = [] then False else glob (c # p) (snd (next_char s)))
      else if s = [] then False
      else if c = CHR ''?'' then glob p (snd (next_char s))
      else if c = CHR ''['' then
        (case glob_set (fst (next_char s)) p of
           None \<Rightarrow> False
         | Some (m, q) \<Rightarrow> m \<and> glob q (snd (next_char s)))
      else hd s = c \<and> glob p (tl s))"
  by pat_completeness auto
termination
proof (relation "measure (\<lambda>(p, s). length p + length s)", goal_cases)
  case (5 c p s a m q)
  then show ?case using length_next_char [of s] glob_set_length [of "fst (next_char s)" p m q] by auto
qed (auto simp: length_next_char length_next_char_le less_Suc_eq_le Suc_le_eq)

declare glob.simps(2) [simp del]

text \<open>\<open>key GLOB pattern\<close>.\<close>

definition sql_glob :: "string \<Rightarrow> string \<Rightarrow> bool" where
  "sql_glob pattern text = glob (c_str pattern) (c_str text)"

subsection \<open>The pattern of a prefix\<close>

fun glob_chars :: "string \<Rightarrow> string" where
  "glob_chars [] = []"
| "glob_chars (c # s) =
     (if c \<in> {CHR ''*'', CHR ''?'', CHR ''[''} then CHR ''['' # c # CHR '']'' # glob_chars s
      else c # glob_chars s)"

definition glob_prefix_pattern :: "string \<Rightarrow> string" where
  "glob_prefix_pattern pre = glob_chars pre @ ''*''"

subsection \<open>It matches exactly the prefix\<close>

lemma glob_star: "glob ''*'' s"
proof (induction s rule: length_induct)
  case (1 s)
  show ?case
  proof (cases "s = []")
    case False
    with 1 length_next_char [OF False] have "glob ''*'' (snd (next_char s))" by blast
    with False show ?thesis by (subst glob.simps(2)) simp
  qed (subst glob.simps(2), simp)
qed

text \<open>A literal, and a metacharacter in a set of its own, match that character only.\<close>

lemma glob_literal:
  "c \<notin> {CHR ''*'', CHR ''?'', CHR ''[''} \<Longrightarrow> glob (c # p) s \<longleftrightarrow> (\<exists>t. s = c # t \<and> glob p t)"
  by (cases s) (auto simp: glob.simps(2))

lemma set_scan_single:
  assumes "(of_char c :: nat) < 0xC0" "c \<noteq> CHR '']''"
  shows "set_scan d None False (c # CHR '']'' # p) = Some (d = [c], p)"
  using assms by (simp add: set_scan.simps [of d _ _ "c # CHR '']'' # p"]
      set_scan.simps [of d _ _ "CHR '']'' # p"] next_char_def)

lemma glob_class:
  assumes "c \<in> {CHR ''*'', CHR ''?'', CHR ''[''}"
  shows "glob (CHR ''['' # c # CHR '']'' # p) s \<longleftrightarrow> (\<exists>t. s = c # t \<and> glob p t)"
proof (cases s)
  case Nil
  then show ?thesis by (simp add: glob.simps(2))
next
  case (Cons a t)
  have "glob_set d (c # CHR '']'' # p) = Some (d = [c], p)" for d
    using assms by (auto simp: glob_set_def set_scan_single)
  moreover have "fst (next_char (a # t)) = [c] \<longleftrightarrow> a = c" "a = c \<Longrightarrow> snd (next_char (a # t)) = t"
    using assms by (auto simp: next_char_def)
  ultimately show ?thesis using Cons by (auto simp: glob.simps(2))
qed

lemma glob_glob_chars: "glob (glob_chars s @ ''*'') t \<longleftrightarrow> prefix s t"
proof (induction s arbitrary: t)
  case Nil
  then show ?case by (simp add: glob_star)
next
  case (Cons c s)
  have "glob (glob_chars (c # s) @ ''*'') t \<longleftrightarrow> (\<exists>u. t = c # u \<and> glob (glob_chars s @ ''*'') u)"
    by (simp add: glob_literal glob_class del: insert_iff)
  then show ?case by (auto simp: Cons.IH prefix_def)
qed

lemma c_str_no_nul: "CHR 0x00 \<notin> set s \<Longrightarrow> c_str s = s"
  by (auto simp: c_str_def takeWhile_eq_all_conv)

lemma no_nul_glob_chars: "CHR 0x00 \<notin> set s \<Longrightarrow> CHR 0x00 \<notin> set (glob_chars s @ ''*'')"
  by (induction s) auto

lemma prefix_c_str: "CHR 0x00 \<notin> set p \<Longrightarrow> prefix p (c_str s) \<longleftrightarrow> prefix p s"
proof (induction p arbitrary: s)
  case (Cons c p)
  then show ?case by (cases s) (auto simp: c_str_def)
qed simp

lemma sql_glob_prefix:
  "CHR 0x00 \<notin> set p \<Longrightarrow> sql_glob (glob_prefix_pattern p) s \<longleftrightarrow> prefix p s"
proof -
  assume nul: "CHR 0x00 \<notin> set p"
  show ?thesis
    unfolding sql_glob_def glob_prefix_pattern_def
    by (simp only: c_str_no_nul [OF no_nul_glob_chars [OF nul]] glob_glob_chars prefix_c_str [OF nul])
qed

subsection \<open>Properties\<close>

text \<open>
  C29. The pattern built for a key prefix selects by prefix and nothing else: for every prefix with
  no NUL byte (wildcards, brackets and multi-byte characters included) and every key, sqlite's
  \<open>GLOB\<close> matches exactly the keys that start with it.
\<close>

theorem glob_pattern_is_prefix:
  assumes "CHR 0x00 \<notin> set pre"
  shows "sql_glob (glob_prefix_pattern pre) key \<longleftrightarrow> prefix pre key"
  using sql_glob_prefix [OF assms] .

theorem glob_pattern_is_prefix_witness:
  "sql_glob (glob_prefix_pattern ''a[*'') ''a[*b'' \<and> \<not> sql_glob (glob_prefix_pattern ''a[*'') ''axb''"
  using glob_pattern_is_prefix [of "''a[*''" "''a[*b''"] glob_pattern_is_prefix [of "''a[*''" "''axb''"]
  by simp

end
