(* ===== verification/Sql.thy ===== *)
theory Sql
  imports Sql_Tables Sql_Glob
begin

section \<open>The sqlite connection: transactions and queries\<close>

text \<open>
  The methods of \<open>Sql\<close> in \<open>rs/v-m-io-db/src/sql.rs\<close>. A method runs on the committed tables; a
  transaction works on its own copy, which replaces the tables at the commit only. The engine
  itself may fail at any call (a busy lock, an io error): the plan of a call says at which
  point, and every \<open>?\<close> of the source is a point. The connection mutex makes each writing method
  one step.
\<close>

datatype sql_point = AtBegin | AtPrepare | AtQuery | AtRow | AtExecute | AtCommit

type_synonym sql_plan = "sql_point \<Rightarrow> string option"

definition sql_ok :: sql_plan where
  "sql_ok = (\<lambda>_. None)"

lemma sql_ok_simp [simp]: "sql_ok p = None"
  by (simp add: sql_ok_def)

definition fail_at :: "sql_plan \<Rightarrow> sql_point \<Rightarrow> unit res" where
  "fail_at pl p = (case pl p of None \<Rightarrow> Inr () | Some m \<Rightarrow> Inl (io_other m))"

lemma fail_at_simps [simp]:
  "pl p = None \<Longrightarrow> fail_at pl p = Inr ()"
  "pl p = Some m \<Longrightarrow> fail_at pl p = Inl (io_other m)"
  by (simp_all add: fail_at_def)

lemma fail_at_Inr [simp]: "fail_at pl p = Inr u \<longleftrightarrow> pl p = None"
  by (simp add: fail_at_def split: option.split)

definition of_sql :: "sql_error + 'a \<Rightarrow> 'a res" where
  "of_sql r = (case r of Inl e \<Rightarrow> Inl (io_of_sql e) | Inr x \<Rightarrow> Inr x)"

lemma of_sql_simps [simp]: "of_sql (Inl e) = Inl (io_of_sql e)" "of_sql (Inr x) = Inr x"
  by (simp_all add: of_sql_def)

lemma of_sql_Inr [simp]: "of_sql r = Inr x \<longleftrightarrow> r = Inr x"
  by (cases r) simp_all

text \<open>A failed transaction is rolled back: the tables stay as they were.\<close>

definition run_tx :: "('a \<times> tables) res \<Rightarrow> tables \<Rightarrow> 'a res \<times> tables" where
  "run_tx body t = (case body of Inl e \<Rightarrow> (Inl e, t) | Inr (x, t') \<Rightarrow> (Inr x, t'))"

lemma run_tx_simps [simp]: "run_tx (Inl e) t = (Inl e, t)" "run_tx (Inr (x, t')) t = (Inr x, t')"
  by (simp_all add: run_tx_def)

lemma run_tx_Inr: "run_tx body t = (Inr x, t') \<longleftrightarrow> body = Inr (x, t')"
  by (auto simp: run_tx_def split: sum.split)

lemma run_tx_Inl: "run_tx body t = (Inl e, t') \<longleftrightarrow> body = Inl e \<and> t' = t"
  by (auto simp: run_tx_def split: sum.split)

subsection \<open>Writing\<close>

text \<open>\<open>upsert\<close>: one statement, committed on its own.\<close>

definition sql_upsert ::
  "sql_plan \<Rightarrow> string \<Rightarrow> string \<Rightarrow> int \<Rightarrow> int option \<Rightarrow> bytes option \<Rightarrow> tables \<Rightarrow> bool res \<times> tables" where
  "sql_upsert pl class key modified expires metadata t =
     run_tx
       (and_then (fail_at pl AtExecute) (\<lambda>_.
        and_then (of_sql (exec_upsert \<lparr>e_class = class, e_key = key, e_modified = modified,
                             e_expires = expires, e_metadata = metadata\<rparr> t)) (\<lambda>(changed, t').
        Inr (changed > 0, t')))) t"

text \<open>\<open>upsert_chunk\<close>: the blob id of the row it replaces, if that is another blob.\<close>

definition sql_upsert_chunk :: "sql_plan \<Rightarrow> chunk_row \<Rightarrow> tables \<Rightarrow> bytes option res \<times> tables" where
  "sql_upsert_chunk pl row t =
     run_tx
       (and_then (fail_at pl AtBegin) (\<lambda>_.
        and_then (fail_at pl AtQuery) (\<lambda>_.
        let prev = map_option c_blob_id (q_chunk (c_pk row) t) in
        and_then (fail_at pl AtExecute) (\<lambda>_.
        and_then (of_sql (exec_upsert_chunk row t)) (\<lambda>t'.
        and_then (fail_at pl AtCommit) (\<lambda>_.
        Inr ((case prev of Some p \<Rightarrow> if p \<noteq> c_blob_id row then Some p else None | None \<Rightarrow> None),
          t'))))))) t"

text \<open>\<open>rm\<close>: the blob ids of the entry's chunks, then the entry; its chunk rows follow.\<close>

definition sql_rm :: "sql_plan \<Rightarrow> string \<Rightarrow> string \<Rightarrow> tables \<Rightarrow> (bytes list) res \<times> tables" where
  "sql_rm pl class key t =
     run_tx
       (and_then (fail_at pl AtBegin) (\<lambda>_.
        and_then (fail_at pl AtPrepare) (\<lambda>_.
        and_then (fail_at pl AtQuery) (\<lambda>_.
        and_then (fail_at pl AtRow) (\<lambda>_.
        let out = q_blob_ids (\<lambda>k. k = (class, key)) t in
        and_then (fail_at pl AtExecute) (\<lambda>_.
        let t' = snd (exec_delete (\<lambda>k. k = (class, key)) t) in
        and_then (fail_at pl AtCommit) (\<lambda>_. Inr (out, t')))))))) t"

text \<open>\<open>prune_expired\<close>: both statements select the same batch.\<close>

definition sql_prune_expired :: "sql_plan \<Rightarrow> int \<Rightarrow> int \<Rightarrow> tables \<Rightarrow> (nat \<times> bytes list) res \<times> tables" where
  "sql_prune_expired pl now limit t =
     run_tx
       (and_then (fail_at pl AtBegin) (\<lambda>_.
        and_then (fail_at pl AtPrepare) (\<lambda>_.
        and_then (fail_at pl AtQuery) (\<lambda>_.
        and_then (fail_at pl AtRow) (\<lambda>_.
        let blob_ids = q_blob_ids (\<lambda>k. k \<in> set (prune_batch now limit t)) t in
        and_then (fail_at pl AtExecute) (\<lambda>_.
        let (count, t') = exec_delete (\<lambda>k. k \<in> set (prune_batch now limit t)) t in
        and_then (fail_at pl AtCommit) (\<lambda>_. Inr ((count, blob_ids), t')))))))) t"

subsection \<open>Reading\<close>

definition sql_blob_id_exists :: "sql_plan \<Rightarrow> bytes \<Rightarrow> tables \<Rightarrow> bool res" where
  "sql_blob_id_exists pl blob_id t =
     and_then (fail_at pl AtQuery) (\<lambda>_. Inr (q_blob_id_exists blob_id t))"

record db_entry =
  d_class :: string
  d_key :: string
  d_modified_at_micros :: int
  d_expires_at_micros :: "int option"
  d_metadata :: "bytes option"
  d_chunk_count :: int

definition db_entry_of :: "tables \<Rightarrow> string \<Rightarrow> entry_row \<Rightarrow> db_entry" where
  "db_entry_of t class r = \<lparr>d_class = class, d_key = e_key r, d_modified_at_micros = e_modified r,
     d_expires_at_micros = e_expires r, d_metadata = e_metadata r,
     d_chunk_count = q_chunk_count (e_pk r) t\<rparr>"

definition sql_get :: "sql_plan \<Rightarrow> string \<Rightarrow> string \<Rightarrow> tables \<Rightarrow> (db_entry option) res" where
  "sql_get pl class key t =
     and_then (fail_at pl AtBegin) (\<lambda>_.
     and_then (fail_at pl AtQuery) (\<lambda>_.
     Inr (map_option (db_entry_of t class) (q_entry (class, key) t))))"

record chunk =
  k_hash :: bytes
  k_tag :: bytes
  k_size :: int
  k_is_final :: bool

definition sql_get_chunk :: "sql_plan \<Rightarrow> string \<Rightarrow> string \<Rightarrow> int \<Rightarrow> tables \<Rightarrow> (chunk option) res" where
  "sql_get_chunk pl class key idx t =
     and_then (fail_at pl AtBegin) (\<lambda>_.
     and_then (fail_at pl AtQuery) (\<lambda>_.
     Inr (map_option (\<lambda>r. \<lparr>k_hash = c_hash r, k_tag = c_tag r, k_size = c_size r,
                            k_is_final = c_is_final r\<rparr>) (q_chunk (class, key, idx) t))))"

subsection \<open>Listing: the query that the code builds\<close>

datatype list_filter =
    FilterAll
  | KeyPrefix string
  | ModifiedAtMicrosRange "int bound" "int bound"

datatype list_sort = KeyAsc | KeyDesc | ModifiedAtMicrosAsc | ModifiedAtMicrosDesc

text \<open>
  \<open>list\<close> appends to an SQL text and to a list of parameters; a placeholder \<open>?n\<close> is the length
  of the list when it is written. The model keeps both, with the conditions as data in place of
  the text: a placeholder is a number, and a condition is evaluated with the parameter it names
  (a comparison with an unbound parameter is not true).
\<close>

datatype sql_value = VText string | VInt int

datatype cmp = Ge | Gt | Le | Lt

datatype sql_cond =
    CondClass nat
  | CondKeyGlob nat
  | CondModified cmp nat

datatype sql_order = OrderClassKeyAsc | OrderClassKeyDesc | OrderModifiedAsc | OrderModifiedDesc

record list_query =
  lq_conds :: "sql_cond list"
  lq_order :: sql_order
  lq_limit :: nat
  lq_params :: "sql_value list"

text \<open>One end of a range: push the parameter, then the comparison with its placeholder.\<close>

definition push_start :: "int bound \<Rightarrow> sql_cond list \<times> sql_value list \<Rightarrow> sql_cond list \<times> sql_value list" where
  "push_start b q = (let (conds, params) = q in
     case b of
       Unbounded \<Rightarrow> (let ps = params @ [VInt 0] in (conds @ [CondModified Ge (length ps)], ps))
     | Included t \<Rightarrow> (let ps = params @ [VInt t] in (conds @ [CondModified Ge (length ps)], ps))
     | Excluded t \<Rightarrow> (let ps = params @ [VInt t] in (conds @ [CondModified Gt (length ps)], ps)))"

definition push_end :: "int bound \<Rightarrow> sql_cond list \<times> sql_value list \<Rightarrow> sql_cond list \<times> sql_value list" where
  "push_end b q = (let (conds, params) = q in
     case b of
       Unbounded \<Rightarrow> (let ps = params @ [VInt 9223372036854775807] in
         (conds @ [CondModified Le (length ps)], ps))
     | Included t \<Rightarrow> (let ps = params @ [VInt t] in (conds @ [CondModified Le (length ps)], ps))
     | Excluded t \<Rightarrow> (let ps = params @ [VInt t] in (conds @ [CondModified Lt (length ps)], ps)))"

fun push_filter :: "list_filter \<Rightarrow> sql_cond list \<times> sql_value list \<Rightarrow> sql_cond list \<times> sql_value list" where
  "push_filter FilterAll q = q"
| "push_filter (KeyPrefix pre) q = (let (conds, params) = q;
     ps = params @ [VText (glob_prefix_pattern pre)] in (conds @ [CondKeyGlob (length ps)], ps))"
| "push_filter (ModifiedAtMicrosRange s e) q = push_end e (push_start s q)"

fun list_order :: "list_sort \<Rightarrow> sql_order" where
  "list_order KeyAsc = OrderClassKeyAsc"
| "list_order KeyDesc = OrderClassKeyDesc"
| "list_order ModifiedAtMicrosAsc = OrderModifiedAsc"
| "list_order ModifiedAtMicrosDesc = OrderModifiedDesc"

definition build_list_query :: "string \<Rightarrow> list_filter \<Rightarrow> list_sort \<Rightarrow> int \<Rightarrow> list_query" where
  "build_list_query class flt srt limit =
     (let (conds, params) = push_filter flt ([CondClass 1], [VText class]);
          params' = params @ [VInt limit]
      in \<lparr>lq_conds = conds, lq_order = list_order srt, lq_limit = length params',
          lq_params = params'\<rparr>)"

text \<open>The evaluation of a query.\<close>

definition bound_param :: "sql_value list \<Rightarrow> nat \<Rightarrow> sql_value option" where
  "bound_param params n = (if 0 < n \<and> n \<le> length params then Some (params ! (n - 1)) else None)"

fun eval_cmp :: "cmp \<Rightarrow> int \<Rightarrow> int \<Rightarrow> bool" where
  "eval_cmp Ge a b = (b \<le> a)"
| "eval_cmp Gt a b = (b < a)"
| "eval_cmp Le a b = (a \<le> b)"
| "eval_cmp Lt a b = (a < b)"

fun eval_cond :: "sql_value list \<Rightarrow> entry_row \<Rightarrow> sql_cond \<Rightarrow> bool" where
  "eval_cond ps r (CondClass n) = (bound_param ps n = Some (VText (e_class r)))"
| "eval_cond ps r (CondKeyGlob n) =
     (case bound_param ps n of Some (VText p) \<Rightarrow> sql_glob p (e_key r) | _ \<Rightarrow> False)"
| "eval_cond ps r (CondModified c n) =
     (case bound_param ps n of Some (VInt x) \<Rightarrow> eval_cmp c (e_modified r) x | _ \<Rightarrow> False)"

fun order_rows :: "sql_order \<Rightarrow> entry_row list \<Rightarrow> entry_row list" where
  "order_rows OrderClassKeyAsc rows = sort_key e_pk rows"
| "order_rows OrderClassKeyDesc rows = rev (sort_key e_pk rows)"
| "order_rows OrderModifiedAsc rows = sort_key e_modified rows"
| "order_rows OrderModifiedDesc rows = rev (sort_key e_modified rows)"

definition run_list_query :: "list_query \<Rightarrow> tables \<Rightarrow> entry_row list" where
  "run_list_query q t =
     (let rows = order_rows (lq_order q)
        (filter (\<lambda>r. list_all (eval_cond (lq_params q) r) (lq_conds q)) (entries t)) in
      case bound_param (lq_params q) (lq_limit q) of
        Some (VInt n) \<Rightarrow> sql_limit n rows
      | _ \<Rightarrow> rows)"

definition sql_list ::
  "sql_plan \<Rightarrow> string \<Rightarrow> list_filter \<Rightarrow> list_sort \<Rightarrow> int \<Rightarrow> tables \<Rightarrow> (db_entry list) res" where
  "sql_list pl class flt srt limit t =
     and_then (fail_at pl AtBegin) (\<lambda>_.
     and_then (fail_at pl AtPrepare) (\<lambda>_.
     and_then (fail_at pl AtQuery) (\<lambda>_.
     and_then (fail_at pl AtRow) (\<lambda>_.
     Inr (map (db_entry_of t class) (run_list_query (build_list_query class flt srt limit) t))))))"

end
