(* ===== verification/Sql_Facts.thy ===== *)
theory Sql_Facts
  imports Sql
begin

section \<open>What the sqlite methods do\<close>

text \<open>
  The result and the new tables of every method of \<open>Sql\<close>, the schema invariant through each of
  them, and the listing query against its specification.
\<close>

subsection \<open>Successful calls\<close>

lemma sql_upsert_Inr:
  "sql_upsert pl class key m x md t = (Inr b, t') \<longleftrightarrow>
     pl AtExecute = None \<and>
     (\<exists>n. exec_upsert \<lparr>e_class = class, e_key = key, e_modified = m, e_expires = x, e_metadata = md\<rparr> t
        = Inr (n, t') \<and> b = (0 < n))"
  by (auto simp: sql_upsert_def run_tx_Inr and_then_eq_Inr)

lemma sql_upsert_chunk_Inr:
  "sql_upsert_chunk pl row t = (Inr prev, t') \<longleftrightarrow>
     pl AtBegin = None \<and> pl AtQuery = None \<and> pl AtExecute = None \<and> pl AtCommit = None \<and>
     exec_upsert_chunk row t = Inr t' \<and>
     prev = (case q_chunk (c_pk row) t of
        Some old \<Rightarrow> if c_blob_id old \<noteq> c_blob_id row then Some (c_blob_id old) else None
      | None \<Rightarrow> None)"
  by (cases "q_chunk (c_pk row) t")
    (auto simp: sql_upsert_chunk_def run_tx_Inr and_then_eq_Inr Let_def)

lemma sql_rm_Inr:
  "sql_rm pl class key t = (Inr out, t') \<Longrightarrow>
   out = q_blob_ids (\<lambda>k. k = (class, key)) t \<and> t' = snd (exec_delete (\<lambda>k. k = (class, key)) t)"
  by (auto simp: sql_rm_def run_tx_Inr and_then_eq_Inr Let_def)

lemma sql_prune_expired_Inr:
  "sql_prune_expired pl now limit t = (Inr (n, out), t') \<Longrightarrow>
   out = q_blob_ids (\<lambda>k. k \<in> set (prune_batch now limit t)) t \<and>
   (n, t') = exec_delete (\<lambda>k. k \<in> set (prune_batch now limit t)) t"
  by (auto simp: sql_prune_expired_def run_tx_Inr and_then_eq_Inr Let_def split: prod.splits)

lemma sql_get_Inr:
  "sql_get pl class key t = Inr r \<Longrightarrow> r = map_option (db_entry_of t class) (q_entry (class, key) t)"
  by (auto simp: sql_get_def and_then_eq_Inr)

lemma sql_list_Inr:
  "sql_list pl class flt srt limit t = Inr out \<Longrightarrow>
   out = map (db_entry_of t class) (run_list_query (build_list_query class flt srt limit) t)"
  by (auto simp: sql_list_def and_then_eq_Inr)

text \<open>Without engine faults only the constraints can fail.\<close>

lemma sql_ok_results:
  "sql_rm sql_ok class key t =
     (Inr (q_blob_ids (\<lambda>k. k = (class, key)) t), snd (exec_delete (\<lambda>k. k = (class, key)) t))"
  "sql_get sql_ok class key t = Inr (map_option (db_entry_of t class) (q_entry (class, key) t))"
  "sql_blob_id_exists sql_ok i t = Inr (q_blob_id_exists i t)"
  by (simp_all add: sql_rm_def sql_get_def sql_blob_id_exists_def Let_def)

lemma sql_prune_expired_ok:
  "sql_prune_expired sql_ok now limit t =
     (Inr (fst (exec_delete (\<lambda>k. k \<in> set (prune_batch now limit t)) t),
           q_blob_ids (\<lambda>k. k \<in> set (prune_batch now limit t)) t),
      snd (exec_delete (\<lambda>k. k \<in> set (prune_batch now limit t)) t))"
  by (simp add: sql_prune_expired_def Let_def split: prod.split)

subsection \<open>Failed calls change nothing, successful ones keep the schema\<close>

lemmas sql_writing_defs =
  sql_upsert_def sql_upsert_chunk_def sql_rm_def sql_prune_expired_def

lemma sql_error_unchanged:
  "sql_upsert pl class key m x md t = (Inl e, t') \<Longrightarrow> t' = t"
  "sql_upsert_chunk pl row t = (Inl e, t') \<Longrightarrow> t' = t"
  "sql_rm pl class key t = (Inl e, t') \<Longrightarrow> t' = t"
  "sql_prune_expired pl now limit t = (Inl e, t') \<Longrightarrow> t' = t"
  by (simp_all add: sql_writing_defs run_tx_Inl)

lemma run_tx_preserves:
  "P t \<Longrightarrow> (\<And>x t'. body = Inr (x, t') \<Longrightarrow> P t') \<Longrightarrow> P (snd (run_tx body t))"
  by (auto simp: run_tx_def split: sum.split)

lemma tables_wf_sql_upsert: "tables_wf t \<Longrightarrow> tables_wf (snd (sql_upsert pl class key m x md t))"
  unfolding sql_upsert_def
  by (rule run_tx_preserves) (auto simp: and_then_eq_Inr intro: tables_wf_upsert)

lemma tables_wf_sql_upsert_chunk: "tables_wf t \<Longrightarrow> tables_wf (snd (sql_upsert_chunk pl row t))"
  unfolding sql_upsert_chunk_def
  by (rule run_tx_preserves) (auto simp: and_then_eq_Inr Let_def intro: tables_wf_upsert_chunk)

lemma tables_wf_sql_rm: "tables_wf t \<Longrightarrow> tables_wf (snd (sql_rm pl class key t))"
  unfolding sql_rm_def
  by (rule run_tx_preserves) (auto simp: and_then_eq_Inr Let_def tables_wf_delete)

lemma tables_wf_sql_prune: "tables_wf t \<Longrightarrow> tables_wf (snd (sql_prune_expired pl now limit t))"
  unfolding sql_prune_expired_def
  by (rule run_tx_preserves)
    (auto simp: and_then_eq_Inr Let_def split: prod.splits dest: tables_wf_exec_delete)

lemmas tables_wf_sql =
  tables_wf_sql_upsert tables_wf_sql_upsert_chunk tables_wf_sql_rm tables_wf_sql_prune

subsection \<open>The listing\<close>

text \<open>
  The specification: which rows a filter selects, and the order of a listing. A missing bound is no bound.
  The query of the code has a number there, 0 at the start and the largest \<open>i64\<close> at the end: \<open>passes\<close> says
  which rows get through, so what the first of them hides shows in the properties.
\<close>

fun above :: "int bound \<Rightarrow> int \<Rightarrow> bool" where
  "above Unbounded m = True"
| "above (Included t) m = (t \<le> m)"
| "above (Excluded t) m = (t < m)"

fun below :: "int bound \<Rightarrow> int \<Rightarrow> bool" where
  "below Unbounded m = True"
| "below (Included t) m = (m \<le> t)"
| "below (Excluded t) m = (m < t)"

fun selects :: "list_filter \<Rightarrow> entry_row \<Rightarrow> bool" where
  "selects FilterAll r = True"
| "selects (KeyPrefix p) r = prefix p (e_key r)"
| "selects (ModifiedAtMicrosRange s e) r = (above s (e_modified r) \<and> below e (e_modified r))"

fun passes :: "list_filter \<Rightarrow> entry_row \<Rightarrow> bool" where
  "passes (ModifiedAtMicrosRange s e) r = ((s = Unbounded \<longrightarrow> 0 \<le> e_modified r) \<and> (e = Unbounded \<longrightarrow> e_modified r \<le> i64_max))"
| "passes f r = True"

fun precedes :: "list_sort \<Rightarrow> entry_row \<Rightarrow> entry_row \<Rightarrow> bool" where
  "precedes KeyAsc a b = (e_key a < e_key b)"
| "precedes KeyDesc a b = (e_key b < e_key a)"
| "precedes ModifiedAtMicrosAsc a b = (e_modified a < e_modified b)"
| "precedes ModifiedAtMicrosDesc a b = (e_modified b < e_modified a)"

definition filter_ok :: "list_filter \<Rightarrow> bool" where
  "filter_ok f = (case f of KeyPrefix p \<Rightarrow> CHR 0x00 \<notin> set p | _ \<Rightarrow> True)"

definition selected :: "string \<Rightarrow> list_filter \<Rightarrow> tables \<Rightarrow> entry_row list" where
  "selected class f t = filter (\<lambda>r. e_class r = class \<and> selects f r \<and> passes f r) (entries t)"

lemma bound_param_append:
  "bound_param (ps @ qs) n =
     (if n \<le> length ps then bound_param ps n else bound_param qs (n - length ps))"
  by (auto simp: bound_param_def nth_append)

lemma bound_param_single [simp]: "bound_param [v] n = (if n = 1 then Some v else None)"
  by (auto simp: bound_param_def)

text \<open>Every placeholder names the parameter that was pushed for it.\<close>

lemma eval_conds_eq:
  fixes cls srt limit
  assumes "filter_ok f"
  defines "q \<equiv> build_list_query cls f srt limit"
  shows "list_all (eval_cond (lq_params q) r) (lq_conds q) \<longleftrightarrow> e_class r = cls \<and> selects f r \<and> passes f r"
proof (cases f)
  case (ModifiedAtMicrosRange s e)
  then show ?thesis unfolding q_def
    by (cases s; cases e)
      (auto simp: build_list_query_def push_start_def push_end_def Let_def bound_param_def i64_max_def)
qed (use assms in \<open>auto simp: build_list_query_def Let_def bound_param_def filter_ok_def sql_glob_prefix\<close>)

lemma limit_param_eq:
  "bound_param (lq_params (build_list_query class f srt limit))
     (lq_limit (build_list_query class f srt limit)) = Some (VInt limit)"
  by (simp add: build_list_query_def Let_def bound_param_def split: prod.split)

lemma order_build [simp]: "lq_order (build_list_query class f srt limit) = list_order srt"
  by (simp add: build_list_query_def Let_def split: prod.split)

lemma run_list_query_eq:
  assumes "filter_ok f"
  shows "run_list_query (build_list_query class f srt limit) t =
    sql_limit limit (order_rows (list_order srt) (selected class f t))"
  by (simp add: run_list_query_def limit_param_eq eval_conds_eq [OF assms] selected_def)

lemma set_order_rows [simp]: "set (order_rows ord rows) = set rows"
  by (cases ord) auto

lemma filter_order_rows: "filter P (order_rows ord rows) = order_rows ord (filter P rows)"
  by (cases ord) (simp_all add: filter_sort rev_filter [symmetric])

lemma sorted_wrt_less_sort_key:
  fixes f :: "'a \<Rightarrow> 'b::linorder"
  assumes "distinct (map f xs)"
  shows "sorted_wrt (\<lambda>a b. f a < f b) (sort_key f xs)"
proof -
  have "sorted (map f (sort_key f xs))" by simp
  moreover have "distinct (map f (sort_key f xs))"
    using assms by (simp add: distinct_map)
  ultimately have "sorted_wrt (<) (map f (sort_key f xs))" by (simp add: strict_sorted_iff)
  then show ?thesis by (simp add: sorted_wrt_map)
qed

lemma sorted_order_rows:
  assumes "distinct (map e_pk rows)" "distinct (map e_modified rows)"
    and "\<And>r. r \<in> set rows \<Longrightarrow> e_class r = class"
  shows "sorted_wrt (precedes srt) (order_rows (list_order srt) rows)"
proof -
  have "sorted_wrt (\<lambda>a b. e_pk a < e_pk b) (sort_key e_pk rows)"
    by (rule sorted_wrt_less_sort_key [OF assms(1)])
  then have key: "sorted_wrt (\<lambda>a b. e_key a < e_key b) (sort_key e_pk rows)"
    by (rule sorted_wrt_mono_rel [rotated]) (use assms(3) in \<open>auto simp: e_pk_def\<close>)
  have modified: "sorted_wrt (\<lambda>a b. e_modified a < e_modified b) (sort_key e_modified rows)"
    by (rule sorted_wrt_less_sort_key [OF assms(2)])
  have "precedes KeyAsc = (\<lambda>a b. e_key a < e_key b)"
    "precedes ModifiedAtMicrosAsc = (\<lambda>a b. e_modified a < e_modified b)"
    by (simp_all add: fun_eq_iff)
  with key modified show ?thesis by (cases srt) (simp_all add: sorted_wrt_rev)
qed

lemma sorted_selected:
  assumes "tables_wf t"
  shows "sorted_wrt (precedes srt) (order_rows (list_order srt) (selected class f t))"
  using assms
  by (intro sorted_order_rows [of _ "class"])
    (auto simp: tables_wf_def selected_def distinct_map_filter)

lemma set_selected: "set (selected class f t) = {r \<in> set (entries t). e_class r = class \<and> selects f r \<and> passes f r}"
  by (auto simp: selected_def)

text \<open>The elements after position \<open>n\<close> are those above the one before it.\<close>

lemma filter_above_nth:
  fixes f :: "'a \<Rightarrow> 'b::linorder"
  assumes "sorted_wrt (\<lambda>a b. f a < f b) xs" "0 < n" "n \<le> length xs"
  shows "filter (\<lambda>x. f (xs ! (n - 1)) < f x) xs = drop n xs"
proof -
  have lt: "i < j \<Longrightarrow> j < length xs \<Longrightarrow> f (xs ! i) < f (xs ! j)" for i j
    using assms(1) by (simp add: sorted_wrt_iff_nth_less)
  have "\<not> f (xs ! (n - 1)) < f x" if "x \<in> set (take n xs)" for x
  proof -
    obtain i where "i < n" "x = xs ! i" using \<open>x \<in> set (take n xs)\<close> assms(3) by (auto simp: in_set_conv_nth)
    moreover from this have "i = n - 1 \<or> i < n - 1" by linarith
    moreover have "n - 1 < length xs" using assms(2,3) by linarith
    ultimately show ?thesis using lt [of i "n - 1"] by auto
  qed
  moreover have "f (xs ! (n - 1)) < f x" if x: "x \<in> set (drop n xs)" for x
  proof -
    obtain i where "i < length xs - n" "x = xs ! (n + i)"
      using x assms(3) by (auto simp: in_set_conv_nth)
    then show ?thesis using lt [of "n - 1" "n + i"] assms(2) by auto
  qed
  ultimately have "filter (\<lambda>x. f (xs ! (n - 1)) < f x) (take n xs @ drop n xs) = drop n xs"
    by (simp add: filter_id_conv del: append_take_drop_id)
  then show ?thesis by simp
qed

lemma selected_next_page:
  assumes "above s m" "s = Unbounded \<longrightarrow> 0 \<le> m"
  shows "selected class (ModifiedAtMicrosRange (Excluded m) e) t =
    filter (\<lambda>r. m < e_modified r) (selected class (ModifiedAtMicrosRange s e) t)"
proof -
  have "above s (e_modified r) \<and> (s = Unbounded \<longrightarrow> 0 \<le> e_modified r)" if "m < e_modified r" for r
    using assms that by (cases s) auto
  then show ?thesis unfolding selected_def filter_filter by (intro filter_cong) auto
qed

lemma page_rows:
  fixes c e
  assumes "tables_wf t" "above s m \<and> (s = Unbounded \<longrightarrow> 0 \<le> m)" "0 < n"
  defines "rows \<equiv> order_rows OrderModifiedAsc (selected c (ModifiedAtMicrosRange s e) t)"
  assumes "n \<le> length rows" "m = e_modified (rows ! (n - 1))"
  shows "order_rows OrderModifiedAsc (selected c (ModifiedAtMicrosRange (Excluded m) e) t) = drop n rows"
proof -
  have "sorted_wrt (precedes ModifiedAtMicrosAsc) rows"
    unfolding rows_def using sorted_selected [OF assms(1), of ModifiedAtMicrosAsc] by simp
  moreover have "precedes ModifiedAtMicrosAsc = (\<lambda>a b. e_modified a < e_modified b)"
    by (simp add: fun_eq_iff)
  ultimately have "filter (\<lambda>r. m < e_modified r) rows = drop n rows"
    using assms(3,5,6) filter_above_nth [of e_modified rows n] by simp
  then show ?thesis
    by (simp only: rows_def selected_next_page [OF conjunct1 [OF assms(2)] conjunct2 [OF assms(2)]] filter_order_rows)
qed

lemma sql_limit_nat [simp]: "sql_limit (int n) xs = take n xs"
  by (simp add: sql_limit_def)

lemma sql_list_ok:
  "filter_ok f \<Longrightarrow> sql_list sql_ok class f srt limit t =
     Inr (map (db_entry_of t class) (sql_limit limit (order_rows (list_order srt) (selected class f t))))"
  by (simp add: sql_list_def run_list_query_eq)

lemma d_modified_db_entry_of [simp]: "d_modified_at_micros (db_entry_of t c r) = e_modified r"
  by (simp add: db_entry_of_def)

subsection \<open>Properties\<close>

lemma method_atomic:
  assumes "tables_wf (snd f)" "\<And>e t'. f = (Inl e, t') \<Longrightarrow> t' = t"
  shows "\<forall>r t'. f = (r, t') \<longrightarrow> tables_wf t' \<and> (isl r \<longrightarrow> t' = t)"
  using assms by (auto simp: isl_def)

text \<open>
  Every writing method is a transaction that keeps the schema: with any fault of the engine at
  any point, an error leaves the tables untouched, and in each case primary keys and timestamps
  stay unique and every chunk row has its entry.
\<close>

lemma sql_methods_atomic:
  assumes "tables_wf t"
  shows "(\<forall>r t'. sql_upsert pl class key m x md t = (r, t') \<longrightarrow> tables_wf t' \<and> (isl r \<longrightarrow> t' = t)) \<and>
    (\<forall>r t'. sql_upsert_chunk pl row t = (r, t') \<longrightarrow> tables_wf t' \<and> (isl r \<longrightarrow> t' = t)) \<and>
    (\<forall>r t'. sql_rm pl class key t = (r, t') \<longrightarrow> tables_wf t' \<and> (isl r \<longrightarrow> t' = t)) \<and>
    (\<forall>r t'. sql_prune_expired pl now limit t = (r, t') \<longrightarrow> tables_wf t' \<and> (isl r \<longrightarrow> t' = t))"
  using tables_wf_sql [OF assms] sql_error_unchanged by (intro conjI method_atomic) blast+

lemma sql_methods_atomic_witness:
  "tables_wf (snd (sql_upsert sql_ok ''c'' ''k'' 1 None None empty_tables))"
  using sql_methods_atomic [OF tables_wf_empty] by (metis prod.collapse)

text \<open>
  One prune transaction deletes the batch it reports: the count is the number of entries that
  went (at most the limit), all of them had expired, the returned ids are those of exactly the
  chunk rows that the cascade deleted, and a count below the limit means that no expired entry is
  left.
\<close>

lemma prune_transaction_exact:
  assumes "tables_wf t" "0 \<le> limit" "sql_prune_expired pl now limit t = (Inr (n, out), t')"
  shows "\<exists>B. length B = n \<and> distinct B \<and> int n \<le> limit \<and>
    (\<forall>k \<in> set B. \<exists>r. q_entry k t = Some r \<and> expired now r) \<and>
    (\<forall>k. q_entry k t' = (if k \<in> set B then None else q_entry k t)) \<and>
    chunks t' = filter (\<lambda>r. c_parent r \<notin> set B) (chunks t) \<and>
    out = map c_blob_id (filter (\<lambda>r. c_parent r \<in> set B) (chunks t)) \<and>
    (int n < limit \<longrightarrow> (\<forall>k r. q_entry k t' = Some r \<longrightarrow> \<not> expired now r))"
proof (intro exI [of _ "prune_batch now limit t"] conjI allI ballI impI)
  let ?B = "prune_batch now limit t"
  note res = sql_prune_expired_Inr [OF assms(3)]
  have t': "t' = snd (exec_delete (\<lambda>k. k \<in> set ?B) t)" and n: "n = fst (exec_delete (\<lambda>k. k \<in> set ?B) t)"
    using res by (metis snd_conv, metis fst_conv)
  show len: "length ?B = n" using count_delete_batch [OF assms(1)] n by simp
  show "distinct ?B" by (rule distinct_prune_batch [OF assms(1)])
  show "int n \<le> limit" using length_prune_batch [OF assms(2), of now t] len assms(2) by linarith
  show "\<exists>r. q_entry k t = Some r \<and> expired now r" if "k \<in> set ?B" for k
    using prune_batch_expired [OF that] q_entry_Some [OF assms(1)] by blast
  show ent: "q_entry k t' = (if k \<in> set ?B then None else q_entry k t)" for k
    unfolding t' by (rule q_entry_delete)
  show "chunks t' = filter (\<lambda>r. c_parent r \<notin> set ?B) (chunks t)" by (simp add: t' exec_delete_def)
  show "out = map c_blob_id (filter (\<lambda>r. c_parent r \<in> set ?B) (chunks t))"
    using res by (simp add: q_blob_ids_def)
  show "\<not> expired now r" if "int n < limit" "q_entry k t' = Some r" for k r
  proof
    assume e: "expired now r"
    have "q_entry k t = Some r" "k \<notin> set ?B" using that(2) ent [of k] by (auto split: if_splits)
    then have "r \<in> set (entries t)" "e_pk r = k" using q_entry_Some [OF assms(1)] by blast+
    moreover have "length (filter (expired now) (entries t)) \<le> nat limit"
      using length_prune_batch [OF assms(2), of now t] len that(1) by linarith
    ultimately have "k \<in> set ?B" using e by (auto simp: prune_batch_def sql_limit_all)
    with \<open>k \<notin> set ?B\<close> show False ..
  qed
qed

lemma prune_transaction_exact_witness:
  "\<exists>n out t'. sql_prune_expired sql_ok 9 256 empty_tables = (Inr (n, out), t') \<and> int n \<le> 256"
proof -
  obtain n out t' where run: "sql_prune_expired sql_ok 9 256 empty_tables = (Inr (n, out), t')"
    by (metis sql_prune_expired_ok)
  from prune_transaction_exact [OF tables_wf_empty _ run] run show ?thesis by auto
qed

text \<open>
  C24. A listing that succeeds, for a key prefix without NUL, is what the filter and the sort promise with one
  exception: there is a list of rows, strictly ordered by the sort, that holds nothing but entries of the
  class the filter selects, and each of them, except that a range without a start bound leaves out every
  entry with a negative timestamp (a finding); and the result is the first \<open>limit\<close> rows of it (all of them
  for a negative limit), each with its number of chunks. A range without a bound selects without
  one, timestamps are \<open>i64\<close> values. The placeholders of the built query are thereby shown to name the
  parameters pushed for them.
\<close>

theorem list_correct:
  assumes "tables_wf t" "filter_ok f" "sql_list pl class f srt limit t = Inr out"
    and "\<forall>r \<in> set (entries t). is_i64 (e_modified r)"
  shows "\<exists>rows. out = map (db_entry_of t class) (sql_limit limit rows) \<and>
    sorted_wrt (precedes srt) rows \<and>
    set rows = {r \<in> set (entries t). e_class r = class \<and> selects f r} -
      {r. (\<exists>e. f = ModifiedAtMicrosRange Unbounded e) \<and> e_modified r < 0}"
proof (intro exI conjI)
  let ?rows = "order_rows (list_order srt) (selected class f t)"
  show "out = map (db_entry_of t class) (sql_limit limit ?rows)"
    using sql_list_Inr [OF assms(3)] by (simp add: run_list_query_eq [OF assms(2)])
  show "sorted_wrt (precedes srt) ?rows" by (rule sorted_selected [OF assms(1)])
  have "passes f r \<longleftrightarrow> \<not> ((\<exists>e. f = ModifiedAtMicrosRange Unbounded e) \<and> e_modified r < 0)"
    if "r \<in> set (entries t)" for r
  proof (cases f)
    case (ModifiedAtMicrosRange s e)
    have "e_modified r \<le> i64_max" using assms(4) that by (simp add: is_i64_def)
    then show ?thesis unfolding ModifiedAtMicrosRange by (cases s) (simp_all add: not_less)
  qed simp_all
  then show "set ?rows = {r \<in> set (entries t). e_class r = class \<and> selects f r} -
      {r. (\<exists>e. f = ModifiedAtMicrosRange Unbounded e) \<and> e_modified r < 0}"
    unfolding set_order_rows set_selected by blast
qed

definition demo_row :: "string \<Rightarrow> int \<Rightarrow> entry_row" where
  "demo_row key m = \<lparr>e_class = ''c'', e_key = key, e_modified = m, e_expires = None, e_metadata = None\<rparr>"

definition demo_tables :: tables where
  "demo_tables = \<lparr>entries = [demo_row ''b'' 20, demo_row ''a*1'' 10, demo_row ''c'' 30], chunks = []\<rparr>"

lemmas demo_table_defs = demo_tables_def demo_row_def tables_wf_def e_pk_def

theorem list_correct_witness:
  "\<exists>out rows. sql_list sql_ok ''c'' (ModifiedAtMicrosRange Unbounded (Excluded 30)) ModifiedAtMicrosDesc 5
      (demo_tables\<lparr>entries := demo_row ''z'' (-5) # entries demo_tables\<rparr>) = Inr out \<and>
    out = map (db_entry_of (demo_tables\<lparr>entries := demo_row ''z'' (-5) # entries demo_tables\<rparr>) ''c'') (sql_limit 5 rows) \<and>
    sorted_wrt (precedes ModifiedAtMicrosDesc) rows \<and> set rows = {demo_row ''b'' 20, demo_row ''a*1'' 10}"
proof -
  let ?t = "demo_tables\<lparr>entries := demo_row ''z'' (-5) # entries demo_tables\<rparr>"
  let ?f = "ModifiedAtMicrosRange Unbounded (Excluded 30)"
  have "tables_wf ?t" by (simp add: demo_table_defs)
  moreover have ok: "filter_ok ?f" by (simp add: filter_ok_def)
  moreover obtain out where out: "sql_list sql_ok ''c'' ?f ModifiedAtMicrosDesc 5 ?t = Inr out"
    using sql_list_ok [OF ok] by blast
  moreover have "\<forall>r \<in> set (entries ?t). is_i64 (e_modified r)" by (simp add: demo_table_defs i64_defs)
  ultimately obtain rows where rows: "out = map (db_entry_of ?t ''c'') (sql_limit 5 rows)"
    "sorted_wrt (precedes ModifiedAtMicrosDesc) rows"
    "set rows = {r \<in> set (entries ?t). e_class r = ''c'' \<and> selects ?f r} -
      {r. (\<exists>e. ?f = ModifiedAtMicrosRange Unbounded e) \<and> e_modified r < 0}"
    using list_correct [of ?t ?f sql_ok "''c''" ModifiedAtMicrosDesc 5 out] by blast
  have "set rows = {demo_row ''b'' 20, demo_row ''a*1'' 10}"
    unfolding rows(3) by (intro equalityI subsetI) (auto simp: demo_table_defs)
  then show ?thesis using rows(1,2) out by blast
qed

text \<open>
  C30. Paging by timestamp loses and repeats nothing, as the schema asks of the unique timestamps:
  a full first page of \<open>n\<close> entries in timestamp order, then a page that starts after the timestamp
  of its last entry, are together the page of \<open>n + m\<close> entries.
\<close>

theorem list_pages:
  assumes wf: "tables_wf t"
    and p1: "sql_list sql_ok class (ModifiedAtMicrosRange s e) ModifiedAtMicrosAsc (int n) t = Inr page1"
    and full: "length page1 = n" "0 < n"
    and p2: "sql_list sql_ok class
      (ModifiedAtMicrosRange (Excluded (d_modified_at_micros (last page1))) e)
      ModifiedAtMicrosAsc (int m) t = Inr page2"
  shows "sql_list sql_ok class (ModifiedAtMicrosRange s e) ModifiedAtMicrosAsc (int (n + m)) t
    = Inr (page1 @ page2)"
proof -
  let ?rows = "order_rows OrderModifiedAsc (selected class (ModifiedAtMicrosRange s e) t)"
  let ?D = "db_entry_of t class"
  have ok: "filter_ok (ModifiedAtMicrosRange x e)" for x by (simp add: filter_ok_def)
  have page1: "page1 = map ?D (take n ?rows)" using p1 by (simp add: sql_list_ok ok)
  then have len: "n \<le> length ?rows" using full(1) by simp
  then have "last (take n ?rows) = ?rows ! (n - 1)"
    by (rule last_take [OF full(2)])
  then have last1: "d_modified_at_micros (last page1) = e_modified (?rows ! (n - 1))"
  proof -
    have "take n ?rows \<noteq> []" using len full(2) by (metis less_nat_zero_code list.size(3) take_eq_Nil2 not_le)
    then have "last page1 = ?D (last (take n ?rows))" by (simp only: page1 last_map not_False_eq_True)
    then show ?thesis using \<open>last (take n ?rows) = _\<close> by (simp only: d_modified_db_entry_of)
  qed
  have "?rows ! (n - 1) \<in> set ?rows" using len full(2) by (intro nth_mem) simp
  then have "above s (e_modified (?rows ! (n - 1))) \<and> (s = Unbounded \<longrightarrow> 0 \<le> e_modified (?rows ! (n - 1)))"
    by (simp add: set_selected)
  then have "order_rows OrderModifiedAsc (selected class
      (ModifiedAtMicrosRange (Excluded (d_modified_at_micros (last page1))) e) t) = drop n ?rows"
    using page_rows [OF wf _ full(2) len] last1 by simp
  then have "page2 = map ?D (take m (drop n ?rows))" using p2 by (simp add: sql_list_ok ok)
  then show ?thesis using page1 by (simp add: sql_list_ok ok take_add del: of_nat_add)
qed

theorem list_pages_witness:
  "sql_list sql_ok ''c'' (ModifiedAtMicrosRange Unbounded Unbounded) ModifiedAtMicrosAsc (int (2 + 5)) demo_tables
    = Inr (map (db_entry_of demo_tables ''c'') [demo_row ''a*1'' 10, demo_row ''b'' 20] @
           map (db_entry_of demo_tables ''c'') [demo_row ''c'' 30])"
  by (rule list_pages)
    (simp_all add: demo_table_defs sql_list_ok filter_ok_def selected_def i64_max_def db_entry_of_def
      sql_limit_def q_chunk_count_def take_Cons')

text \<open>
  A range with no start bound is not the whole class: the query compares with 0, so an entry
  with a negative timestamp, which the listing without a filter returns, is left out whatever the
  sort and the limit.
\<close>

lemma unbounded_start_hides_negative:
  assumes "tables_wf t" "r \<in> set (entries t)" "e_modified r < 0"
  shows "\<exists>all some. sql_list sql_ok (e_class r) FilterAll srt (-1) t = Inr all \<and>
    db_entry_of t (e_class r) r \<in> set all \<and>
    sql_list sql_ok (e_class r) (ModifiedAtMicrosRange Unbounded Unbounded) srt limit t = Inr some \<and>
    (\<forall>d \<in> set some. d_modified_at_micros d \<noteq> e_modified r)"
proof -
  have "e_modified x \<noteq> e_modified r"
    if "x \<in> set (sql_limit limit (order_rows (list_order srt)
          (selected (e_class r) (ModifiedAtMicrosRange Unbounded Unbounded) t)))" for x
    using that set_sql_limit assms(3) by (fastforce simp: set_selected)
  moreover have "r \<in> set (sql_limit (-1) (order_rows (list_order srt) (selected (e_class r) FilterAll t)))"
    using assms(2) by (simp add: sql_limit_def set_selected)
  ultimately show ?thesis by (auto simp: sql_list_ok filter_ok_def)
qed

lemma unbounded_start_hides_negative_witness:
  "\<exists>all some. sql_list sql_ok ''c'' FilterAll KeyAsc (-1) \<lparr>entries = [demo_row ''k'' (-5)], chunks = []\<rparr> = Inr all \<and>
    all \<noteq> [] \<and>
    sql_list sql_ok ''c'' (ModifiedAtMicrosRange Unbounded Unbounded) KeyAsc (-1)
      \<lparr>entries = [demo_row ''k'' (-5)], chunks = []\<rparr> = Inr some"
proof -
  let ?t = "\<lparr>entries = [demo_row ''k'' (-5)], chunks = []\<rparr>"
  have "tables_wf ?t" by (simp add: demo_table_defs)
  from unbounded_start_hides_negative [OF this, of "demo_row ''k'' (-5)" KeyAsc "-1"]
  show ?thesis by (auto simp: demo_row_def)
qed

end
