(* ===== verification/Crates.thy ===== *)
theory Crates
  imports Rust_Std
begin

section \<open>The third-party crates\<close>

text \<open>
  The functions of the crates \<open>sha2\<close>, \<open>hkdf\<close>, \<open>aegis\<close> and \<open>hex\<close> that the database calls are
  parameters of the model: a record of functions, an argument of every definition that uses
  one. What the code relies on is named here, as \<open>crypto_ok\<close> and \<open>hex_ok\<close>, both documented
  behaviour of the crates; nothing about collisions is assumed of the hash functions.
  \<open>demo_crates\<close> is an instance that satisfies the two, for the witnesses.
\<close>

record crates =
  sha256 :: "bytes \<Rightarrow> bytes"
    \<comment> \<open>\<open>Sha256::digest\<close>\<close>
  hkdf :: "bytes option \<Rightarrow> bytes \<Rightarrow> bytes \<Rightarrow> bytes"
    \<comment> \<open>\<open>Hkdf::<Sha256>::new(salt, ikm)\<close> expanded with an info label to 32 bytes\<close>
  aegis_encrypt :: "bytes \<Rightarrow> bytes \<Rightarrow> bytes \<Rightarrow> bytes \<Rightarrow> bytes \<times> bytes"
    \<comment> \<open>key, nonce, data, associated data; the ciphertext and the tag\<close>
  aegis_decrypt :: "bytes \<Rightarrow> bytes \<Rightarrow> bytes \<Rightarrow> bytes \<Rightarrow> bytes \<Rightarrow> bytes option"
    \<comment> \<open>key, nonce, data, tag, associated data; \<open>None\<close> when the tag does not verify\<close>
  hex_encode :: "bytes \<Rightarrow> string"
  hex_decode_32 :: "string \<Rightarrow> bytes option"
    \<comment> \<open>\<open>decode_to_slice\<close> into a 32 byte buffer\<close>

definition crypto_ok :: "crates \<Rightarrow> bool" where
  "crypto_ok cr \<longleftrightarrow>
     (\<forall>d. length (sha256 cr d) = 32) \<and>
     (\<forall>salt ikm info. length (hkdf cr salt ikm info) = 32) \<and>
     (\<forall>k n d a. length (fst (aegis_encrypt cr k n d a)) = length d \<and>
        length (snd (aegis_encrypt cr k n d a)) = 32 \<and>
        aegis_decrypt cr k n (fst (aegis_encrypt cr k n d a)) (snd (aegis_encrypt cr k n d a)) a
          = Some d)"

definition hex_chars :: string where
  "hex_chars = ''0123456789abcdef''"

definition hex_ok :: "crates \<Rightarrow> bool" where
  "hex_ok cr \<longleftrightarrow>
     (\<forall>bs. length (hex_encode cr bs) = 2 * length bs \<and> set (hex_encode cr bs) \<subseteq> set hex_chars) \<and>
     (\<forall>bs. length bs = 32 \<longrightarrow> hex_decode_32 cr (hex_encode cr bs) = Some bs) \<and>
     (\<forall>s bs. hex_decode_32 cr s = Some bs \<longrightarrow> length bs = 32)"

lemma crypto_ok_simps [simp]:
  assumes "crypto_ok cr"
  shows "length (sha256 cr d) = 32"
    and "length (hkdf cr salt ikm info) = 32"
    and "length (fst (aegis_encrypt cr k n d a)) = length d"
    and "length (snd (aegis_encrypt cr k n d a)) = 32"
    and "aegis_decrypt cr k n (fst (aegis_encrypt cr k n d a)) (snd (aegis_encrypt cr k n d a)) a
      = Some d"
  using assms by (simp_all add: crypto_ok_def)

lemma hex_ok_length [simp]: "hex_ok cr \<Longrightarrow> length (hex_encode cr bs) = 2 * length bs"
  unfolding hex_ok_def by blast

lemma hex_ok_set: "hex_ok cr \<Longrightarrow> c \<in> set (hex_encode cr bs) \<Longrightarrow> c \<in> set hex_chars"
  by (auto simp: hex_ok_def)

lemma hex_ok_decode [simp]:
  "hex_ok cr \<Longrightarrow> length bs = 32 \<Longrightarrow> hex_decode_32 cr (hex_encode cr bs) = Some bs"
  unfolding hex_ok_def by blast

lemma hex_ok_decode_length: "hex_ok cr \<Longrightarrow> hex_decode_32 cr s = Some bs \<Longrightarrow> length bs = 32"
  unfolding hex_ok_def by blast

lemma hex_encode_inject:
  assumes "hex_ok cr" "length a = 32" "length b = 32"
  shows "hex_encode cr a = hex_encode cr b \<longleftrightarrow> a = b"
proof
  assume "hex_encode cr a = hex_encode cr b"
  then have "hex_decode_32 cr (hex_encode cr a) = hex_decode_32 cr (hex_encode cr b)" by simp
  then show "a = b" by (simp only: hex_ok_decode [OF assms(1,2)] hex_ok_decode [OF assms(1,3)] option.inject)
qed simp

subsection \<open>An instance for witnesses\<close>

text \<open>
  Toy functions that satisfy the two contracts: \<open>pad32\<close> makes 32 bytes of any input, the
  cipher is the identity, hex is the usual encoding.
\<close>

definition pad32 :: "bytes \<Rightarrow> bytes" where
  "pad32 d = take 32 (d @ replicate 32 0)"

definition hex_digit :: "nat \<Rightarrow> char" where
  "hex_digit n = hex_chars ! (n mod 16)"

definition demo_hex :: "bytes \<Rightarrow> string" where
  "demo_hex bs = concat (map (\<lambda>b. [hex_digit (unat b div 16), hex_digit (unat b)]) bs)"

definition hex_value :: "char \<Rightarrow> nat option" where
  "hex_value c = (let n = (of_char c :: nat) in
     if 48 \<le> n \<and> n \<le> 57 then Some (n - 48)
     else if 97 \<le> n \<and> n \<le> 102 then Some (n - 87)
     else if 65 \<le> n \<and> n \<le> 70 then Some (n - 55) else None)"

fun demo_unhex :: "string \<Rightarrow> bytes option" where
  "demo_unhex [] = Some []"
| "demo_unhex [c] = None"
| "demo_unhex (c # d # s) =
     (case (hex_value c, hex_value d, demo_unhex s) of
        (Some h, Some l, Some bs) \<Rightarrow> Some (of_nat (h * 16 + l) # bs)
      | _ \<Rightarrow> None)"

definition demo_crates :: crates where
  "demo_crates = \<lparr>
     sha256 = pad32,
     hkdf = (\<lambda>salt ikm info. pad32 (rev (case salt of None \<Rightarrow> [] | Some s \<Rightarrow> s) @ info)),
     aegis_encrypt = (\<lambda>k n d a. (d, pad32 [])),
     aegis_decrypt = (\<lambda>k n d t a. Some d),
     hex_encode = demo_hex,
     hex_decode_32 = (\<lambda>s. case demo_unhex s of
        Some bs \<Rightarrow> if length bs = 32 then Some bs else None | None \<Rightarrow> None) \<rparr>"

lemma length_pad32 [simp]: "length (pad32 d) = 32"
  by (simp add: pad32_def)

lemma crypto_ok_demo [simp]: "crypto_ok demo_crates"
  by (simp add: crypto_ok_def demo_crates_def)

lemma length_demo_hex [simp]: "length (demo_hex bs) = 2 * length bs"
  by (induction bs) (auto simp: demo_hex_def)

lemma set_demo_hex: "set (demo_hex bs) \<subseteq> set hex_chars"
proof -
  have "hex_digit n \<in> set hex_chars" for n
    unfolding hex_digit_def by (rule nth_mem) (simp add: hex_chars_def)
  then show ?thesis by (auto simp: demo_hex_def)
qed

lemma hex_value_digit: "n < 16 \<Longrightarrow> hex_value (hex_digit n) = Some n"
proof -
  assume "n < 16"
  moreover have "list_all (\<lambda>n. hex_value (hex_digit n) = Some n) [0..<16]" by code_simp
  ultimately show ?thesis by (simp add: list_all_iff)
qed

lemma demo_unhex_hex: "demo_unhex (demo_hex bs) = Some bs"
proof (induction bs)
  case Nil
  then show ?case by (simp add: demo_hex_def)
next
  case (Cons b bs)
  have "unat b < 256" using unsigned_less [of b, where 'a = nat] by simp
  then have "hex_value (hex_digit (unat b div 16)) = Some (unat b div 16)"
    by (intro hex_value_digit) auto
  moreover have "hex_value (hex_digit (unat b)) = Some (unat b mod 16)"
    using hex_value_digit [of "unat b mod 16"] by (simp add: hex_digit_def)
  moreover have "(of_nat (unat b div 16 * 16 + unat b mod 16) :: u8) = b"
    by (simp only: div_mult_mod_eq) simp
  ultimately show ?case using Cons.IH by (simp add: demo_hex_def)
qed

lemma hex_ok_demo [simp]: "hex_ok demo_crates"
  using set_demo_hex
  by (auto simp: hex_ok_def demo_crates_def demo_unhex_hex split: option.splits if_splits)

end
