(* ===== verification/Files.thy ===== *)
theory Files
  imports Rust_Std "HOL-Library.AList"
begin

section \<open>The file system the blob store works on\<close>

text \<open>
  The \<open>tokio::fs\<close> calls the source makes, on a file system that maps paths to files and
  directories with their modification times. A path is the list of its components. Any call
  may also fail for a reason outside the model (permissions, a full disk, another process):
  a fault plan says which calls do, and how much of a failing write reached the disk, so a
  statement for every plan covers every error path of the code.

  \<open>file_at\<close> is the view most lemmas use: the contents of a file, with times and directories
  left out.
\<close>

type_synonym path = "string list"

datatype node = File (mtime: system_time) (contents: bytes) | Dir (mtime: system_time)

type_synonym fs = "(path \<times> node) list"

datatype fs_op =
    OpReadDir | OpNextEntry | OpMetadata | OpModified | OpCreateDir | OpWrite nat | OpRead
  | OpRemoveFile | OpRemoveDir

record fs_plan =
  fp_err :: "fs_op \<Rightarrow> path \<Rightarrow> io_error option"
  fp_written :: "path \<Rightarrow> nat option"
    \<comment> \<open>for a failing write: the number of bytes that reached the file, \<open>None\<close> if not created\<close>
  fp_dir_len :: "path \<Rightarrow> nat"
    \<comment> \<open>the length that \<open>metadata\<close> reports of a directory, which depends on the file system\<close>

definition no_faults :: fs_plan where
  "no_faults = \<lparr>fp_err = (\<lambda>_ _. None), fp_written = (\<lambda>_. None), fp_dir_len = (\<lambda>_. 4096)\<rparr>"

lemma no_faults_simps [simp]: "fp_err no_faults op p = None" "fp_written no_faults p = None"
  by (simp_all add: no_faults_def)

definition fs_lookup :: "fs \<Rightarrow> path \<Rightarrow> node option" where
  "fs_lookup fs p = map_of fs p"

definition file_at :: "fs \<Rightarrow> path \<Rightarrow> bytes option" where
  "file_at fs p = (case fs_lookup fs p of Some (File t d) \<Rightarrow> Some d | _ \<Rightarrow> None)"

definition is_dir :: "fs \<Rightarrow> path \<Rightarrow> bool" where
  "is_dir fs p \<longleftrightarrow> p = [] \<or> (\<exists>t. fs_lookup fs p = Some (Dir t))"

lemma is_dir_code [code]:
  "is_dir fs p \<longleftrightarrow> p = [] \<or> (case fs_lookup fs p of Some (Dir t) \<Rightarrow> True | _ \<Rightarrow> False)"
  by (auto simp: is_dir_def split: option.splits node.splits)

definition not_found :: io_error where
  "not_found = IoError NotFound ''No such file or directory''"

definition fs_error :: io_error where
  "fs_error = io_other ''file system error''"

subsection \<open>The calls\<close>

text \<open>Adding or removing a child updates the modification time of the directory.\<close>

definition touch :: "system_time \<Rightarrow> path \<Rightarrow> fs \<Rightarrow> fs" where
  "touch now p fs = (case fs_lookup fs p of
      Some (Dir t) \<Rightarrow> AList.update p (Dir now) fs | _ \<Rightarrow> fs)"

definition fs_metadata :: "fs_plan \<Rightarrow> path \<Rightarrow> fs \<Rightarrow> node res" where
  "fs_metadata pl p fs = (case fp_err pl OpMetadata p of
      Some e \<Rightarrow> Inl e
    | None \<Rightarrow> (case fs_lookup fs p of None \<Rightarrow> Inl not_found | Some n \<Rightarrow> Inr n))"

text \<open>\<open>Metadata::len\<close>.\<close>

fun meta_len :: "fs_plan \<Rightarrow> path \<Rightarrow> node \<Rightarrow> nat" where
  "meta_len pl p (File t d) = length d"
| "meta_len pl p (Dir t) = fp_dir_len pl p"

definition fs_read :: "fs_plan \<Rightarrow> path \<Rightarrow> fs \<Rightarrow> bytes res" where
  "fs_read pl p fs = (case fp_err pl OpRead p of
      Some e \<Rightarrow> Inl e
    | None \<Rightarrow> (case fs_lookup fs p of
        None \<Rightarrow> Inl not_found | Some (Dir t) \<Rightarrow> Inl fs_error | Some (File t d) \<Rightarrow> Inr d))"

text \<open>\<open>create_dir_all\<close>: every missing directory from the root down.\<close>

fun create_dirs :: "fs_plan \<Rightarrow> system_time \<Rightarrow> path \<Rightarrow> path \<Rightarrow> fs \<Rightarrow> unit res \<times> fs" where
  "create_dirs pl now pre [] fs = (Inr (), fs)"
| "create_dirs pl now pre (c # cs) fs =
     (let p = pre @ [c] in
      case fs_lookup fs p of
        Some (Dir t) \<Rightarrow> create_dirs pl now p cs fs
      | Some (File t d) \<Rightarrow> (Inl fs_error, fs)
      | None \<Rightarrow> (case fp_err pl OpCreateDir p of
          Some e \<Rightarrow> (Inl e, fs)
        | None \<Rightarrow> create_dirs pl now p cs (AList.update p (Dir now) (touch now pre fs))))"

definition create_dir_all :: "fs_plan \<Rightarrow> system_time \<Rightarrow> path \<Rightarrow> fs \<Rightarrow> unit res \<times> fs" where
  "create_dir_all pl now p fs = create_dirs pl now [] p fs"

text \<open>
  \<open>tokio::fs::write\<close>: create or truncate, then write. It needs the parent directory; a
  failing write may leave a file with a part of the data.
\<close>

definition put_file :: "system_time \<Rightarrow> path \<Rightarrow> bytes \<Rightarrow> fs \<Rightarrow> fs" where
  "put_file now p d fs =
     AList.update p (File now d) (if fs_lookup fs p = None then touch now (butlast p) fs else fs)"

definition fs_write :: "fs_plan \<Rightarrow> system_time \<Rightarrow> nat \<Rightarrow> path \<Rightarrow> bytes \<Rightarrow> fs \<Rightarrow> unit res \<times> fs" where
  "fs_write pl now attempt p d fs =
     (if \<not> is_dir fs (butlast p) then (Inl not_found, fs)
      else if is_dir fs p then (Inl fs_error, fs)
      else case fp_err pl (OpWrite attempt) p of
        Some e \<Rightarrow> (Inl e, (case fp_written pl p of
            Some n \<Rightarrow> put_file now p (take n d) fs | None \<Rightarrow> fs))
      | None \<Rightarrow> (Inr (), put_file now p d fs))"

definition fs_remove_file :: "fs_plan \<Rightarrow> system_time \<Rightarrow> path \<Rightarrow> fs \<Rightarrow> unit res \<times> fs" where
  "fs_remove_file pl now p fs = (case fp_err pl OpRemoveFile p of
      Some e \<Rightarrow> (Inl e, fs)
    | None \<Rightarrow> (case fs_lookup fs p of
        Some (File t d) \<Rightarrow> (Inr (), touch now (butlast p) (AList.delete p fs))
      | Some (Dir t) \<Rightarrow> (Inl fs_error, fs)
      | None \<Rightarrow> (Inl not_found, fs)))"

text \<open>The children of a directory, in the order of the listing.\<close>

definition children :: "path \<Rightarrow> fs \<Rightarrow> string list" where
  "children d fs = map (last \<circ> fst) (filter (\<lambda>(p, n). p \<noteq> [] \<and> butlast p = d) fs)"

definition fs_remove_dir :: "fs_plan \<Rightarrow> system_time \<Rightarrow> path \<Rightarrow> fs \<Rightarrow> unit res \<times> fs" where
  "fs_remove_dir pl now p fs = (case fp_err pl OpRemoveDir p of
      Some e \<Rightarrow> (Inl e, fs)
    | None \<Rightarrow> (case fs_lookup fs p of
        Some (Dir t) \<Rightarrow>
          (if children p fs = [] then (Inr (), touch now (butlast p) (AList.delete p fs))
           else (Inl fs_error, fs))
      | Some (File t d) \<Rightarrow> (Inl fs_error, fs)
      | None \<Rightarrow> (Inl not_found, fs)))"

definition fs_read_dir :: "fs_plan \<Rightarrow> path \<Rightarrow> fs \<Rightarrow> (string list) res" where
  "fs_read_dir pl p fs = (case fp_err pl OpReadDir p of
      Some e \<Rightarrow> Inl e
    | None \<Rightarrow> (case fs_lookup fs p of
        Some (Dir t) \<Rightarrow> Inr (children p fs)
      | Some (File t d) \<Rightarrow> Inl fs_error
      | None \<Rightarrow> Inl not_found))"

subsection \<open>What the calls do to lookups\<close>

lemma fs_lookup_update [simp]:
  "fs_lookup (AList.update p n fs) q = (if q = p then Some n else fs_lookup fs q)"
  by (simp add: fs_lookup_def update_conv')

lemma fs_lookup_delete [simp]:
  "fs_lookup (AList.delete p fs) q = (if q = p then None else fs_lookup fs q)"
  by (simp add: fs_lookup_def delete_conv')

lemma fs_lookup_touch [simp]:
  "fs_lookup (touch now p fs) q =
     (if q = p \<and> (\<exists>t. fs_lookup fs p = Some (Dir t)) then Some (Dir now) else fs_lookup fs q)"
  by (auto simp: touch_def split: option.splits node.splits)

lemma is_dir_touch [simp]: "is_dir (touch now p fs) q = is_dir fs q"
  by (auto simp: is_dir_def)

lemma file_at_touch [simp]: "file_at (touch now p fs) q = file_at fs q"
  by (auto simp: file_at_def split: option.splits node.splits)

lemma file_at_delete: "file_at (AList.delete p fs) q = (if q = p then None else file_at fs q)"
  by (simp add: file_at_def)

lemma file_at_put_file [simp]:
  "file_at (put_file now p d fs) q = (if q = p then Some d else file_at fs q)"
proof (cases "q = p")
  case True
  then show ?thesis by (simp add: file_at_def put_file_def)
next
  case False
  have "file_at (AList.update p (File now d) fs') q = file_at fs' q" for fs'
    using False by (simp add: file_at_def)
  with False show ?thesis by (simp add: put_file_def)
qed

lemma file_at_Some_lookup: "file_at fs p = Some d \<longleftrightarrow> (\<exists>t. fs_lookup fs p = Some (File t d))"
  by (auto simp: file_at_def split: option.splits node.splits)

lemma file_at_not_dir: "file_at fs p = Some d \<Longrightarrow> p \<noteq> [] \<Longrightarrow> \<not> is_dir fs p"
  by (auto simp: file_at_Some_lookup is_dir_def)

text \<open>A file that the plan lets through can be read back.\<close>

lemma fs_read_ok:
  "fp_err pl OpRead p = None \<Longrightarrow> file_at fs p = Some d \<Longrightarrow> fs_read pl p fs = Inr d"
  by (auto simp: fs_read_def file_at_Some_lookup)

lemma fs_read_Inr: "fs_read pl p fs = Inr d \<Longrightarrow> file_at fs p = Some d"
  by (auto simp: fs_read_def file_at_Some_lookup split: option.splits node.splits)

text \<open>Removing a file removes that file at most.\<close>

lemma file_at_remove_file:
  "file_at (snd (fs_remove_file pl now p fs)) q =
     (if q = p \<and> fp_err pl OpRemoveFile p = None then None else file_at fs q)"
  by (cases "fs_lookup fs p")
    (auto simp: fs_remove_file_def file_at_delete file_at_def split: option.splits node.splits)

lemma file_at_remove_dir [simp]: "file_at (snd (fs_remove_dir pl now p fs)) q = file_at fs q"
  by (auto simp: fs_remove_dir_def file_at_delete file_at_def split: option.splits node.splits)

text \<open>Creating directories leaves the files alone.\<close>

lemma file_at_create_dirs [simp]:
  "file_at (snd (create_dirs pl now pre cs fs)) q = file_at fs q"
proof (induction pl now pre cs fs rule: create_dirs.induct)
  case (1 pl now pre fs)
  then show ?case by simp
next
  case (2 pl now pre c cs fs)
  have "file_at (AList.update (pre @ [c]) (Dir now) (touch now pre fs)) q = file_at fs q"
    if "fs_lookup fs (pre @ [c]) = None"
    using that by (auto simp: file_at_def)
  with 2 show ?case by (auto simp: Let_def split: option.splits node.splits)
qed

lemma file_at_create_dir_all [simp]: "file_at (snd (create_dir_all pl now p fs)) q = file_at fs q"
  by (simp add: create_dir_all_def)

lemma is_dir_update_Dir: "is_dir fs q \<Longrightarrow> is_dir (AList.update p (Dir now) fs) q"
  by (auto simp: is_dir_def)

lemma create_dirs_is_dir:
  "create_dirs pl now pre cs fs = (Inr (), fs') \<Longrightarrow> is_dir fs pre \<Longrightarrow>
   is_dir fs' (pre @ cs) \<and> (\<forall>q. is_dir fs q \<longrightarrow> is_dir fs' q)"
proof (induction pl now pre cs fs rule: create_dirs.induct)
  case (1 pl now pre fs)
  then show ?case by simp
next
  case (2 pl now pre c cs fs)
  let ?p = "pre @ [c]"
  let ?fs1 = "AList.update ?p (Dir now) (touch now pre fs)"
  consider (dir) t where "fs_lookup fs ?p = Some (Dir t)"
    | (new) "fs_lookup fs ?p = None" "fp_err pl OpCreateDir ?p = None"
    using "2.prems" by (auto simp: Let_def split: option.splits node.splits)
  then show ?case
  proof cases
    case dir
    then have "is_dir fs ?p" by (auto simp: is_dir_def)
    with dir "2.prems" "2.IH"(2) [OF refl dir] show ?thesis by (simp add: Let_def)
  next
    case new
    have "is_dir ?fs1 ?p" by (auto simp: is_dir_def)
    moreover have "is_dir ?fs1 q" if "is_dir fs q" for q
      using that by (intro is_dir_update_Dir) simp
    ultimately show ?thesis
      using new "2.prems" "2.IH"(1) [OF refl new] by (simp add: Let_def)
  qed
qed

lemma create_dir_all_is_dir:
  "create_dir_all pl now p fs = (Inr (), fs') \<Longrightarrow> is_dir fs' p"
  using create_dirs_is_dir [of pl now "[]" p fs fs'] by (simp add: create_dir_all_def is_dir_def)

text \<open>A write that succeeds puts the data there; one that fails touches no other file.\<close>

lemma fs_write_ok: "fs_write pl now a p d fs = (Inr (), fs') \<Longrightarrow> fs' = put_file now p d fs"
  by (auto simp: fs_write_def split: if_splits option.splits)

lemma fs_write_frame:
  "q \<noteq> p \<Longrightarrow> file_at (snd (fs_write pl now a p d fs)) q = file_at fs q"
  by (auto simp: fs_write_def split: option.splits)

lemma fs_write_prefix:
  "file_at (snd (fs_write pl now a p d fs)) p = Some c \<Longrightarrow>
   file_at fs p = Some c \<or> (\<exists>n. c = take n d)"
  by (auto simp: fs_write_def split: option.splits if_splits intro: exI [of _ "length d"])

subsection \<open>The tree invariant\<close>

text \<open>Paths occur once, and the parent of everything that exists is a directory.\<close>

definition fs_wf :: "fs \<Rightarrow> bool" where
  "fs_wf fs \<longleftrightarrow> distinct (map fst fs) \<and> (\<forall>p n. fs_lookup fs p = Some n \<longrightarrow> p \<noteq> [] \<and> is_dir fs (butlast p))"

lemma fs_wfD: "fs_wf fs \<Longrightarrow> fs_lookup fs p = Some n \<Longrightarrow> p \<noteq> [] \<and> is_dir fs (butlast p)"
  by (auto simp: fs_wf_def)

lemma distinct_touch: "distinct (map fst fs) \<Longrightarrow> distinct (map fst (touch now p fs))"
  by (auto simp: touch_def distinct_update split: option.splits node.splits)

lemma fs_wf_touch: "fs_wf fs \<Longrightarrow> fs_wf (touch now p fs)"
  unfolding fs_wf_def by (auto simp: distinct_touch split: if_splits)

lemma fs_wf_update:
  assumes "fs_wf fs" "p \<noteq> []" "is_dir fs (butlast p)" "(\<forall>t. n \<noteq> Dir t) \<Longrightarrow> \<not> is_dir fs p"
  shows "fs_wf (AList.update p n fs)"
proof -
  have "is_dir (AList.update p n fs) q" if "is_dir fs q" for q
    using that assms(4) by (cases n) (auto simp: is_dir_def)
  then show ?thesis using assms by (auto simp: fs_wf_def distinct_update)
qed

lemma butlast_neq: "p \<noteq> [] \<Longrightarrow> butlast p \<noteq> p"
  by (metis append_butlast_last_id not_Cons_self2 self_append_conv)

lemma children_iff: "c \<in> set (children d fs) \<longleftrightarrow> (\<exists>n. fs_lookup fs (d @ [c]) = Some n)"
proof -
  have "c \<in> set (children d fs) \<longleftrightarrow> (\<exists>n. (d @ [c], n) \<in> set fs)"
    by (force simp: children_def append_butlast_last_id intro: rev_image_eqI)
  also have "\<dots> \<longleftrightarrow> (\<exists>n. fs_lookup fs (d @ [c]) = Some n)"
    by (metis fs_lookup_def map_of_SomeD not_None_eq map_of_eq_None_iff fst_conv image_eqI)
  finally show ?thesis .
qed

lemma fs_wf_delete:
  assumes "fs_wf fs" and "\<And>c n. fs_lookup fs (p @ [c]) \<noteq> Some n"
  shows "fs_wf (AList.delete p fs)"
proof -
  have "butlast q \<noteq> p" if "fs_lookup fs q = Some n" for q n
    using assms fs_wfD [OF assms(1) that] that by (metis append_butlast_last_id)
  then show ?thesis using assms(1) by (auto simp: fs_wf_def distinct_delete is_dir_def)
qed

lemma file_no_children:
  "fs_wf fs \<Longrightarrow> fs_lookup fs p = Some (File t d) \<Longrightarrow> fs_lookup fs (p @ [c]) \<noteq> Some n"
  using fs_wfD [of fs "p @ [c]" n] by (auto simp: is_dir_def dest: fs_wfD)

lemma fs_wf_remove_file: "fs_wf fs \<Longrightarrow> fs_wf (snd (fs_remove_file pl now p fs))"
  by (auto simp: fs_remove_file_def split: option.splits node.splits
      intro!: fs_wf_touch fs_wf_delete dest: file_no_children)

lemma fs_wf_remove_dir: "fs_wf fs \<Longrightarrow> fs_wf (snd (fs_remove_dir pl now p fs))"
  by (auto simp: fs_remove_dir_def split: option.splits node.splits
      intro!: fs_wf_touch fs_wf_delete) (metis children_iff list.distinct(1) list.set_cases)

lemma fs_wf_put_file:
  assumes "fs_wf fs" "p \<noteq> []" "is_dir fs (butlast p)" "\<not> is_dir fs p"
  shows "fs_wf (put_file now p d fs)"
  unfolding put_file_def using assms by (auto intro!: fs_wf_update fs_wf_touch)

lemma fs_wf_write: "fs_wf fs \<Longrightarrow> fs_wf (snd (fs_write pl now a p d fs))"
  by (auto simp: fs_write_def is_dir_def split: option.splits intro!: fs_wf_put_file)

lemma fs_wf_create_dirs:
  "fs_wf fs \<Longrightarrow> is_dir fs pre \<Longrightarrow> fs_wf (snd (create_dirs pl now pre cs fs))"
proof (induction pl now pre cs fs rule: create_dirs.induct)
  case (1 pl now pre fs)
  then show ?case by simp
next
  case (2 pl now pre c cs fs)
  let ?fs1 = "AList.update (pre @ [c]) (Dir now) (touch now pre fs)"
  have "fs_wf ?fs1" using "2.prems" by (auto intro!: fs_wf_update fs_wf_touch)
  moreover have "is_dir ?fs1 (pre @ [c])" by (auto simp: is_dir_def)
  moreover have "is_dir fs (pre @ [c])" if "fs_lookup fs (pre @ [c]) = Some (Dir t)" for t
    using that by (auto simp: is_dir_def)
  ultimately show ?case using 2 by (auto simp: Let_def split: option.splits node.splits)
qed

lemma fs_wf_create_dir_all: "fs_wf fs \<Longrightarrow> fs_wf (snd (create_dir_all pl now p fs))"
  by (simp add: create_dir_all_def fs_wf_create_dirs is_dir_def)

lemmas fs_wf_intros =
  fs_wf_remove_file fs_wf_remove_dir fs_wf_write fs_wf_create_dir_all

end
