(* ===== verification/Blob.thy ===== *)
theory Blob
  imports Crates Files
begin

section \<open>Blobs: names, keys and files of entry chunks\<close>

text \<open>
  \<open>rs/v-m-io-db/src/blob.rs\<close>: the framed identity of a chunk, the key schedule derived from it,
  the path a blob lives at, writing a blob with one retry, and the encryption of a chunk. The
  functions of the crates are the fields of the \<open>crates\<close> record.
\<close>

definition SHARD_DEPTH :: nat where "SHARD_DEPTH = 3"
definition SHARD_LEN :: nat where "SHARD_LEN = 4"

definition INFO_ID :: bytes where "INFO_ID = into_bytes ''v-m.io blob id v1''"
definition INFO_KEY :: bytes where "INFO_KEY = into_bytes ''v-m.io blob key v1''"
definition INFO_NONCE :: bytes where "INFO_NONCE = into_bytes ''v-m.io blob nonce v1''"

record chunk_id =
  ci_class :: string
  ci_key :: string
  ci_idx :: int
  ci_hash :: bytes
  ci_is_final :: bool

record chunk_keys =
  ck_id :: bytes
  ck_key :: bytes
  ck_nonce :: bytes
  ck_adata :: bytes

text \<open>\<open>ChunkId::frame\<close>.\<close>

definition frame :: "chunk_id \<Rightarrow> bytes" where
  "frame c =
     (let class = into_bytes (ci_class c); key = into_bytes (ci_key c) in
      u64_to_le_bytes (length class) @ class @
      u64_to_le_bytes (length key) @ key @
      i64_to_le_bytes (ci_idx c) @ ci_hash c @ [if ci_is_final c then 1 else 0])"

text \<open>\<open>ChunkId::derive\<close>: the frame is the salt, the blob key the input key material.\<close>

definition derive :: "crates \<Rightarrow> chunk_id \<Rightarrow> bytes \<Rightarrow> chunk_keys" where
  "derive cr c blob_key =
     (let adata = frame c; expand = hkdf cr (Some adata) blob_key in
      \<lparr>ck_id = expand INFO_ID, ck_key = expand INFO_KEY, ck_nonce = expand INFO_NONCE,
       ck_adata = adata\<rparr>)"

definition gen_id :: "crates \<Rightarrow> chunk_id \<Rightarrow> bytes \<Rightarrow> bytes" where
  "gen_id cr c blob_key = ck_id (derive cr c blob_key)"

text \<open>\<open>id_path\<close>: three shard directories named by the first hex digits, then the whole name.\<close>

definition id_path :: "crates \<Rightarrow> path \<Rightarrow> bytes \<Rightarrow> path" where
  "id_path cr root_dir blob_id =
     (let hex = hex_encode cr blob_id in
      root_dir @ [take SHARD_LEN hex, take SHARD_LEN (drop SHARD_LEN hex),
        take SHARD_LEN (drop (SHARD_LEN * 2) hex), hex])"

definition is_ascii_hexdigit :: "char \<Rightarrow> bool" where
  "is_ascii_hexdigit c \<longleftrightarrow> (let n = (of_char c :: nat) in
     48 \<le> n \<and> n \<le> 57 \<or> 65 \<le> n \<and> n \<le> 70 \<or> 97 \<le> n \<and> n \<le> 102)"

definition is_shard_name :: "string \<Rightarrow> bool" where
  "is_shard_name name \<longleftrightarrow> length name = SHARD_LEN \<and> list_all is_ascii_hexdigit name"

definition parse_name :: "crates \<Rightarrow> string \<Rightarrow> bytes option" where
  "parse_name cr name = hex_decode_32 cr name"

text \<open>\<open>write\<close>: the loop \<open>for _ in 0..2\<close>, a \<open>NotFound\<close> continues.\<close>

fun write_attempts :: "fs_plan \<Rightarrow> system_time \<Rightarrow> path \<Rightarrow> bytes \<Rightarrow> nat list \<Rightarrow> fs \<Rightarrow> unit res \<times> fs" where
  "write_attempts pl now p data [] fs =
     (Inl (io_other ''blob shard removed during write''), fs)"
| "write_attempts pl now p data (a # attempts) fs =
     (case create_dir_all pl now (butlast p) fs of
        (Inl e, fs1) \<Rightarrow> (Inl e, fs1)
      | (Inr _, fs1) \<Rightarrow>
          (case fs_write pl now a p data fs1 of
             (Inl e, fs2) \<Rightarrow>
               (if kind e = NotFound then write_attempts pl now p data attempts fs2 else (Inl e, fs2))
           | (Inr u, fs2) \<Rightarrow> (Inr u, fs2)))"

definition blob_write :: "fs_plan \<Rightarrow> system_time \<Rightarrow> path \<Rightarrow> bytes \<Rightarrow> fs \<Rightarrow> unit res \<times> fs" where
  "blob_write pl now p data fs = write_attempts pl now p data [0..<2] fs"

record encrypt_result =
  en_id :: bytes
  en_tag :: bytes

text \<open>\<open>encrypt_chunk\<close> works in place; the model returns the new buffer with the result.\<close>

definition encrypt_chunk :: "crates \<Rightarrow> chunk_id \<Rightarrow> bytes \<Rightarrow> bytes \<Rightarrow> encrypt_result \<times> bytes" where
  "encrypt_chunk cr c data blob_key =
     (let keys = derive cr c blob_key;
          (ct, tag) = aegis_encrypt cr (ck_key keys) (ck_nonce keys) data (ck_adata keys)
      in (\<lparr>en_id = ck_id keys, en_tag = tag\<rparr>, ct))"

definition decrypt_error :: io_error where
  "decrypt_error = io_other ''invalid tag''"

definition decrypt_chunk :: "crates \<Rightarrow> chunk_id \<Rightarrow> bytes \<Rightarrow> bytes \<Rightarrow> bytes \<Rightarrow> bytes res" where
  "decrypt_chunk cr c data blob_key tag =
     (let keys = derive cr c blob_key in
      case aegis_decrypt cr (ck_key keys) (ck_nonce keys) data tag (ck_adata keys) of
        None \<Rightarrow> Inl decrypt_error
      | Some d \<Rightarrow> Inr d)"

subsection \<open>The frame is injective\<close>

text \<open>What the Rust types guarantee of a chunk identity.\<close>

definition chunk_id_ok :: "chunk_id \<Rightarrow> bool" where
  "chunk_id_ok c \<longleftrightarrow> length (ci_class c) < 2 ^ 64 \<and> length (ci_key c) < 2 ^ 64 \<and>
     is_i64 (ci_idx c) \<and> length (ci_hash c) = 32"

text \<open>A length-prefixed field can be split off again.\<close>

lemma framed_field_inject:
  assumes "length a < 2 ^ 64" "length b < 2 ^ 64"
  shows "u64_to_le_bytes (length a) @ a @ s = u64_to_le_bytes (length b) @ b @ t \<longleftrightarrow> a = b \<and> s = t"
  using assms by (auto simp: append_eq_append_conv u64_to_le_bytes_inject)

lemma framed_string_inject:
  assumes "length a < 2 ^ 64" "length b < 2 ^ 64"
  shows "u64_to_le_bytes (length a) @ into_bytes a @ s = u64_to_le_bytes (length b) @ into_bytes b @ t
    \<longleftrightarrow> a = b \<and> s = t"
  using framed_field_inject [of "into_bytes a" "into_bytes b" s t] assms by simp

lemma frame_inject_lemma:
  assumes "chunk_id_ok c" "chunk_id_ok d"
  shows "frame c = frame d \<longleftrightarrow> c = d"
proof
  let ?tail = "\<lambda>c. i64_to_le_bytes (ci_idx c) @ ci_hash c @ [if ci_is_final c then 1 else (0 :: u8)]"
  assume "frame c = frame d"
  then have "ci_class c = ci_class d" "ci_key c = ci_key d" and tl: "?tail c = ?tail d"
    using assms unfolding frame_def Let_def chunk_id_ok_def
    by (simp_all only: framed_string_inject length_into_bytes)
  moreover from tl have "ci_idx c = ci_idx d" "ci_hash c = ci_hash d" "ci_is_final c = ci_is_final d"
    using assms by (auto simp: append_eq_append_conv i64_to_le_bytes_inject chunk_id_ok_def split: if_splits)
  ultimately show "c = d" by simp
qed simp

subsection \<open>Paths and names\<close>

lemma id_path_last [simp]: "last (id_path cr root i) = hex_encode cr i"
  by (simp add: id_path_def Let_def)

lemma id_path_not_Nil [simp]: "id_path cr root i \<noteq> []"
  by (simp add: id_path_def Let_def)

lemma length_id_path: "length (id_path cr root i) = length root + SHARD_DEPTH + 1"
  by (simp add: id_path_def Let_def SHARD_DEPTH_def)

text \<open>Different blobs live at different paths.\<close>

lemma id_path_inject:
  assumes "hex_ok cr" "length i = 32" "length j = 32"
  shows "id_path cr root i = id_path cr root j \<longleftrightarrow> i = j"
  using assms hex_encode_inject [OF assms] by (metis id_path_last)

text \<open>The name of a blob file parses back, and its directories are shard directories.\<close>

lemma parse_name_id_path [simp]:
  "hex_ok cr \<Longrightarrow> length i = 32 \<Longrightarrow> parse_name cr (last (id_path cr root i)) = Some i"
  by (simp add: parse_name_def)

lemma hexdigit_hex_chars: "c \<in> set hex_chars \<Longrightarrow> is_ascii_hexdigit c"
  by (auto simp: hex_chars_def is_ascii_hexdigit_def Let_def)

lemma shard_names:
  assumes "hex_ok cr" "length i = 32" "n \<le> 8"
  shows "is_shard_name (take SHARD_LEN (drop n (hex_encode cr i)))"
  using assms by (auto simp: is_shard_name_def SHARD_LEN_def list_all_iff
      intro!: hexdigit_hex_chars dest!: in_set_takeD in_set_dropD hex_ok_set)

subsection \<open>Writing a blob\<close>

lemma write_attempts_ok:
  "write_attempts pl now p d as fs = (Inr (), fs') \<Longrightarrow> file_at fs' p = Some d"
proof (induction pl now p d as fs rule: write_attempts.induct)
  case (1 pl now p data fs)
  then show ?case by simp
next
  case (2 pl now p data a attempts fs)
  then show ?case
    by (auto split: prod.splits sum.splits if_splits dest!: fs_write_ok)
qed

lemma write_attempts_frame:
  "q \<noteq> p \<Longrightarrow> file_at (snd (write_attempts pl now p d as fs)) q = file_at fs q"
proof (induction pl now p d as fs rule: write_attempts.induct)
  case (1 pl now p data fs)
  then show ?case by simp
next
  case (2 pl now p data a attempts fs)
  have "file_at fs1 q = file_at fs q" if "create_dir_all pl now (butlast p) fs = (r, fs1)" for r fs1
    using file_at_create_dir_all [of pl now "butlast p" fs q] that by simp
  moreover have "file_at fs2 q = file_at fs1 q" if "fs_write pl now a p data fs1 = (r, fs2)" for r fs1 fs2
    using fs_write_frame [OF "2.prems", of pl now a data fs1] that by simp
  ultimately show ?case using 2 by (simp split: prod.split sum.split)
qed

text \<open>Whatever happens, the file holds its old contents or a prefix of the data.\<close>

lemma write_attempts_prefix:
  "file_at (snd (write_attempts pl now p d as fs)) p = Some c \<Longrightarrow>
   file_at fs p = Some c \<or> (\<exists>n. c = take n d)"
proof (induction pl now p d as fs rule: write_attempts.induct)
  case (1 pl now p data fs)
  then show ?case by simp
next
  case (2 pl now p data a attempts fs)
  have *: "file_at fs1 p = file_at fs p" if "create_dir_all pl now (butlast p) fs = (r, fs1)" for r fs1
    using file_at_create_dir_all [of pl now "butlast p" fs p] that by simp
  have **: "file_at fs1 p = Some c \<or> (\<exists>n. c = take n data)"
    if "fs_write pl now a p data fs1 = (r, fs2)" "file_at fs2 p = Some c" for r fs1 fs2 c
    using fs_write_prefix [of pl now a p data fs1 c] that by simp
  from 2 show ?case by (auto split: prod.splits sum.splits if_splits dest!: ** *)
qed

lemma blob_write_ok: "blob_write pl now p d fs = (Inr (), fs') \<Longrightarrow> file_at fs' p = Some d"
  by (auto simp: blob_write_def intro: write_attempts_ok)

lemma blob_write_frame: "q \<noteq> p \<Longrightarrow> file_at (snd (blob_write pl now p d fs)) q = file_at fs q"
  by (simp add: blob_write_def write_attempts_frame)

lemma blob_write_prefix:
  "file_at (snd (blob_write pl now p d fs)) p = Some c \<Longrightarrow> file_at fs p = Some c \<or> (\<exists>n. c = take n d)"
  by (auto simp: blob_write_def dest: write_attempts_prefix)

lemma fs_wf_write_attempts: "fs_wf fs \<Longrightarrow> fs_wf (snd (write_attempts pl now p d as fs))"
proof (induction pl now p d as fs rule: write_attempts.induct)
  case (1 pl now p data fs)
  then show ?case by simp
next
  case (2 pl now p data a attempts fs)
  have *: "fs_wf fs1" if "create_dir_all pl now (butlast p) fs = (r, fs1)" for r fs1
    using fs_wf_create_dir_all [OF "2.prems", of pl now "butlast p"] that by simp
  have "fs_wf fs2" if "fs_write pl now a p data fs1 = (r, fs2)" "fs_wf fs1" for r fs1 fs2
    using fs_wf_write [OF that(2), of pl now a p data] that(1) by simp
  with * 2 show ?case by (simp split: prod.split sum.split)
qed

lemma fs_wf_blob_write: "fs_wf fs \<Longrightarrow> fs_wf (snd (blob_write pl now p d fs))"
  by (simp add: blob_write_def fs_wf_write_attempts)

subsection \<open>Encryption\<close>

lemma en_id_encrypt [simp]: "en_id (fst (encrypt_chunk cr c d k)) = gen_id cr c k"
  by (simp add: encrypt_chunk_def gen_id_def Let_def split: prod.split)

lemma length_encrypt_chunk [simp]: "crypto_ok cr \<Longrightarrow> length (snd (encrypt_chunk cr c d k)) = length d"
  by (simp add: encrypt_chunk_def Let_def case_prod_beta)

lemma length_gen_id [simp]: "crypto_ok cr \<Longrightarrow> length (gen_id cr c k) = 32"
  by (simp add: gen_id_def derive_def Let_def)

lemma decrypt_encrypt_chunk [simp]:
  assumes "crypto_ok cr"
  shows "decrypt_chunk cr c (snd (encrypt_chunk cr c d k)) k (en_tag (fst (encrypt_chunk cr c d k))) = Inr d"
  using assms by (simp add: encrypt_chunk_def decrypt_chunk_def Let_def case_prod_beta)

subsection \<open>Properties\<close>

text \<open>
  C32. The framed encoding of a chunk identity is injective, whatever bytes the class and the key
  hold: two chunks that differ in class, key, index, hash or finality have different frames, so
  they are keyed and named from different salts. (Concatenation without the lengths is not: class
  \<open>a\<close> with key \<open>b\<close> against class \<open>ab\<close>.)
\<close>

theorem frame_injective:
  assumes "chunk_id_ok c" "chunk_id_ok d"
  shows "frame c = frame d \<longleftrightarrow> c = d"
  by (rule frame_inject_lemma [OF assms])

definition demo_chunk_id :: "string \<Rightarrow> string \<Rightarrow> chunk_id" where
  "demo_chunk_id cls key = \<lparr>ci_class = cls, ci_key = key, ci_idx = 0, ci_hash = replicate 32 0, ci_is_final = True\<rparr>"

theorem frame_injective_witness:
  "frame (demo_chunk_id ''a'' ''b'') \<noteq> frame (demo_chunk_id ''ab'' [])"
  using frame_injective [of "demo_chunk_id ''a'' ''b''" "demo_chunk_id ''ab'' []"]
  by (simp add: demo_chunk_id_def chunk_id_ok_def i64_defs)

text \<open>
  C34. The blob layout: the file name of a blob parses back to its id, its three parents are shard
  directory names that the cleanup walk descends into, it sits at depth \<open>SHARD_DEPTH\<close> below the
  root, and two blobs never share a path.
\<close>

theorem blob_layout:
  assumes "hex_ok cr" "length i = 32" "length j = 32"
  shows "parse_name cr (last (id_path cr root i)) = Some i \<and>
    (\<exists>a b c. id_path cr root i = root @ [a, b, c, hex_encode cr i] \<and>
       is_shard_name a \<and> is_shard_name b \<and> is_shard_name c) \<and>
    (id_path cr root i = id_path cr root j \<longleftrightarrow> i = j)"
  using shard_names [OF assms(1,2), of 0] shard_names [OF assms(1,2), of SHARD_LEN]
    shard_names [OF assms(1,2), of "SHARD_LEN * 2"] id_path_inject [OF assms] parse_name_id_path [OF assms(1,2)]
  by (simp add: id_path_def Let_def SHARD_LEN_def)

theorem blob_layout_witness:
  "parse_name demo_crates (last (id_path demo_crates [''r''] (replicate 32 7))) = Some (replicate 32 7) \<and>
   id_path demo_crates [''r''] (replicate 32 7) \<noteq> id_path demo_crates [''r''] (replicate 32 8)"
proof -
  have "(replicate 32 7 :: bytes) \<noteq> replicate 32 8" by (simp add: replicate_eq_replicate)
  then show ?thesis
    using blob_layout [of demo_crates "replicate 32 7" "replicate 32 8" "[''r'']"] by simp
qed

text \<open>
  C33. Writing a blob, with any faults and in any state of the tree: success means the file holds
  exactly the data; otherwise it holds its old contents or a prefix of the data; no other file
  changes, and the tree stays well-formed.
\<close>

theorem blob_write_effect:
  assumes "blob_write pl now p data fs = (r, fs')"
  shows "(r = Inr () \<longrightarrow> file_at fs' p = Some data) \<and>
    (\<forall>c. file_at fs' p = Some c \<longrightarrow> file_at fs p = Some c \<or> (\<exists>n. c = take n data)) \<and>
    (\<forall>q. q \<noteq> p \<longrightarrow> file_at fs' q = file_at fs q) \<and> (fs_wf fs \<longrightarrow> fs_wf fs')"
  using assms blob_write_ok [of pl now p data fs fs'] blob_write_prefix [of pl now p data fs]
    blob_write_frame [of _ p pl now data fs] fs_wf_blob_write [of fs pl now p data]
  by auto

theorem blob_write_effect_witness:
  "\<exists>r fs'. blob_write no_faults 3 [''a'', ''b''] [1, 2] [] = (r, fs') \<and>
     (r = Inr () \<longrightarrow> file_at fs' [''a'', ''b''] = Some [1, 2]) \<and> fs_wf fs'"
proof -
  obtain r fs' where run: "blob_write no_faults 3 [''a'', ''b''] [1, 2] [] = (r, fs')" by force
  have "fs_wf []" by (simp add: fs_wf_def fs_lookup_def)
  then show ?thesis using blob_write_effect [OF run] run by blast
qed

text \<open>
  Encryption round trip: what \<open>encrypt_chunk\<close> puts in the buffer has the length of the data,
  decrypts under the same identity, key and stored tag to the data, and its id is the one that
  \<open>gen_id\<close> recomputes from the identity when the chunk is read.
\<close>

lemma chunk_encryption_roundtrip:
  assumes "crypto_ok cr" "encrypt_chunk cr c data key = (enc, ct)"
  shows "decrypt_chunk cr c ct key (en_tag enc) = Inr data \<and> length ct = length data \<and>
    en_id enc = gen_id cr c key"
  using decrypt_encrypt_chunk [OF assms(1), of c data key] length_encrypt_chunk [OF assms(1), of c data key]
    en_id_encrypt [of cr c data key] assms(2) by simp

lemma chunk_encryption_roundtrip_witness:
  "\<exists>enc ct. encrypt_chunk demo_crates (demo_chunk_id ''a'' ''b'') [1, 2] [9] = (enc, ct) \<and>
     decrypt_chunk demo_crates (demo_chunk_id ''a'' ''b'') ct [9] (en_tag enc) = Inr [1, 2]"
proof -
  obtain enc ct where run: "encrypt_chunk demo_crates (demo_chunk_id ''a'' ''b'') [1, 2] [9] = (enc, ct)" by force
  then show ?thesis using chunk_encryption_roundtrip [OF crypto_ok_demo run] by blast
qed

end
