(* ===== verification/Blob_Store.thy ===== *)
theory Blob_Store
  imports Blob
begin

section \<open>The interface between the database and its blob files\<close>

text \<open>
  What the database relies on of the blob files: a blob that was put is there, a failed put
  leaves the old contents or a prefix of the new ones, and putting or deleting one blob leaves
  the others alone. The locale states this over any configuration \<open>'e\<close> (where blobs live),
  circumstances \<open>'p\<close> of a call (its faults, the clock), blob id \<open>'i\<close> and state \<open>'s\<close>, and
  proves once what the database needs of sequences of deletions; the interpretation proves the
  laws of \<open>blob::write\<close> and \<open>remove_file\<close> at \<open>blob::id_path\<close>.
\<close>

locale blob_store =
  fixes ok :: "'e \<Rightarrow> 'i \<Rightarrow> bool"
    and content :: "'e \<Rightarrow> 's \<Rightarrow> 'i \<Rightarrow> bytes option"
    and put :: "'e \<Rightarrow> 'p \<Rightarrow> 'i \<Rightarrow> bytes \<Rightarrow> 's \<Rightarrow> unit res \<times> 's"
    and del :: "'e \<Rightarrow> 'p \<Rightarrow> 'i \<Rightarrow> 's \<Rightarrow> 's"
  assumes put_ok: "put e p i d s = (Inr u, s') \<Longrightarrow> content e s' i = Some d"
    and put_prefix: "content e (snd (put e p i d s)) i = Some c \<Longrightarrow>
      content e s i = Some c \<or> (\<exists>n. c = take n d)"
    and put_frame: "ok e i \<Longrightarrow> ok e j \<Longrightarrow> i \<noteq> j \<Longrightarrow> content e (snd (put e p i d s)) j = content e s j"
    and del_frame: "ok e i \<Longrightarrow> ok e j \<Longrightarrow> i \<noteq> j \<Longrightarrow> content e (del e p i s) j = content e s j"
    and del_self: "content e (del e p i s) j = Some c \<Longrightarrow> content e s j = Some c"
begin

text \<open>Deleting a list of blobs.\<close>

abbreviation del_list :: "'e \<Rightarrow> 'p \<Rightarrow> 'i list \<Rightarrow> 's \<Rightarrow> 's" where
  "del_list e p is s \<equiv> fold (del e p) is s"

lemma del_list_frame:
  "\<forall>i \<in> set is. ok e i \<Longrightarrow> ok e j \<Longrightarrow> j \<notin> set is \<Longrightarrow> content e (del_list e p is s) j = content e s j"
  by (induction "is" arbitrary: s) (auto simp: del_frame)

lemma del_list_mono: "content e (del_list e p is s) j = Some c \<Longrightarrow> content e s j = Some c"
  by (induction "is" arbitrary: s) (auto dest: del_self)

text \<open>
  \<open>genuine\<close>: whatever is stored under the id of a known write is a prefix of what that write
  stores there. Every operation keeps it.
\<close>

definition genuine :: "'e \<Rightarrow> ('w \<Rightarrow> 'i) \<Rightarrow> ('w \<Rightarrow> bytes) \<Rightarrow> 'w set \<Rightarrow> 's \<Rightarrow> bool" where
  "genuine e name_of data_of W s \<longleftrightarrow>
     (\<forall>w \<in> W. \<forall>c. content e s (name_of w) = Some c \<longrightarrow> (\<exists>n. c = take n (data_of w)))"

lemma genuine_put:
  assumes "genuine e name_of data_of W s" "w \<in> W" "inj_on name_of W" "\<forall>w \<in> W. ok e (name_of w)"
  shows "genuine e name_of data_of W (snd (put e p (name_of w) (data_of w) s))"
  unfolding genuine_def
proof (intro ballI allI impI)
  fix v c
  assume v: "v \<in> W" and c: "content e (snd (put e p (name_of w) (data_of w) s)) (name_of v) = Some c"
  show "\<exists>n. c = take n (data_of v)"
  proof (cases "v = w")
    case True
    then show ?thesis using c put_prefix [of e p "name_of w" "data_of w" s c] assms(1,2)
      by (auto simp: genuine_def)
  next
    case False
    then have "name_of w \<noteq> name_of v" using assms(2,3) v by (auto dest: inj_onD)
    then have "content e s (name_of v) = Some c" using c put_frame assms(2,4) v by simp
    then show ?thesis using assms(1) v by (auto simp: genuine_def)
  qed
qed

lemma genuine_del: "genuine e name_of data_of W s \<Longrightarrow> genuine e name_of data_of W (del e p i s)"
  unfolding genuine_def by (blast dest: del_self)

lemma genuine_del_list: "genuine e name_of data_of W s \<Longrightarrow> genuine e name_of data_of W (del_list e p is s)"
  by (induction "is" arbitrary: s) (auto simp: genuine_del)

text \<open>A genuine blob of full length is the whole blob.\<close>

lemma genuine_full:
  assumes "genuine e name_of data_of W s" "w \<in> W" "content e s (name_of w) = Some c"
    "length c = length (data_of w)"
  shows "c = data_of w"
  using assms by (fastforce simp: genuine_def)

end

text \<open>
  The configuration: the crates and the root directory. The circumstances of a call: its fault
  plan and the clock.
\<close>

type_synonym blob_cfg = "crates \<times> path"
type_synonym blob_call = "fs_plan \<times> system_time"

definition be_path :: "blob_cfg \<Rightarrow> bytes \<Rightarrow> path" where
  "be_path e i = id_path (fst e) (snd e) i"

definition be_ok :: "blob_cfg \<Rightarrow> bytes \<Rightarrow> bool" where
  "be_ok e i \<longleftrightarrow> hex_ok (fst e) \<and> length i = 32"

definition blob_content :: "blob_cfg \<Rightarrow> fs \<Rightarrow> bytes \<Rightarrow> bytes option" where
  "blob_content e fs i = file_at fs (be_path e i)"

definition blob_put :: "blob_cfg \<Rightarrow> blob_call \<Rightarrow> bytes \<Rightarrow> bytes \<Rightarrow> fs \<Rightarrow> unit res \<times> fs" where
  "blob_put e p i d fs = blob_write (fst p) (snd p) (be_path e i) d fs"

text \<open>\<open>let _ = tokio::fs::remove_file(blob::id_path(root_dir, &blob_id)).await\<close>.\<close>

definition blob_del :: "blob_cfg \<Rightarrow> blob_call \<Rightarrow> bytes \<Rightarrow> fs \<Rightarrow> fs" where
  "blob_del e p i fs = snd (fs_remove_file (fst p) (snd p) (be_path e i) fs)"

lemma be_path_inject: "be_ok e i \<Longrightarrow> be_ok e j \<Longrightarrow> be_path e i = be_path e j \<longleftrightarrow> i = j"
  by (simp add: be_ok_def be_path_def id_path_inject)

interpretation blobs: blob_store be_ok blob_content blob_put blob_del
proof unfold_locales
  show "blob_content e s' i = Some d" if "blob_put e p i d s = (Inr u, s')" for e p i d s u s'
    using that blob_write_ok by (simp add: blob_put_def blob_content_def)
  show "blob_content e s i = Some c \<or> (\<exists>n. c = take n d)"
    if "blob_content e (snd (blob_put e p i d s)) i = Some c" for e p i d s c
    using that blob_write_prefix by (simp add: blob_put_def blob_content_def)
  show "blob_content e (snd (blob_put e p i d s)) j = blob_content e s j"
    if "be_ok e i" "be_ok e j" "i \<noteq> j" for e p i j d s
    using that be_path_inject [of e j i] by (simp add: blob_put_def blob_content_def blob_write_frame)
  show "blob_content e (blob_del e p i s) j = blob_content e s j"
    if "be_ok e i" "be_ok e j" "i \<noteq> j" for e p i j s
    using that be_path_inject [of e j i] by (simp add: blob_del_def blob_content_def file_at_remove_file)
  show "blob_content e s j = Some c" if "blob_content e (blob_del e p i s) j = Some c" for e p i j s c
    using that by (simp add: blob_del_def blob_content_def file_at_remove_file split: if_splits)
qed

lemma fs_wf_blob_del: "fs_wf fs \<Longrightarrow> fs_wf (blob_del e p i fs)"
  by (simp add: blob_del_def fs_wf_remove_file)

end
