(* ===== verification/Keys.thy ===== *)
theory Keys
  imports Crates
begin

section \<open>Key derivation and the sqlcipher key literal\<close>

text \<open>
  \<open>rs/v-m-io-db/src/key.rs\<close> (\<open>RootKeys::derive\<close>) and \<open>key_literal\<close> of \<open>sql.rs\<close>. The literal is
  modelled as the code builds it, a 67 byte buffer written by index; the lemmas show what ends
  up in the buffer.
\<close>

definition INFO_SQLITE :: bytes where
  "INFO_SQLITE = into_bytes ''v-m.io sqlite key v1''"

definition INFO_BLOB :: bytes where
  "INFO_BLOB = into_bytes ''v-m.io blob root key v1''"

record root_keys =
  rk_sqlite :: bytes
  rk_blob :: bytes

definition derive_root_keys :: "crates \<Rightarrow> bytes \<Rightarrow> root_keys" where
  "derive_root_keys cr master =
     \<lparr>rk_sqlite = hkdf cr None master INFO_SQLITE, rk_blob = hkdf cr None master INFO_BLOB\<rparr>"

text \<open>\<open>HEX_CHARS[(byte >> 4) as usize]\<close> and \<open>HEX_CHARS[(byte & 0x0f) as usize]\<close>.\<close>

definition HEX_CHARS :: bytes where
  "HEX_CHARS = into_bytes ''0123456789abcdef''"

definition hex_hi :: "u8 \<Rightarrow> u8" where
  "hex_hi byte = HEX_CHARS ! unat (drop_bit 4 byte)"

definition hex_lo :: "u8 \<Rightarrow> u8" where
  "hex_lo byte = HEX_CHARS ! unat (byte AND 0x0f)"

text \<open>The loop over \<open>secret.iter().enumerate()\<close>.\<close>

fun key_literal_loop :: "nat \<Rightarrow> bytes \<Rightarrow> bytes \<Rightarrow> bytes" where
  "key_literal_loop i [] buf = buf"
| "key_literal_loop i (byte # rest) buf =
     key_literal_loop (Suc i) rest (buf[i * 2 + 2 := hex_hi byte, i * 2 + 3 := hex_lo byte])"

definition key_literal :: "bytes \<Rightarrow> bytes" where
  "key_literal secret =
     key_literal_loop 0 secret
       ((replicate 67 0)[0 := byte_of_char (CHR ''x''), 1 := byte_of_char (CHR 0x27),
         66 := byte_of_char (CHR 0x27)])"

text \<open>The reference: two digits per byte.\<close>

definition hex_pairs :: "bytes \<Rightarrow> bytes" where
  "hex_pairs bs = concat (map (\<lambda>b. [hex_hi b, hex_lo b]) bs)"

lemma hex_pairs_simps [simp]:
  "hex_pairs [] = []" "hex_pairs (b # bs) = hex_hi b # hex_lo b # hex_pairs bs"
  by (simp_all add: hex_pairs_def)

lemma length_hex_pairs [simp]: "length (hex_pairs bs) = 2 * length bs"
  by (induction bs) auto

lemma key_literal_loop_eq:
  "length pre = i * 2 + 2 \<Longrightarrow>
   key_literal_loop i bs (pre @ replicate (2 * length bs) 0 @ post) = pre @ hex_pairs bs @ post"
proof (induction bs arbitrary: i pre)
  case Nil
  then show ?case by simp
next
  case (Cons b bs)
  have "key_literal_loop i (b # bs) (pre @ replicate (2 * length (b # bs)) 0 @ post)
      = key_literal_loop (Suc i) bs ((pre @ [hex_hi b, hex_lo b]) @ replicate (2 * length bs) 0 @ post)"
    using Cons.prems by (simp add: list_update_append)
  also have "\<dots> = (pre @ [hex_hi b, hex_lo b]) @ hex_pairs bs @ post"
    using Cons.prems by (intro Cons.IH) simp
  finally show ?case by simp
qed

lemma key_literal_eq:
  assumes "length secret = 32"
  shows "key_literal secret = into_bytes [CHR ''x'', CHR 0x27] @ hex_pairs secret @ into_bytes [CHR 0x27]"
proof -
  let ?q = "byte_of_char (CHR 0x27)"
  have "(replicate 67 0)[0 := byte_of_char (CHR ''x''), 1 := ?q, 66 := ?q]
      = [byte_of_char (CHR ''x''), ?q] @ replicate (2 * length secret) 0 @ [?q]"
    by (simp add: assms numeral_eq_Suc)
  then show ?thesis
    unfolding key_literal_def
    by (simp only:) (subst key_literal_loop_eq, simp_all add: into_bytes_def)
qed

subsection \<open>The digits\<close>

lemma unat_drop_bit_4: "unat (drop_bit 4 (b :: u8)) = unat b div 16"
  unfolding unat_drop_bit_eq by (simp add: drop_bit_eq_div)

lemma unat_and_15: "unat ((b :: u8) AND 0x0f) = unat b mod 16"
proof -
  have "b AND 0x0f = take_bit 4 b" by (simp add: take_bit_eq_mask mask_eq_exp_minus_1)
  then have "unat (b AND 0x0f) = take_bit 4 (unat b)" by (simp only: unsigned_take_bit_eq)
  then show ?thesis by (simp add: take_bit_eq_mod)
qed

lemma unat_byte_less [simp]: "unat (b :: u8) < 256"
  using unsigned_less [of b, where 'a = nat] by simp

lemma length_HEX_CHARS [simp]: "length HEX_CHARS = 16"
  by (simp add: HEX_CHARS_def)

lemma distinct_HEX_CHARS: "distinct HEX_CHARS"
  by (simp add: HEX_CHARS_def into_bytes_def)

lemma hex_hi_inject: "hex_hi a = hex_hi b \<longleftrightarrow> unat a div 16 = unat b div 16"
  using nth_eq_iff_index_eq [OF distinct_HEX_CHARS, of "unat a div 16" "unat b div 16"]
  by (simp add: hex_hi_def unat_drop_bit_4 less_mult_imp_div_less)

lemma hex_lo_inject: "hex_lo a = hex_lo b \<longleftrightarrow> unat a mod 16 = unat b mod 16"
  using nth_eq_iff_index_eq [OF distinct_HEX_CHARS, of "unat a mod 16" "unat b mod 16"]
  by (simp add: hex_lo_def unat_and_15)

lemma hex_pair_inject: "hex_hi a = hex_hi b \<and> hex_lo a = hex_lo b \<longleftrightarrow> a = b"
  unfolding hex_hi_inject hex_lo_inject by (metis div_mult_mod_eq word_unat_eq_iff)

lemma hex_pairs_inject: "hex_pairs as = hex_pairs bs \<longleftrightarrow> as = bs"
proof (induction as arbitrary: bs)
  case Nil
  then show ?case by (cases bs) auto
next
  case (Cons a as)
  then show ?case using hex_pair_inject by (cases bs) auto
qed

lemma set_hex_pairs: "set (hex_pairs bs) \<subseteq> set HEX_CHARS"
  by (induction bs) (auto simp: hex_hi_def hex_lo_def unat_drop_bit_4 unat_and_15
      less_mult_imp_div_less intro!: nth_mem)

end
