(* ===== verification/Db.thy ===== *)
theory Db
  imports Sql_Facts Blob_Store Keys
begin

section \<open>The database: entries in sqlite, chunks in blob files\<close>

text \<open>
  \<open>rs/v-m-io-db/src/lib.rs\<close>: the operations of \<open>VmIoDb\<close> on the committed tables and the file
  system, and the prune pass. A call gets the faults of its sqlite and file system calls and
  the clock as its \<open>db_env\<close>. \<open>upsert_chunk\<close> is cut where the code awaits another component, so
  that the phases can also be interleaved with other tasks.
\<close>

record vm_io_db =
  root_dir :: path
  blob_key :: bytes

record store =
  st_sql :: tables
  st_fs :: fs

record db_env =
  ev_sql :: sql_plan
  ev_fs :: fs_plan
  ev_now :: system_time

definition ok_env :: db_env where
  "ok_env = \<lparr>ev_sql = sql_ok, ev_fs = no_faults, ev_now = 0\<rparr>"

definition cfg_of :: "crates \<Rightarrow> vm_io_db \<Rightarrow> blob_cfg" where
  "cfg_of cr db = (cr, root_dir db)"

definition call_of :: "db_env \<Rightarrow> blob_call" where
  "call_of ev = (ev_fs ev, ev_now ev)"

subsection \<open>Entries\<close>

definition db_upsert ::
  "db_env \<Rightarrow> string \<Rightarrow> string \<Rightarrow> int \<Rightarrow> int option \<Rightarrow> bytes option \<Rightarrow> store \<Rightarrow> bool res \<times> store" where
  "db_upsert ev class key modified_at_micros expires_at_micros metadata s =
     (if length class > 256 then (Inl (io_other ''class cannot be > 256 bytes''), s)
      else if length key > 1024 then (Inl (io_other ''key cannot be > 1024 bytes''), s)
      else if (case metadata of Some m \<Rightarrow> length m > 4096 | None \<Rightarrow> False) then
        (Inl (io_other ''metadata cannot be > 4096 bytes''), s)
      else (case sql_upsert (ev_sql ev) class key modified_at_micros expires_at_micros metadata (st_sql s) of
        (r, t) \<Rightarrow> (r, s\<lparr>st_sql := t\<rparr>)))"

definition db_rm :: "crates \<Rightarrow> vm_io_db \<Rightarrow> db_env \<Rightarrow> string \<Rightarrow> string \<Rightarrow> store \<Rightarrow> unit res \<times> store" where
  "db_rm cr db ev class key s =
     (case sql_rm (ev_sql ev) class key (st_sql s) of
        (Inl e, t) \<Rightarrow> (Inl e, s\<lparr>st_sql := t\<rparr>)
      | (Inr blob_ids, t) \<Rightarrow>
          (Inr (), \<lparr>st_sql = t, st_fs = fold (blob_del (cfg_of cr db) (call_of ev)) blob_ids (st_fs s)\<rparr>))"

definition db_get :: "db_env \<Rightarrow> string \<Rightarrow> string \<Rightarrow> store \<Rightarrow> (db_entry option) res" where
  "db_get ev class key s = sql_get (ev_sql ev) class key (st_sql s)"

definition db_list ::
  "db_env \<Rightarrow> string \<Rightarrow> list_filter \<Rightarrow> list_sort \<Rightarrow> int \<Rightarrow> store \<Rightarrow> (db_entry list) res" where
  "db_list ev class flt srt limit s = sql_list (ev_sql ev) class flt srt limit (st_sql s)"

subsection \<open>Chunks\<close>

definition CHUNK_SIZE :: nat where
  "CHUNK_SIZE = 1024 * 1024 * 5"

definition check_chunk_size :: "nat \<Rightarrow> bool \<Rightarrow> unit res" where
  "check_chunk_size len is_final =
     (if \<not> is_final \<and> len \<noteq> CHUNK_SIZE then Inl (io_other ''non-final chunks must be 5 MiB'')
      else if is_final \<and> len > CHUNK_SIZE then Inl (io_other ''final chunks cannot be > 5 MiB'')
      else Inr ())"

text \<open>What the code computes before the first await: the row to store and the encrypted data.\<close>

definition prepare_chunk ::
  "crates \<Rightarrow> vm_io_db \<Rightarrow> string \<Rightarrow> string \<Rightarrow> int \<Rightarrow> bytes \<Rightarrow> bool \<Rightarrow> chunk_row \<times> bytes" where
  "prepare_chunk cr db class key idx data is_final =
     (let hash = sha256 cr data;
          (enc, data') = encrypt_chunk cr
            \<lparr>ci_class = class, ci_key = key, ci_idx = idx, ci_hash = hash, ci_is_final = is_final\<rparr>
            data (blob_key db)
      in (\<lparr>c_class = class, c_key = key, c_idx = idx, c_blob_id = en_id enc, c_hash = hash,
           c_tag = en_tag enc, c_size = int (length data'), c_is_final = is_final\<rparr>, data'))"

text \<open>\<open>Ok(meta) if meta.len() == data.len() as u64\<close>: the file is already there.\<close>

definition blob_present :: "fs_plan \<Rightarrow> path \<Rightarrow> nat \<Rightarrow> fs \<Rightarrow> bool" where
  "blob_present pl p len fs = (case fs_metadata pl p fs of
      Inr meta \<Rightarrow> meta_len pl p meta = len | Inl _ \<Rightarrow> False)"

text \<open>Phase 1 writes the blob file unless it is there; the value is \<open>wrote\<close>.\<close>

definition chunk_write_phase ::
  "crates \<Rightarrow> vm_io_db \<Rightarrow> db_env \<Rightarrow> chunk_row \<Rightarrow> bytes \<Rightarrow> fs \<Rightarrow> bool res \<times> fs" where
  "chunk_write_phase cr db ev row data fs =
     (if blob_present (ev_fs ev) (be_path (cfg_of cr db) (c_blob_id row)) (length data) fs
      then (Inr False, fs)
      else (case blob_put (cfg_of cr db) (call_of ev) (c_blob_id row) data fs of
          (Inl e, fs') \<Rightarrow> (Inl e, fs')
        | (Inr _, fs') \<Rightarrow> (Inr True, fs')))"

text \<open>Phase 3, after the row was committed or refused.\<close>

definition chunk_finish_phase ::
  "crates \<Rightarrow> vm_io_db \<Rightarrow> db_env \<Rightarrow> bool \<Rightarrow> chunk_row \<Rightarrow> bytes option res \<Rightarrow> fs \<Rightarrow> unit res \<times> fs" where
  "chunk_finish_phase cr db ev wrote row r fs =
     (case r of
        Inl e \<Rightarrow>
          (Inl e, if wrote then blob_del (cfg_of cr db) (call_of ev) (c_blob_id row) fs else fs)
      | Inr None \<Rightarrow> (Inr (), fs)
      | Inr (Some prev) \<Rightarrow> (Inr (), blob_del (cfg_of cr db) (call_of ev) prev fs))"

definition db_upsert_chunk ::
  "crates \<Rightarrow> vm_io_db \<Rightarrow> db_env \<Rightarrow> string \<Rightarrow> string \<Rightarrow> int \<Rightarrow> bytes \<Rightarrow> bool \<Rightarrow> store \<Rightarrow> unit res \<times> store" where
  "db_upsert_chunk cr db ev class key idx data is_final s =
     (case check_chunk_size (length data) is_final of
        Inl e \<Rightarrow> (Inl e, s)
      | Inr _ \<Rightarrow>
          (let (row, data') = prepare_chunk cr db class key idx data is_final in
           case chunk_write_phase cr db ev row data' (st_fs s) of
             (Inl e, fs1) \<Rightarrow> (Inl e, s\<lparr>st_fs := fs1\<rparr>)
           | (Inr wrote, fs1) \<Rightarrow>
               (let (r, t) = sql_upsert_chunk (ev_sql ev) row (st_sql s);
                    (res, fs2) = chunk_finish_phase cr db ev wrote row r fs1
                in (res, \<lparr>st_sql = t, st_fs = fs2\<rparr>))))"

definition db_get_chunk ::
  "crates \<Rightarrow> vm_io_db \<Rightarrow> db_env \<Rightarrow> string \<Rightarrow> string \<Rightarrow> int \<Rightarrow> bool \<Rightarrow> store \<Rightarrow> (bytes option) res" where
  "db_get_chunk cr db ev class key idx is_final s =
     and_then (sql_get_chunk (ev_sql ev) class key idx (st_sql s)) (\<lambda>found.
     case found of
       None \<Rightarrow> Inr None
     | Some chunk \<Rightarrow>
         if is_final \<noteq> k_is_final chunk then Inl (io_other ''chunk finality mismatch'')
         else
           (let chunk_id = \<lparr>ci_class = class, ci_key = key, ci_idx = idx, ci_hash = k_hash chunk,
                  ci_is_final = is_final\<rparr>;
                path = id_path cr (root_dir db) (gen_id cr chunk_id (blob_key db))
            in and_then (fs_read (ev_fs ev) path (st_fs s)) (\<lambda>data.
               if int (length data) \<noteq> k_size chunk then Inl (io_other ''corrupted chunk'')
               else and_then (decrypt_chunk cr chunk_id data (blob_key db) (k_tag chunk))
                 (\<lambda>plain. Inr (Some plain)))))"

subsection \<open>Pruning\<close>

definition PRUNE_BATCH :: nat where
  "PRUNE_BATCH = 256"

text \<open>
  \<open>while let Ok(now_micros) = unix_micros()\<close>: one environment per round. Each full batch removes
  entries, which bounds the rounds.
\<close>

function prune_backlog ::
  "crates \<Rightarrow> vm_io_db \<Rightarrow> (nat \<Rightarrow> db_env) \<Rightarrow> nat \<Rightarrow> store \<Rightarrow> unit res \<times> store" where
  "prune_backlog cr db envs n s =
     (case micros_since_epoch (ev_now (envs n)) of
        None \<Rightarrow> (Inr (), s)
      | Some now_micros \<Rightarrow>
          (case sql_prune_expired (ev_sql (envs n)) now_micros (int PRUNE_BATCH) (st_sql s) of
             (Inl e, t) \<Rightarrow> (Inl e, s\<lparr>st_sql := t\<rparr>)
           | (Inr (count, blob_ids), t) \<Rightarrow>
               (let s' = \<lparr>st_sql = t,
                     st_fs = fold (blob_del (cfg_of cr db) (call_of (envs n))) blob_ids (st_fs s)\<rparr>
                in if count < PRUNE_BATCH then (Inr (), s')
                   else prune_backlog cr db envs (Suc n) s')))"
  by pat_completeness auto

lemma length_exec_delete:
  "(n, t') = exec_delete P t \<Longrightarrow> length (entries t') + n = length (entries t)"
  using sum_length_filter_compl [of "\<lambda>r. P (e_pk r)" "entries t"] by (simp add: exec_delete_def)

lemma prune_backlog_measure:
  assumes "sql_prune_expired pl now (int PRUNE_BATCH) (st_sql s) = (Inr (count, out), t)"
    "\<not> count < PRUNE_BATCH"
  shows "length (entries t) < length (entries (st_sql s))"
proof -
  have "length (entries t) + count = length (entries (st_sql s))" "0 < count"
    using assms by (auto simp: PRUNE_BATCH_def dest!: sql_prune_expired_Inr length_exec_delete)
  then show ?thesis by simp
qed

termination prune_backlog
  by (relation "measure (\<lambda>(cr, db, envs, n, s). length (entries (st_sql s)))")
    (auto dest!: sym [where t = "sql_prune_expired _ _ _ _"] dest: prune_backlog_measure)

declare prune_backlog.simps [simp del]

end
