(* ===== verification/Db_Refine.thy ===== *)
theory Db_Refine
  imports Db
begin

section \<open>The database refines two maps\<close>

text \<open>
  The specification of the database: a map of entries and a map of chunks, with the obvious
  operations (\<open>adb\<close>). \<open>store_rep\<close> relates it to the tables and the files: the rows are the rows
  of the map's chunks, and the blob file of every chunk is complete. Under the hypotheses of
  \<open>db_hyps\<close> (the crates, and no two different writes with one blob id) every operation keeps
  the relation, on every path through its code.
\<close>

subsection \<open>Writes\<close>

text \<open>A write is a chunk's place, its plain data and its finality.\<close>

type_synonym chunk_write = "chunk_pk \<times> bytes \<times> bool"

fun w_prepared :: "crates \<Rightarrow> vm_io_db \<Rightarrow> chunk_write \<Rightarrow> chunk_row \<times> bytes" where
  "w_prepared cr db ((class, key, idx), data, is_final) = prepare_chunk cr db class key idx data is_final"

definition w_row :: "crates \<Rightarrow> vm_io_db \<Rightarrow> chunk_write \<Rightarrow> chunk_row" where
  "w_row cr db w = fst (w_prepared cr db w)"

definition w_data :: "crates \<Rightarrow> vm_io_db \<Rightarrow> chunk_write \<Rightarrow> bytes" where
  "w_data cr db w = snd (w_prepared cr db w)"

definition w_id :: "crates \<Rightarrow> vm_io_db \<Rightarrow> chunk_write \<Rightarrow> bytes" where
  "w_id cr db w = c_blob_id (w_row cr db w)"

fun w_ci :: "crates \<Rightarrow> chunk_write \<Rightarrow> chunk_id" where
  "w_ci cr ((class, key, idx), data, is_final) =
     \<lparr>ci_class = class, ci_key = key, ci_idx = idx, ci_hash = sha256 cr data, ci_is_final = is_final\<rparr>"

lemma write_cases:
  obtains cl key idx data is_final where "w = ((cl, key, idx), data, is_final)"
  by (metis surj_pair)

lemma w_row_eq:
  "w_row cr db ((class, key, idx), data, is_final) =
     (let w = ((class, key, idx), data, is_final); enc = encrypt_chunk cr (w_ci cr w) data (blob_key db) in
      \<lparr>c_class = class, c_key = key, c_idx = idx, c_blob_id = gen_id cr (w_ci cr w) (blob_key db),
       c_hash = sha256 cr data, c_tag = en_tag (fst enc), c_size = int (length (snd enc)),
       c_is_final = is_final\<rparr>)"
  by (simp add: w_row_def prepare_chunk_def Let_def case_prod_beta)

lemma w_data_eq: "w_data cr db w = snd (encrypt_chunk cr (w_ci cr w) (fst (snd w)) (blob_key db))"
  by (cases w rule: write_cases) (simp add: w_data_def prepare_chunk_def Let_def case_prod_beta)

lemma w_id_eq: "w_id cr db w = gen_id cr (w_ci cr w) (blob_key db)"
  by (cases w rule: write_cases) (simp add: w_id_def w_row_eq Let_def)

lemma c_blob_id_w_row [simp]: "c_blob_id (w_row cr db w) = w_id cr db w"
  by (simp add: w_id_def)

lemma c_pk_w_row [simp]: "c_pk (w_row cr db w) = fst w"
  by (cases w rule: write_cases) (simp add: w_row_eq Let_def c_pk_def)

lemma length_w_id [simp]: "crypto_ok cr \<Longrightarrow> length (w_id cr db w) = 32"
  by (simp add: w_id_eq)

lemma length_w_data [simp]: "crypto_ok cr \<Longrightarrow> length (w_data cr db w) = length (fst (snd w))"
  by (simp add: w_data_eq)

lemma prepare_chunk_eq:
  "prepare_chunk cr db class key idx data is_final =
     (w_row cr db ((class, key, idx), data, is_final), w_data cr db ((class, key, idx), data, is_final))"
  by (simp add: w_row_def w_data_def)

definition db_hyps :: "crates \<Rightarrow> vm_io_db \<Rightarrow> chunk_write set \<Rightarrow> bool" where
  "db_hyps cr db U \<longleftrightarrow> crypto_ok cr \<and> hex_ok cr \<and> inj_on (w_id cr db) U"

lemma db_hyps_ok [simp]: "db_hyps cr db U \<Longrightarrow> be_ok (cfg_of cr db) (w_id cr db w)"
  by (simp add: db_hyps_def be_ok_def cfg_of_def)

lemma db_hyps_inj: "db_hyps cr db U \<Longrightarrow> v \<in> U \<Longrightarrow> w \<in> U \<Longrightarrow> w_id cr db v = w_id cr db w \<longleftrightarrow> v = w"
  by (auto simp: db_hyps_def dest: inj_onD)

subsection \<open>The specification\<close>

record adb =
  a_entries :: "entry_pk \<Rightarrow> entry_row option"
  a_chunks :: "chunk_pk \<Rightarrow> (bytes \<times> bool) option"

definition a_empty :: adb where
  "a_empty = \<lparr>a_entries = Map.empty, a_chunks = Map.empty\<rparr>"

definition a_put_entry :: "entry_row \<Rightarrow> adb \<Rightarrow> adb" where
  "a_put_entry row a = a\<lparr>a_entries := (a_entries a)(e_pk row \<mapsto> row)\<rparr>"

definition a_put_chunk :: "chunk_write \<Rightarrow> adb \<Rightarrow> adb" where
  "a_put_chunk w a = a\<lparr>a_chunks := (a_chunks a)(fst w \<mapsto> snd w)\<rparr>"

text \<open>Removing entries removes their chunks.\<close>

definition a_del :: "(entry_pk \<Rightarrow> bool) \<Rightarrow> adb \<Rightarrow> adb" where
  "a_del P a = \<lparr>a_entries = (\<lambda>k. if P k then None else a_entries a k),
     a_chunks = (\<lambda>(c, k, i). if P (c, k) then None else a_chunks a (c, k, i))\<rparr>"

lemma a_del_simps [simp]:
  "a_entries (a_del P a) k = (if P k then None else a_entries a k)"
  "a_chunks (a_del P a) (c, k', i) = (if P (c, k') then None else a_chunks a (c, k', i))"
  by (simp_all add: a_del_def)

lemma a_del_False [simp]: "a_del (\<lambda>k. False) a = a"
  by (simp add: a_del_def)

lemma a_del_a_del: "a_del Q (a_del P a) = a_del (\<lambda>k. P k \<or> Q k) a"
  by (auto simp: a_del_def)

subsection \<open>The representation\<close>

definition no_blob_dirs :: "crates \<Rightarrow> vm_io_db \<Rightarrow> fs \<Rightarrow> bool" where
  "no_blob_dirs cr db fs \<longleftrightarrow> (\<forall>i. length i = 32 \<longrightarrow> \<not> is_dir fs (be_path (cfg_of cr db) i))"

definition store_rep :: "crates \<Rightarrow> vm_io_db \<Rightarrow> chunk_write set \<Rightarrow> adb \<Rightarrow> store \<Rightarrow> bool" where
  "store_rep cr db U a s \<longleftrightarrow>
     tables_wf (st_sql s) \<and>
     (\<forall>k. q_entry k (st_sql s) = a_entries a k) \<and>
     (\<forall>k. q_chunk k (st_sql s) = map_option (\<lambda>df. w_row cr db (k, df)) (a_chunks a k)) \<and>
     (\<forall>k df. a_chunks a k = Some df \<longrightarrow> (k, df) \<in> U \<and>
        blob_content (cfg_of cr db) (st_fs s) (w_id cr db (k, df)) = Some (w_data cr db (k, df))) \<and>
     blobs.genuine (cfg_of cr db) (w_id cr db) (w_data cr db) U (st_fs s) \<and>
     no_blob_dirs cr db (st_fs s)"

lemma store_repD:
  assumes "store_rep cr db U a s"
  shows "tables_wf (st_sql s)"
    and "q_entry k (st_sql s) = a_entries a k"
    and "q_chunk k' (st_sql s) = map_option (\<lambda>df. w_row cr db (k', df)) (a_chunks a k')"
    and "a_chunks a k' = Some df \<Longrightarrow> (k', df) \<in> U"
    and "a_chunks a k' = Some df \<Longrightarrow>
      blob_content (cfg_of cr db) (st_fs s) (w_id cr db (k', df)) = Some (w_data cr db (k', df))"
    and "blobs.genuine (cfg_of cr db) (w_id cr db) (w_data cr db) U (st_fs s)"
    and "no_blob_dirs cr db (st_fs s)"
  using assms unfolding store_rep_def by blast+

text \<open>A row of the tables is the row of a chunk of the map.\<close>

lemma store_rep_row:
  assumes "store_rep cr db U a s" "r \<in> set (chunks (st_sql s))"
  obtains df where "a_chunks a (c_pk r) = Some df" "r = w_row cr db (c_pk r, df)"
proof -
  have "q_chunk (c_pk r) (st_sql s) = Some r"
    using assms by (simp add: q_chunk_Some store_repD(1))
  then show ?thesis using store_repD(3) [OF assms(1), of "c_pk r"] that by auto
qed

subsection \<open>What the blob operations do to the representation\<close>

lemma is_dir_touch_remove: "is_dir (snd (fs_remove_file pl now p fs)) q \<Longrightarrow> is_dir fs q"
  by (auto simp: fs_remove_file_def is_dir_def split: option.splits node.splits if_splits)

lemma is_dir_create_dirs:
  "is_dir (snd (create_dirs pl now pre cs fs)) q \<Longrightarrow> is_dir fs q \<or> length q \<le> length pre + length cs"
proof (induction pl now pre cs fs rule: create_dirs.induct)
  case (1 pl now pre fs)
  then show ?case by simp
next
  case (2 pl now pre c cs fs)
  have *: "is_dir fs q \<or> q = pre @ [c]"
    if "is_dir (AList.update (pre @ [c]) (Dir now) (touch now pre fs)) q"
    using that by (auto simp: is_dir_def split: if_splits)
  show ?case
  proof (cases "fs_lookup fs (pre @ [c])")
    case None
    show ?thesis
    proof (cases "fp_err pl OpCreateDir (pre @ [c])")
      case err: None
      let ?fs1 = "AList.update (pre @ [c]) (Dir now) (touch now pre fs)"
      have "is_dir ?fs1 q \<or> length q \<le> length (pre @ [c]) + length cs"
        using "2.IH"(1) [OF refl None err] "2.prems" None err by (simp add: Let_def)
      moreover have "length q \<le> length pre + length (c # cs)" if "q = pre @ [c]"
        using that by simp
      ultimately show ?thesis using * by fastforce
    qed (use None "2.prems" in \<open>simp add: Let_def\<close>)
  next
    case (Some n)
    show ?thesis
    proof (cases n)
      case (Dir t)
      with Some "2.IH"(2) [OF refl, of "Dir t" t] "2.prems" show ?thesis by (simp add: Let_def)
    qed (use Some "2.prems" in \<open>simp add: Let_def\<close>)
  qed
qed

lemma is_dir_put_file: "is_dir (put_file now p d fs) q \<Longrightarrow> is_dir fs q"
  by (auto simp: put_file_def is_dir_def split: if_splits)

lemma is_dir_fs_write: "is_dir (snd (fs_write pl now a p d fs)) q \<Longrightarrow> is_dir fs q"
  by (auto simp: fs_write_def split: if_splits option.splits dest: is_dir_put_file)

lemma is_dir_write_attempts:
  "is_dir (snd (write_attempts pl now p d as fs)) q \<Longrightarrow> length p \<le> length q \<Longrightarrow> p \<noteq> [] \<Longrightarrow> is_dir fs q"
proof (induction pl now p d as fs rule: write_attempts.induct)
  case (1 pl now p data fs)
  then show ?case by simp
next
  case (2 pl now p data a attempts fs)
  have small: "\<not> length q \<le> length (butlast p)" using "2.prems"(2,3) by (cases p) auto
  have *: "is_dir fs q" if "create_dir_all pl now (butlast p) fs = (r, fs1)" "is_dir fs1 q" for r fs1
    using is_dir_create_dirs [of pl now "[]" "butlast p" fs q] that small by (simp add: create_dir_all_def)
  have **: "is_dir fs1 q" if "fs_write pl now a p data fs1 = (r, fs2)" "is_dir fs2 q" for r fs1 fs2
    using is_dir_fs_write [of pl now a p data fs1 q] that by simp
  from 2 show ?case by (auto split: prod.splits sum.splits if_splits dest: ** *)
qed

lemma no_blob_dirs_put: "no_blob_dirs cr db fs \<Longrightarrow> no_blob_dirs cr db (snd (blob_put (cfg_of cr db) p i d fs))"
  unfolding no_blob_dirs_def
  by (auto simp: blob_put_def blob_write_def be_path_def length_id_path dest!: is_dir_write_attempts)

lemma no_blob_dirs_del: "no_blob_dirs cr db fs \<Longrightarrow> no_blob_dirs cr db (blob_del e p i fs)"
  unfolding no_blob_dirs_def blob_del_def by (auto dest: is_dir_touch_remove)

lemma no_blob_dirs_del_list: "no_blob_dirs cr db fs \<Longrightarrow> no_blob_dirs cr db (fold (blob_del e p) ids fs)"
  by (induction ids arbitrary: fs) (simp_all add: no_blob_dirs_del)

text \<open>Only the files of the map's chunks matter.\<close>

lemma store_rep_fs:
  assumes "store_rep cr db U a s"
    and "blobs.genuine (cfg_of cr db) (w_id cr db) (w_data cr db) U fs'" "no_blob_dirs cr db fs'"
    and "\<And>k df. a_chunks a k = Some df \<Longrightarrow>
      blob_content (cfg_of cr db) fs' (w_id cr db (k, df)) = blob_content (cfg_of cr db) (st_fs s) (w_id cr db (k, df))"
  shows "store_rep cr db U a (s\<lparr>st_fs := fs'\<rparr>)"
  using assms unfolding store_rep_def by simp

text \<open>The representation but for the file of one write, which may be missing or incomplete.\<close>

definition store_rep_but :: "crates \<Rightarrow> vm_io_db \<Rightarrow> chunk_write set \<Rightarrow> adb \<Rightarrow> chunk_write \<Rightarrow> store \<Rightarrow> bool" where
  "store_rep_but cr db U a w s \<longleftrightarrow>
     tables_wf (st_sql s) \<and>
     (\<forall>k. q_entry k (st_sql s) = a_entries a k) \<and>
     (\<forall>k. q_chunk k (st_sql s) = map_option (\<lambda>df. w_row cr db (k, df)) (a_chunks a k)) \<and>
     (\<forall>k df. a_chunks a k = Some df \<longrightarrow> (k, df) \<in> U \<and> ((k, df) \<noteq> w \<longrightarrow>
        blob_content (cfg_of cr db) (st_fs s) (w_id cr db (k, df)) = Some (w_data cr db (k, df)))) \<and>
     blobs.genuine (cfg_of cr db) (w_id cr db) (w_data cr db) U (st_fs s) \<and>
     no_blob_dirs cr db (st_fs s)"

lemma store_rep_but_iff:
  "store_rep cr db U a s \<longleftrightarrow> store_rep_but cr db U a w s \<and>
     (a_chunks a (fst w) = Some (snd w) \<longrightarrow> blob_content (cfg_of cr db) (st_fs s) (w_id cr db w) = Some (w_data cr db w))"
proof -
  obtain k df where "w = (k, df)" by (cases w)
  then show ?thesis unfolding store_rep_def store_rep_but_def by (auto simp del: split_paired_All)
qed

lemma store_rep_butD:
  assumes "store_rep_but cr db U a w s"
  shows "tables_wf (st_sql s)"
    and "q_entry k (st_sql s) = a_entries a k"
    and "q_chunk k' (st_sql s) = map_option (\<lambda>df. w_row cr db (k', df)) (a_chunks a k')"
    and "a_chunks a k' = Some df \<Longrightarrow> (k', df) \<in> U"
    and "a_chunks a k' = Some df \<Longrightarrow> (k', df) \<noteq> w \<Longrightarrow>
      blob_content (cfg_of cr db) (st_fs s) (w_id cr db (k', df)) = Some (w_data cr db (k', df))"
    and "blobs.genuine (cfg_of cr db) (w_id cr db) (w_data cr db) U (st_fs s)"
    and "no_blob_dirs cr db (st_fs s)"
  using assms unfolding store_rep_but_def by blast+

lemma store_rep_but_fs:
  assumes "store_rep_but cr db U a w s"
    and "blobs.genuine (cfg_of cr db) (w_id cr db) (w_data cr db) U fs'" "no_blob_dirs cr db fs'"
    and "\<And>v. v \<in> U \<Longrightarrow> v \<noteq> w \<Longrightarrow> blob_content (cfg_of cr db) fs' (w_id cr db v) = blob_content (cfg_of cr db) (st_fs s) (w_id cr db v)"
  shows "store_rep_but cr db U a w (s\<lparr>st_fs := fs'\<rparr>)"
  unfolding store_rep_but_def using store_rep_butD [OF assms(1)] assms(2-4) by (simp del: split_paired_All)

text \<open>Deleting blobs that no chunk of the map uses.\<close>

lemma store_rep_del_list:
  assumes "db_hyps cr db U" "store_rep cr db U a s"
    and "\<And>i. i \<in> set ids \<Longrightarrow> be_ok (cfg_of cr db) i"
    and "\<And>k df. a_chunks a k = Some df \<Longrightarrow> w_id cr db (k, df) \<notin> set ids"
  shows "store_rep cr db U a (s\<lparr>st_fs := fold (blob_del (cfg_of cr db) p) ids (st_fs s)\<rparr>)"
proof (rule store_rep_fs [OF assms(2)])
  show "blobs.genuine (cfg_of cr db) (w_id cr db) (w_data cr db) U
      (fold (blob_del (cfg_of cr db) p) ids (st_fs s))"
    by (rule blobs.genuine_del_list [OF store_repD(6) [OF assms(2)]])
  show "no_blob_dirs cr db (fold (blob_del (cfg_of cr db) p) ids (st_fs s))"
    by (rule no_blob_dirs_del_list [OF store_repD(7) [OF assms(2)]])
  fix k df
  assume "a_chunks a k = Some df"
  then show "blob_content (cfg_of cr db) (fold (blob_del (cfg_of cr db) p) ids (st_fs s)) (w_id cr db (k, df))
      = blob_content (cfg_of cr db) (st_fs s) (w_id cr db (k, df))"
    using assms(1,3,4) by (intro blobs.del_list_frame) auto
qed

text \<open>Deleting entries in the tables; the blobs of their chunks are then not used.\<close>

lemma store_rep_delete_rows:
  assumes "store_rep cr db U a s"
  shows "store_rep cr db U (a_del P a) (s\<lparr>st_sql := snd (exec_delete P (st_sql s))\<rparr>)"
proof -
  let ?t = "snd (exec_delete P (st_sql s))"
  show ?thesis
    unfolding store_rep_def
  proof (intro conjI allI impI)
    show "tables_wf (st_sql (s\<lparr>st_sql := ?t\<rparr>))"
      using store_repD(1) [OF assms] by (simp add: tables_wf_delete)
    show "q_entry k (st_sql (s\<lparr>st_sql := ?t\<rparr>)) = a_entries (a_del P a) k" for k
      by (simp add: q_entry_delete store_repD(2) [OF assms])
    show "q_chunk k (st_sql (s\<lparr>st_sql := ?t\<rparr>)) = map_option (\<lambda>df. w_row cr db (k, df)) (a_chunks (a_del P a) k)" for k
      by (cases k) (simp add: q_chunk_delete store_repD(3) [OF assms])
    fix k df
    assume "a_chunks (a_del P a) k = Some df"
    then have "a_chunks a k = Some df" by (cases k) (auto split: if_splits)
    then show "(k, df) \<in> U" and "blob_content (cfg_of cr db) (st_fs (s\<lparr>st_sql := ?t\<rparr>)) (w_id cr db (k, df))
        = Some (w_data cr db (k, df))"
      using store_repD(4,5) [OF assms] by simp_all
  qed (use store_repD(6,7) [OF assms] in simp_all)
qed

lemma deleted_blob:
  assumes hyps: "db_hyps cr db U" and rep: "store_rep cr db U a s" and i: "i \<in> set (q_blob_ids P (st_sql s))"
  shows "be_ok (cfg_of cr db) i" and "a_chunks (a_del P a) k = Some df \<Longrightarrow> w_id cr db (k, df) \<noteq> i"
proof -
  obtain r where r: "r \<in> set (chunks (st_sql s))" "P (c_parent r)" "c_blob_id r = i"
    using i by (auto simp: q_blob_ids_def)
  obtain df' where df': "a_chunks a (c_pk r) = Some df'" "r = w_row cr db (c_pk r, df')"
    by (rule store_rep_row [OF rep r(1)])
  have id: "i = w_id cr db (c_pk r, df')" using r(3) df'(2) by (metis c_blob_id_w_row)
  then show "be_ok (cfg_of cr db) i" using hyps by simp
  assume df: "a_chunks (a_del P a) k = Some df"
  then have k: "a_chunks a k = Some df" by (cases k) (auto split: if_splits)
  show "w_id cr db (k, df) \<noteq> i"
  proof
    assume "w_id cr db (k, df) = i"
    then have "c_pk r = k" using id db_hyps_inj [OF hyps] store_repD(4) [OF rep] df'(1) k by blast
    then show False using df r(2) by (auto simp: c_pk_def c_parent_def)
  qed
qed

lemma store_rep_delete:
  assumes "db_hyps cr db U" "store_rep cr db U a s"
  shows "store_rep cr db U (a_del P a)
    \<lparr>st_sql = snd (exec_delete P (st_sql s)),
     st_fs = fold (blob_del (cfg_of cr db) p) (q_blob_ids P (st_sql s)) (st_fs s)\<rparr>"
proof -
  let ?s = "s\<lparr>st_sql := snd (exec_delete P (st_sql s))\<rparr>"
  have "store_rep cr db U (a_del P a)
      (?s\<lparr>st_fs := fold (blob_del (cfg_of cr db) p) (q_blob_ids P (st_sql s)) (st_fs ?s)\<rparr>)"
    using store_rep_del_list [OF assms(1) store_rep_delete_rows [OF assms(2)]] deleted_blob [OF assms] by metis
  then show ?thesis by (cases s) simp
qed

end
