(* ===== verification/Db_Facts.thy ===== *)
theory Db_Facts
  imports Db_Refine
begin

section \<open>The operations of the database\<close>

text \<open>
  The simulation: each operation of \<open>VmIoDb\<close> does to the represented maps what its documentation
  says, and an operation that returns an error leaves them as they were.
\<close>

subsection \<open>Writing a chunk, phase by phase\<close>

lemma blob_present_file:
  "blob_present pl p len fs \<Longrightarrow> \<not> is_dir fs p \<Longrightarrow> \<exists>d. file_at fs p = Some d \<and> length d = len"
  by (auto simp: blob_present_def fs_metadata_def file_at_def is_dir_def
      split: sum.splits option.splits node.splits)

lemma blob_present_full:
  "fp_err pl OpMetadata p = None \<Longrightarrow> file_at fs p = Some d \<Longrightarrow> blob_present pl p (length d) fs"
  by (auto simp: blob_present_def fs_metadata_def file_at_Some_lookup)

text \<open>What is known of the files after phase 1.\<close>

lemma write_phase:
  assumes hyps: "db_hyps cr db U" and w: "w \<in> U"
    and gen: "blobs.genuine (cfg_of cr db) (w_id cr db) (w_data cr db) U fs" and nd: "no_blob_dirs cr db fs"
    and run: "chunk_write_phase cr db ev (w_row cr db w) (w_data cr db w) fs = (r, fs1)"
  shows "blobs.genuine (cfg_of cr db) (w_id cr db) (w_data cr db) U fs1"
    and "no_blob_dirs cr db fs1"
    and "\<And>v. v \<in> U \<Longrightarrow> v \<noteq> w \<Longrightarrow>
      blob_content (cfg_of cr db) fs1 (w_id cr db v) = blob_content (cfg_of cr db) fs (w_id cr db v)"
    and "r = Inr b \<Longrightarrow> blob_content (cfg_of cr db) fs1 (w_id cr db w) = Some (w_data cr db w)"
    and "fp_err (ev_fs ev) OpMetadata (be_path (cfg_of cr db) (w_id cr db w)) = None \<Longrightarrow>
      blob_content (cfg_of cr db) fs (w_id cr db w) = Some (w_data cr db w) \<Longrightarrow> r = Inr False \<and> fs1 = fs"
proof -
  let ?c = "cfg_of cr db" and ?i = "w_id cr db w" and ?d = "w_data cr db w"
  let ?put = "blob_put ?c (call_of ev) ?i ?d fs"
  consider (skip) "blob_present (ev_fs ev) (be_path ?c ?i) (length ?d) fs" "r = Inr False" "fs1 = fs"
    | (put) "\<not> blob_present (ev_fs ev) (be_path ?c ?i) (length ?d) fs" "fs1 = snd ?put"
        "\<forall>b. r = Inr b \<longrightarrow> fst ?put = Inr ()"
    using run by (cases "fst ?put") (auto simp: chunk_write_phase_def split: if_splits prod.splits)
  note cases = this
  show "blobs.genuine ?c (w_id cr db) (w_data cr db) U fs1"
    using cases by cases (use gen w hyps in \<open>auto intro!: blobs.genuine_put simp: db_hyps_def be_ok_def cfg_of_def\<close>)
  show "no_blob_dirs cr db fs1"
    using cases by cases (use nd in \<open>simp_all add: no_blob_dirs_put\<close>)
  show "blob_content ?c fs1 (w_id cr db v) = blob_content ?c fs (w_id cr db v)" if "v \<in> U" "v \<noteq> w" for v
    using cases by cases (use that w hyps db_hyps_inj [OF hyps that(1) w] in \<open>auto intro!: blobs.put_frame\<close>)
  show "blob_content ?c fs1 ?i = Some ?d" if "r = Inr b"
    using cases
  proof cases
    case skip
    moreover have "\<not> is_dir fs (be_path ?c ?i)" using nd hyps by (simp add: no_blob_dirs_def db_hyps_def)
    ultimately obtain d where d: "blob_content ?c fs ?i = Some d" "length d = length ?d"
      using blob_present_file [of "ev_fs ev" "be_path ?c ?i" "length ?d" fs] by (auto simp: blob_content_def)
    then show ?thesis using skip blobs.genuine_full [OF gen w d(1)] by simp
  next
    case put
    then show ?thesis using that blobs.put_ok [of ?c "call_of ev" ?i ?d fs "()" "snd ?put"] by (metis prod.collapse)
  qed
  show "r = Inr False \<and> fs1 = fs"
    if "fp_err (ev_fs ev) OpMetadata (be_path ?c ?i) = None" "blob_content ?c fs ?i = Some ?d"
    using cases by cases (use that in \<open>auto simp: blob_content_def dest: blob_present_full\<close>)
qed

text \<open>The row of the map's chunk is replaced.\<close>

lemma store_rep_put_row:
  assumes "store_rep cr db U a s" "w \<in> U"
    and "exec_upsert_chunk (w_row cr db w) (st_sql s) = Inr t"
    and "blob_content (cfg_of cr db) (st_fs s) (w_id cr db w) = Some (w_data cr db w)"
  shows "store_rep cr db U (a_put_chunk w a) (s\<lparr>st_sql := t\<rparr>)"
proof -
  obtain k df where w: "w = (k, df)" by (cases w)
  show ?thesis
    unfolding store_rep_def
  proof (intro conjI allI impI)
    show "tables_wf (st_sql (s\<lparr>st_sql := t\<rparr>))"
      using tables_wf_upsert_chunk [OF store_repD(1) [OF assms(1)] assms(3)] by simp
    show "q_entry k' (st_sql (s\<lparr>st_sql := t\<rparr>)) = a_entries (a_put_chunk w a) k'" for k'
      using store_repD(2) [OF assms(1)] entries_upsert_chunk [OF assms(3)]
      by (simp add: q_entry_def a_put_chunk_def)
    show "q_chunk k' (st_sql (s\<lparr>st_sql := t\<rparr>)) = map_option (\<lambda>df. w_row cr db (k', df)) (a_chunks (a_put_chunk w a) k')" for k'
      using store_repD(3) [OF assms(1)] w by (simp add: q_chunk_upsert_chunk [OF assms(3)] a_put_chunk_def)
    fix k' df'
    assume "a_chunks (a_put_chunk w a) k' = Some df'"
    then have "(k', df') = w \<or> a_chunks a k' = Some df'" by (auto simp: a_put_chunk_def w split: if_splits)
    then show "(k', df') \<in> U" and "blob_content (cfg_of cr db) (st_fs (s\<lparr>st_sql := t\<rparr>)) (w_id cr db (k', df'))
        = Some (w_data cr db (k', df'))"
      using store_repD(4,5) [OF assms(1), of k' df'] assms(2,4) by (auto simp del: split_paired_All)
  qed (use store_repD(6,7) [OF assms(1)] in simp_all)
qed

lemma sql_upsert_chunk_cases:
  assumes "sql_upsert_chunk pl row t = (r, t')"
  obtains (err) e where "r = Inl e" "t' = t"
  | (ok) prev where "r = Inr prev" "exec_upsert_chunk row t = Inr t'"
      "prev = (case q_chunk (c_pk row) t of
        Some old \<Rightarrow> if c_blob_id old \<noteq> c_blob_id row then Some (c_blob_id old) else None | None \<Rightarrow> None)"
  using assms sql_error_unchanged(2) sql_upsert_chunk_Inr by (cases r) blast+

text \<open>
  Phase 3: the file that is removed is one that no chunk of the map uses. After an error it is the file of
  this write, so what the map says of all others stays.
\<close>

lemma finish_error:
  assumes hyps: "db_hyps cr db U" and w: "w \<in> U" and rep: "store_rep_but cr db U a w s"
    and fin: "chunk_finish_phase cr db ev wrote (w_row cr db w) (Inl e) (st_fs s) = (res, fs2)"
  shows "res = Inl e" and "store_rep_but cr db U a w (s\<lparr>st_fs := fs2\<rparr>)" and "\<not> wrote \<Longrightarrow> fs2 = st_fs s"
proof -
  show "res = Inl e" "\<not> wrote \<Longrightarrow> fs2 = st_fs s" using fin by (simp_all add: chunk_finish_phase_def)
  have fs2: "fs2 = (if wrote then blob_del (cfg_of cr db) (call_of ev) (w_id cr db w) (st_fs s) else st_fs s)"
    using fin by (auto simp: chunk_finish_phase_def)
  show "store_rep_but cr db U a w (s\<lparr>st_fs := fs2\<rparr>)"
  proof (rule store_rep_but_fs [OF rep])
    show "blobs.genuine (cfg_of cr db) (w_id cr db) (w_data cr db) U fs2" "no_blob_dirs cr db fs2"
      using store_rep_butD(6,7) [OF rep] by (simp_all add: fs2 blobs.genuine_del no_blob_dirs_del)
    show "blob_content (cfg_of cr db) fs2 (w_id cr db v) = blob_content (cfg_of cr db) (st_fs s) (w_id cr db v)"
      if "v \<in> U" "v \<noteq> w" for v
      using that db_hyps_inj [OF hyps that(1) w] blobs.del_frame [of "cfg_of cr db" "w_id cr db w" "w_id cr db v"] hyps
      by (simp add: fs2)
  qed
qed

lemma finish_ok:
  assumes hyps: "db_hyps cr db U" and w: "w \<in> U" and rep: "store_rep cr db U (a_put_chunk w a) s"
    and old: "\<And>df. a_chunks a (fst w) = Some df \<Longrightarrow> (fst w, df) \<in> U"
    and prev: "prev = (case map_option (\<lambda>df. w_row cr db (fst w, df)) (a_chunks a (fst w)) of
        Some old \<Rightarrow> if c_blob_id old \<noteq> w_id cr db w then Some (c_blob_id old) else None | None \<Rightarrow> None)"
    and fin: "chunk_finish_phase cr db ev wrote (w_row cr db w) (Inr prev) (st_fs s) = (res, fs2)"
  shows "res = Inr ()" and "store_rep cr db U (a_put_chunk w a) (s\<lparr>st_fs := fs2\<rparr>)"
proof -
  show "res = Inr ()" using fin by (cases prev) (simp_all add: chunk_finish_phase_def)
  show "store_rep cr db U (a_put_chunk w a) (s\<lparr>st_fs := fs2\<rparr>)"
  proof (cases prev)
    case None
    with fin rep show ?thesis by (cases s) (auto simp: chunk_finish_phase_def)
  next
    case (Some i)
    then obtain df where df: "a_chunks a (fst w) = Some df" "i = w_id cr db (fst w, df)" "i \<noteq> w_id cr db w"
      using prev by (auto split: option.splits if_splits)
    have "store_rep cr db U (a_put_chunk w a)
        (s\<lparr>st_fs := fold (blob_del (cfg_of cr db) (call_of ev)) [i] (st_fs s)\<rparr>)"
    proof (rule store_rep_del_list [OF hyps rep])
      fix k df'
      assume k: "a_chunks (a_put_chunk w a) k = Some df'"
      show "w_id cr db (k, df') \<notin> set [i]"
      proof
        assume "w_id cr db (k, df') \<in> set [i]"
        then have "(k, df') = (fst w, df)"
          using df(2) db_hyps_inj [OF hyps store_repD(4) [OF rep k] old [OF df(1)]] by simp
        then show False using k df(2,3) by (cases w) (simp add: a_put_chunk_def)
      qed
    qed (use hyps df(2) in simp)
    with Some fin show ?thesis by (simp add: chunk_finish_phase_def)
  qed
qed

text \<open>All phases together.\<close>

lemma upsert_chunk_sim:
  assumes hyps: "db_hyps cr db U" and rep: "store_rep_but cr db U a w s"
    and w: "w \<in> U" "w = ((cls, key, idx), data, fin)"
    and run: "db_upsert_chunk cr db ev cls key idx data fin s = (r, s')"
  shows "case r of
      Inl e \<Rightarrow> store_rep_but cr db U a w s' \<and> st_sql s' = st_sql s \<and>
        (fp_err (ev_fs ev) OpMetadata (be_path (cfg_of cr db) (w_id cr db w)) = None \<and> store_rep cr db U a s \<longrightarrow>
           store_rep cr db U a s')
    | Inr u \<Rightarrow> a_entries a (cls, key) \<noteq> None \<and> check_chunk_size (length data) fin = Inr () \<and>
        store_rep cr db U (a_put_chunk w a) s'"
proof (cases "check_chunk_size (length data) fin")
  case (Inl e)
  then have "r = Inl e" "s' = s" using run by (simp_all add: db_upsert_chunk_def)
  with rep show ?thesis by simp
next
  case (Inr u)
  let ?row = "w_row cr db w" and ?c = "cfg_of cr db"
  let ?meta = "fp_err (ev_fs ev) OpMetadata (be_path ?c (w_id cr db w)) = None"
  let ?full = "\<lambda>fs. blob_content ?c fs (w_id cr db w) = Some (w_data cr db w)"
  obtain r1 fs1 where ph1: "chunk_write_phase cr db ev ?row (w_data cr db w) (st_fs s) = (r1, fs1)"
    by force
  note ph1_facts = write_phase [OF hyps w(1) store_rep_butD(6,7) [OF rep] ph1]
  have rep1: "store_rep_but cr db U a w (s\<lparr>st_fs := fs1\<rparr>)"
    by (rule store_rep_but_fs [OF rep ph1_facts(1,2)]) (use ph1_facts(3) in blast)
  have kept: "store_rep cr db U a s2" if "store_rep cr db U a s" "store_rep_but cr db U a w s2" "?full (st_fs s) \<Longrightarrow> ?full (st_fs s2)" for s2
    using that store_rep_but_iff [of cr db U a _ w] by blast
  show ?thesis
  proof (cases r1)
    case (Inl e)
    then have s': "r = Inl e" "s' = s\<lparr>st_fs := fs1\<rparr>"
      using run ph1 Inr w(2) by (simp_all add: db_upsert_chunk_def prepare_chunk_eq)
    have "store_rep cr db U a s'" if "?meta" "store_rep cr db U a s"
      using ph1_facts(5) [OF that(1)] Inl rep1 s' by (intro kept [OF that(2)]) auto
    with rep1 s' show ?thesis by simp
  next
    case wrote: (Inr wrote)
    obtain r2 t where ph2: "sql_upsert_chunk (ev_sql ev) ?row (st_sql s) = (r2, t)" by force
    obtain res fs2 where ph3: "chunk_finish_phase cr db ev wrote ?row r2 fs1 = (res, fs2)" by force
    have rs': "r = res" "s' = \<lparr>st_sql = t, st_fs = fs2\<rparr>"
      using run ph1 ph2 ph3 Inr wrote w(2) by (simp_all add: db_upsert_chunk_def prepare_chunk_eq)
    from ph2 show ?thesis
    proof (cases rule: sql_upsert_chunk_cases)
      case (err e)
      have "chunk_finish_phase cr db ev wrote ?row (Inl e) (st_fs (s\<lparr>st_fs := fs1\<rparr>)) = (res, fs2)" using ph3 err(1) by simp
      note fin = finish_error [OF hyps w(1) rep1 this]
      have s': "s' = s\<lparr>st_fs := fs1\<rparr>\<lparr>st_fs := fs2\<rparr>" using rs' err(2) by (cases s) simp
      have "store_rep cr db U a s'" if "?meta" "store_rep cr db U a s"
        using ph1_facts(5) [OF that(1)] wrote fin(2,3) s' by (intro kept [OF that(2)]) auto
      then show ?thesis using fin(1,2) s' rs'(1) by simp
    next
      case (ok prev)
      have parent: "c_parent ?row = (cls, key)" using w(2) by (simp add: w_row_eq Let_def c_parent_def)
      have rep1': "store_rep cr db U a (s\<lparr>st_fs := fs1\<rparr>)"
        using rep1 wrote ph1_facts(4) store_rep_but_iff [of cr db U a "s\<lparr>st_fs := fs1\<rparr>" w] by simp
      have rep2: "store_rep cr db U (a_put_chunk w a) (s\<lparr>st_fs := fs1\<rparr>\<lparr>st_sql := t\<rparr>)"
        using ok(2) wrote ph1_facts(4) by (intro store_rep_put_row [OF rep1' w(1)]) simp_all
      have prev: "prev = (case map_option (\<lambda>df. w_row cr db (fst w, df)) (a_chunks a (fst w)) of
          Some old \<Rightarrow> if c_blob_id old \<noteq> w_id cr db w then Some (c_blob_id old) else None | None \<Rightarrow> None)"
        using ok(3) store_rep_butD(3) [OF rep, of "fst w"] by (cases "a_chunks a (fst w)") simp_all
      have "res = Inr ()" "store_rep cr db U (a_put_chunk w a) (s\<lparr>st_fs := fs1\<rparr>\<lparr>st_sql := t\<rparr>\<lparr>st_fs := fs2\<rparr>)"
        using finish_ok [OF hyps w(1) rep2 _ prev] store_rep_butD(4) [OF rep] ph3 ok(1) by auto
      moreover have "a_entries a (cls, key) \<noteq> None"
        using exec_upsert_chunk_ok [OF store_rep_butD(1) [OF rep], of ?row] ok(2) parent store_rep_butD(2) [OF rep]
        by simp
      ultimately show ?thesis using rs' Inr by (cases s) simp
    qed
  qed
qed

subsection \<open>Removing and pruning\<close>

lemma rm_sim:
  assumes "db_hyps cr db U" "store_rep cr db U a s" "db_rm cr db ev cls key s = (r, s')"
  shows "case r of Inl e \<Rightarrow> s' = s | Inr u \<Rightarrow> store_rep cr db U (a_del (\<lambda>k. k = (cls, key)) a) s'"
proof -
  obtain r1 t where sql: "sql_rm (ev_sql ev) cls key (st_sql s) = (r1, t)" by force
  show ?thesis
  proof (cases r1)
    case (Inl e)
    with sql have "t = st_sql s" using sql_error_unchanged(3) by blast
    with Inl sql assms(3) show ?thesis by (auto simp: db_rm_def)
  next
    case (Inr ids)
    then have "ids = q_blob_ids (\<lambda>k. k = (cls, key)) (st_sql s)" "t = snd (exec_delete (\<lambda>k. k = (cls, key)) (st_sql s))"
      using sql sql_rm_Inr by blast+
    with Inr sql assms(3) store_rep_delete [OF assms(1,2), of "\<lambda>k. k = (cls, key)" "call_of ev"]
    show ?thesis by (auto simp: db_rm_def)
  qed
qed

text \<open>The entries of the map that have expired.\<close>

definition a_expired :: "int \<Rightarrow> adb \<Rightarrow> entry_pk \<Rightarrow> bool" where
  "a_expired now a k \<longleftrightarrow> (case a_entries a k of Some r \<Rightarrow> expired now r | None \<Rightarrow> False)"

lemma expired_mono: "expired m r \<Longrightarrow> m \<le> n \<Longrightarrow> expired n r"
  by (auto simp: expired_def split: option.splits)

lemma batch_expired:
  assumes "store_rep cr db U a s" "k \<in> set (prune_batch now limit (st_sql s))"
  shows "a_expired now a k"
proof -
  obtain r where "r \<in> set (entries (st_sql s))" "e_pk r = k" "expired now r"
    using prune_batch_expired [OF assms(2)] by blast
  then have "q_entry k (st_sql s) = Some r" using store_repD(1) [OF assms(1)] by (simp add: q_entry_Some)
  then show ?thesis using \<open>expired now r\<close> store_repD(2) [OF assms(1), of k] by (simp add: a_expired_def)
qed

text \<open>A batch below the limit is every expired entry.\<close>

lemma short_batch:
  assumes "store_rep cr db U a s" "length (prune_batch now (int n) (st_sql s)) < n"
  shows "k \<in> set (prune_batch now (int n) (st_sql s)) \<longleftrightarrow> a_expired now a k"
proof
  assume "a_expired now a k"
  then obtain r where r: "q_entry k (st_sql s) = Some r" "expired now r"
    using store_repD(2) [OF assms(1), of k] by (auto simp: a_expired_def split: option.splits)
  then have "r \<in> set (entries (st_sql s))" "e_pk r = k"
    using store_repD(1) [OF assms(1)] by (auto simp: q_entry_Some)
  moreover have "length (filter (expired now) (entries (st_sql s))) \<le> n"
    using assms(2) by (simp add: length_prune_batch)
  ultimately show "k \<in> set (prune_batch now (int n) (st_sql s))"
    using r(2) by (auto simp: prune_batch_def sql_limit_all)
qed (rule batch_expired [OF assms(1)])

text \<open>
  A pass removes entries that had expired at some reading of the clock; a pass that reads a clock
  past the epoch each time and sees no error leaves no entry that is expired at the last reading.
\<close>

definition prune_result :: "(nat \<Rightarrow> db_env) \<Rightarrow> nat \<Rightarrow> adb \<Rightarrow> unit res \<Rightarrow> (entry_pk \<Rightarrow> bool) \<Rightarrow> bool" where
  "prune_result envs n a r P \<longleftrightarrow>
     (\<forall>k. P k \<longrightarrow> (\<exists>i\<ge>n. \<exists>now. micros_since_epoch (ev_now (envs i)) = Some now \<and> a_expired now a k)) \<and>
     (r = Inr () \<and> (\<forall>i. micros_since_epoch (ev_now (envs i)) \<noteq> None) \<longrightarrow>
       (\<exists>i\<ge>n. \<exists>now. micros_since_epoch (ev_now (envs i)) = Some now \<and> (\<forall>k. a_expired now a k \<longrightarrow> P k)))"

lemma a_expired_a_del: "a_expired now (a_del P a) k \<longleftrightarrow> \<not> P k \<and> a_expired now a k"
  by (simp add: a_expired_def)

lemma prune_result_later:
  assumes "prune_result envs (Suc n) (a_del P a) r Q"
    and "micros_since_epoch (ev_now (envs n)) = Some now" "\<And>k. P k \<Longrightarrow> a_expired now a k"
  shows "prune_result envs n a r (\<lambda>k. P k \<or> Q k)"
  unfolding prune_result_def
proof (intro conjI allI impI)
  show "\<exists>i\<ge>n. \<exists>now. micros_since_epoch (ev_now (envs i)) = Some now \<and> a_expired now a k" if "P k \<or> Q k" for k
    using that
  proof
    assume "P k"
    then show ?thesis using assms(2,3) by blast
  next
    assume "Q k"
    then obtain i now' where "Suc n \<le> i" "micros_since_epoch (ev_now (envs i)) = Some now'"
      "a_expired now' (a_del P a) k"
      using assms(1) unfolding prune_result_def by blast
    then show ?thesis using Suc_leD a_expired_a_del by blast
  qed
next
  assume "r = Inr () \<and> (\<forall>i. micros_since_epoch (ev_now (envs i)) \<noteq> None)"
  then obtain i now' where "Suc n \<le> i" "micros_since_epoch (ev_now (envs i)) = Some now'"
    "\<forall>k. a_expired now' (a_del P a) k \<longrightarrow> Q k"
    using assms(1) unfolding prune_result_def by blast
  then show "\<exists>i\<ge>n. \<exists>now. micros_since_epoch (ev_now (envs i)) = Some now \<and> (\<forall>k. a_expired now a k \<longrightarrow> P k \<or> Q k)"
    using Suc_leD a_expired_a_del by blast
qed

lemma prune_result_none: "micros_since_epoch (ev_now (envs n)) = None \<or> isl r \<Longrightarrow> prune_result envs n a r (\<lambda>k. False)"
  by (auto simp: prune_result_def simp del: split_paired_All not_None_eq)

lemma prune_result_last:
  assumes "micros_since_epoch (ev_now (envs n)) = Some now" "\<And>k. P k \<longleftrightarrow> a_expired now a k"
  shows "prune_result envs n a r P"
  using assms by (auto simp: prune_result_def)

lemma prune_sim:
  assumes "db_hyps cr db U" "store_rep cr db U a s" "prune_backlog cr db envs n s = (r, s')"
  shows "\<exists>P. store_rep cr db U (a_del P a) s' \<and> prune_result envs n a r P"
  using assms
proof (induction cr db envs n s arbitrary: a rule: prune_backlog.induct)
  case (1 cr db envs n s a)
  show ?case
  proof (cases "micros_since_epoch (ev_now (envs n))")
    case None
    with 1 show ?thesis
      by (intro exI [of _ "\<lambda>k. False"]) (auto simp: prune_backlog.simps prune_result_none)
  next
    case now: (Some now)
    obtain q t where sql: "sql_prune_expired (ev_sql (envs n)) now (int PRUNE_BATCH) (st_sql s) = (q, t)"
      by force
    show ?thesis
    proof (cases q)
      case (Inl e)
      with sql have "t = st_sql s" using sql_error_unchanged(4) by blast
      with Inl sql now 1 show ?thesis
        by (intro exI [of _ "\<lambda>k. False"]) (auto simp: prune_backlog.simps [of cr] intro!: prune_result_none)
    next
      case q: (Inr c)
      obtain count ids where c: "c = (count, ids)" by (cases c)
      define batch where "batch = prune_batch now (int PRUNE_BATCH) (st_sql s)"
      define s1 where "s1 = \<lparr>st_sql = t,
        st_fs = fold (blob_del (cfg_of cr db) (call_of (envs n))) ids (st_fs s)\<rparr>"
      have res: "ids = q_blob_ids (\<lambda>k. k \<in> set batch) (st_sql s)"
          "(count, t) = exec_delete (\<lambda>k. k \<in> set batch) (st_sql s)"
        using sql_prune_expired_Inr [OF sql [unfolded q c]] by (simp_all add: batch_def)
      have rep1: "store_rep cr db U (a_del (\<lambda>k. k \<in> set batch) a) s1"
        using store_rep_delete [OF "1.prems"(1,2), of "\<lambda>k. k \<in> set batch" "call_of (envs n)"] res
        by (metis s1_def snd_conv)
      have count: "count = length batch"
        using count_delete_batch [OF store_repD(1) [OF "1.prems"(2)], of now "int PRUNE_BATCH"] res(2)
        by (metis batch_def fst_conv)
      have expired: "k \<in> set batch \<Longrightarrow> a_expired now a k" for k
        using batch_expired [OF "1.prems"(2)] by (simp add: batch_def)
      show ?thesis
      proof (cases "count < PRUNE_BATCH")
        case True
        then have "r = Inr ()" "s' = s1"
          using "1.prems"(3) now sql q c by (simp_all add: prune_backlog.simps [of cr] s1_def)
        moreover have "prune_result envs n a r (\<lambda>k. k \<in> set batch)"
        proof (rule prune_result_last [of envs n now])
          show "k \<in> set batch \<longleftrightarrow> a_expired now a k" for k
            unfolding batch_def by (rule short_batch [OF "1.prems"(2)]) (use True count in \<open>simp add: batch_def\<close>)
        qed (rule now)
        ultimately show ?thesis using rep1 by (intro exI [of _ "\<lambda>k. k \<in> set batch"]) simp
      next
        case False
        then have rest: "prune_backlog cr db envs (Suc n) s1 = (r, s')"
          using "1.prems"(3) now sql q c by (simp add: prune_backlog.simps [of cr db envs n] s1_def)
        obtain Q where "store_rep cr db U (a_del Q (a_del (\<lambda>k. k \<in> set batch) a)) s'"
            "prune_result envs (Suc n) (a_del (\<lambda>k. k \<in> set batch) a) r Q"
          using "1.IH" [OF now sql [symmetric] q c [symmetric] s1_def False "1.prems"(1) rep1 rest] by blast
        then show ?thesis
          using prune_result_later [of envs n "\<lambda>k. k \<in> set batch" a r Q now] now expired
          by (intro exI [of _ "\<lambda>k. k \<in> set batch \<or> Q k"]) (simp add: a_del_a_del)
      qed
    qed
  qed
qed

end
