(* ===== verification/Db_Props.thy ===== *)
theory Db_Props
  imports Db_Facts
begin

section \<open>What the database promises\<close>

text \<open>
  The properties of \<open>VmIoDb\<close> over the maps it represents, on every path of the code, with the
  faults of sqlite and of the file system in the environment of the call.
\<close>

subsection \<open>Lemmas\<close>

lemma upsert_limits:
  "db_upsert ev cls key m x md s = (Inr b, s') \<Longrightarrow>
   length cls \<le> 256 \<and> length key \<le> 1024 \<and> (\<forall>d. md = Some d \<longrightarrow> length d \<le> 4096) \<and>
   sql_upsert (ev_sql ev) cls key m x md (st_sql s) = (Inr b, st_sql s') \<and> st_fs s' = st_fs s"
  by (auto simp: db_upsert_def split: if_splits prod.splits option.splits)

lemma upsert_error: "db_upsert ev cls key m x md s = (Inl e, s') \<Longrightarrow> s' = s"
  by (auto simp: db_upsert_def split: if_splits prod.splits dest: sql_error_unchanged(1))

definition row_of :: "string \<Rightarrow> string \<Rightarrow> int \<Rightarrow> int option \<Rightarrow> bytes option \<Rightarrow> entry_row" where
  "row_of cls key m x md = \<lparr>e_class = cls, e_key = key, e_modified = m, e_expires = x, e_metadata = md\<rparr>"

lemma row_of_simps [simp]:
  "e_pk (row_of cls key m x md) = (cls, key)" "e_modified (row_of cls key m x md) = m"
  "e_expires (row_of cls key m x md) = x" "e_metadata (row_of cls key m x md) = md"
  by (simp_all add: row_of_def e_pk_def)

definition a_applies :: "adb \<Rightarrow> entry_pk \<Rightarrow> int \<Rightarrow> bool" where
  "a_applies a k m \<longleftrightarrow> (case a_entries a k of None \<Rightarrow> True | Some old \<Rightarrow> e_modified old < m)"

lemma store_rep_put_entry:
  assumes "store_rep cr db U a s" "exec_upsert row (st_sql s) = Inr (n, t)"
  shows "store_rep cr db U (if 0 < n then a_put_entry row a else a) (s\<lparr>st_sql := t\<rparr>)"
proof -
  have chunks: "q_chunk k t = q_chunk k (st_sql s)" for k
    using chunks_exec_upsert [OF assms(2)] by (simp add: q_chunk_def)
  have ent: "a_entries (if 0 < n then a_put_entry row a else a) k = q_entry k t" for k
    using q_entry_upsert [OF assms(2), of k] store_repD(2) [OF assms(1), of k] by (simp add: a_put_entry_def)
  have "a_chunks (if 0 < n then a_put_entry row a else a) = a_chunks a"
    by (simp add: a_put_entry_def)
  then show ?thesis
    using assms(1) tables_wf_upsert [OF store_repD(1) [OF assms(1)] assms(2)] chunks ent
    unfolding store_rep_def by simp
qed

lemma in_image_eq: "y \<in> f ` S \<longleftrightarrow> (\<exists>x \<in> S. f x = y)"
  by auto

lemma exec_upsert_isl:
  assumes "tables_wf t"
  shows "isl (exec_upsert row t) \<longleftrightarrow>
    (case q_entry (e_pk row) t of None \<Rightarrow> True | Some old \<Rightarrow> e_modified old < e_modified row) \<and>
    (\<exists>k r. k \<noteq> e_pk row \<and> q_entry k t = Some r \<and> e_modified r = e_modified row)"
proof -
  have "(\<exists>k r. k \<noteq> e_pk row \<and> q_entry k t = Some r \<and> e_modified r = e_modified row) \<longleftrightarrow>
      (\<exists>r \<in> set (entries t). e_pk r \<noteq> e_pk row \<and> e_modified r = e_modified row)"
    using assms by (metis q_entry_Some)
  also have "\<dots> \<longleftrightarrow> e_modified row \<in> set (map e_modified (filter (\<lambda>r. e_pk r \<noteq> e_pk row) (entries t)))"
    by (simp only: set_map set_filter in_image_eq) blast
  finally have "(\<exists>k r. k \<noteq> e_pk row \<and> q_entry k t = Some r \<and> e_modified r = e_modified row) \<longleftrightarrow>
      e_modified row \<in> set (map e_modified (filter (\<lambda>r. e_pk r \<noteq> e_pk row) (entries t)))" .
  moreover have "set (filter (\<lambda>r. e_pk r \<noteq> e_pk row) (entries t)) = set (entries t)"
    if "q_entry (e_pk row) t = None"
    using that by (simp add: q_entry_def find_row_None in_image_eq)
  ultimately show ?thesis
    by (simp add: exec_upsert_def q_entry_def [symmetric] split: option.split)
qed

lemma upsert_sim:
  assumes "store_rep cr db U a s" "db_upsert ev cls key m x md s = (r, s')"
  shows "case r of
      Inl e \<Rightarrow> s' = s
    | Inr applied \<Rightarrow> applied = a_applies a (cls, key) m \<and>
        store_rep cr db U (if applied then a_put_entry (row_of cls key m x md) a else a) s'"
proof (cases r)
  case (Inl e)
  then show ?thesis using upsert_error assms(2) by auto
next
  case (Inr b)
  then have "db_upsert ev cls key m x md s = (Inr b, s')" using assms(2) by simp
  from upsert_limits [OF this]
  obtain n where n: "exec_upsert (row_of cls key m x md) (st_sql s) = Inr (n, st_sql s')" "b = (0 < n)" "st_fs s' = st_fs s"
    by (auto simp: sql_upsert_Inr row_of_def)
  have "s\<lparr>st_sql := st_sql s'\<rparr> = s'" using n(3) by simp
  then have "store_rep cr db U (if b then a_put_entry (row_of cls key m x md) a else a) s'"
    using store_rep_put_entry [OF assms(1) n(1)] n(2) by simp
  moreover have "b = a_applies a (cls, key) m"
    using exec_upsert_count [OF n(1)] n(2) store_repD(2) [OF assms(1)]
    by (simp add: a_applies_def split: option.splits)
  ultimately show ?thesis using Inr by simp
qed

lemma upsert_fails:
  assumes "store_rep cr db U a s" "db_upsert ev cls key m x md s = (r, s')" "ev_sql ev = sql_ok"
  shows "isl r \<longleftrightarrow>
      256 < length cls \<or> 1024 < length key \<or> (\<exists>d. md = Some d \<and> 4096 < length d) \<or>
      a_applies a (cls, key) m \<and> (\<exists>k old. k \<noteq> (cls, key) \<and> a_entries a k = Some old \<and> e_modified old = m)"
proof -
  let ?row = "row_of cls key m x md"
  have "isl r \<longleftrightarrow> 256 < length cls \<or> 1024 < length key \<or> (\<exists>d. md = Some d \<and> 4096 < length d) \<or>
      isl (exec_upsert ?row (st_sql s))"
    using assms(2,3) by (auto simp: db_upsert_def sql_upsert_def run_tx_def row_of_def and_then_def of_sql_def
        split: if_splits option.splits sum.splits)
  then show ?thesis
    using exec_upsert_isl [OF store_repD(1) [OF assms(1)], of ?row] store_repD(2) [OF assms(1)]
    by (cases "a_entries a (cls, key)") (simp_all add: a_applies_def)
qed

lemma get_chunk_row:
  fixes cls key idx data fin
  defines "w \<equiv> ((cls, key, idx), data, fin)"
  assumes "crypto_ok cr" and row: "q_chunk (cls, key, idx) (st_sql s) = Some (w_row cr db w)"
    and full: "blob_content (cfg_of cr db) (st_fs s) (w_id cr db w) = Some (w_data cr db w)"
  shows "db_get_chunk cr db ev cls key idx want s =
    and_then (fail_at (ev_sql ev) AtBegin) (\<lambda>_. and_then (fail_at (ev_sql ev) AtQuery) (\<lambda>_.
      if want \<noteq> fin then Inl (io_other ''chunk finality mismatch'')
      else case fp_err (ev_fs ev) OpRead (be_path (cfg_of cr db) (w_id cr db w)) of
        Some e \<Rightarrow> Inl e | None \<Rightarrow> Inr (Some data)))"
proof -
  let ?w = "((cls, key, idx), data, fin)"
  have stored: "file_at (st_fs s) (be_path (cfg_of cr db) (w_id cr db ?w)) = Some (w_data cr db ?w)"
    using full by (simp add: blob_content_def w_def)
  have path: "id_path cr (root_dir db) (gen_id cr (w_ci cr ?w) (blob_key db))
      = be_path (cfg_of cr db) (w_id cr db ?w)"
    by (simp add: be_path_def cfg_of_def w_id_eq)
  have dec: "decrypt_chunk cr (w_ci cr ?w) (w_data cr db ?w) (blob_key db) (c_tag (w_row cr db ?w)) = Inr data"
    using \<open>crypto_ok cr\<close> by (simp add: w_data_eq w_row_eq Let_def del: w_ci.simps)
  have len: "int (length (w_data cr db ?w)) = c_size (w_row cr db ?w)"
    using \<open>crypto_ok cr\<close> by (simp add: w_row_eq Let_def)
  have hash: "c_hash (w_row cr db ?w) = sha256 cr data" "c_is_final (w_row cr db ?w) = fin"
    by (simp_all add: w_row_eq Let_def)
  have read: "fs_read (ev_fs ev) (be_path (cfg_of cr db) (w_id cr db ?w)) (st_fs s) =
      (case fp_err (ev_fs ev) OpRead (be_path (cfg_of cr db) (w_id cr db ?w)) of
         Some e \<Rightarrow> Inl e | None \<Rightarrow> Inr (w_data cr db ?w))"
    using stored by (auto simp: fs_read_def file_at_Some_lookup split: option.splits)
  show ?thesis
    using path dec len read row unfolding w_def
    by (auto simp: db_get_chunk_def sql_get_chunk_def hash Let_def and_then_def split: sum.splits option.splits)
qed

lemma get_chunk_value:
  assumes hyps: "db_hyps cr db U" and rep: "store_rep cr db U a s"
    and found: "a_chunks a (cls, key, idx) = Some (data, fin)"
  shows "db_get_chunk cr db ev cls key idx want s =
    and_then (fail_at (ev_sql ev) AtBegin) (\<lambda>_. and_then (fail_at (ev_sql ev) AtQuery) (\<lambda>_.
      if want \<noteq> fin then Inl (io_other ''chunk finality mismatch'')
      else case fp_err (ev_fs ev) OpRead (be_path (cfg_of cr db) (w_id cr db ((cls, key, idx), data, fin))) of
        Some e \<Rightarrow> Inl e | None \<Rightarrow> Inr (Some data)))"
  using hyps store_repD(3) [OF rep, of "(cls, key, idx)"] store_repD(5) [OF rep found] found
  by (intro get_chunk_row) (simp_all add: db_hyps_def)

text \<open>Every other chunk reads as before where the file of one write may be damaged.\<close>

lemma get_chunk_but:
  assumes hyps: "db_hyps cr db U" and rep: "store_rep cr db U a s" and but: "store_rep_but cr db U a w s'" "st_sql s' = st_sql s"
    and other: "(cls, key, idx) \<noteq> fst w"
  shows "db_get_chunk cr db ev cls key idx want s' = db_get_chunk cr db ev cls key idx want s"
proof (cases "a_chunks a (cls, key, idx)")
  case None
  then have "q_chunk (cls, key, idx) (st_sql s) = None" using store_repD(3) [OF rep, of "(cls, key, idx)"] by simp
  then show ?thesis using but(2) by (simp add: db_get_chunk_def sql_get_chunk_def and_then_def split: sum.splits)
next
  case (Some df)
  obtain data fin where df: "df = (data, fin)" by (cases df)
  have "blob_content (cfg_of cr db) (st_fs s') (w_id cr db ((cls, key, idx), df)) = Some (w_data cr db ((cls, key, idx), df))"
    by (rule store_rep_butD(5) [OF but(1) Some]) (use other in auto)
  then show ?thesis
    using get_chunk_row [of cr cls key idx s' db data fin ev want] get_chunk_value [OF hyps rep, of cls key idx data fin ev want]
      store_rep_butD(3) [OF but(1), of "(cls, key, idx)"] Some df hyps by (simp add: db_hyps_def)
qed

lemma get_chunk_none:
  assumes "store_rep cr db U a s" "a_chunks a (cls, key, idx) = None"
  shows "db_get_chunk cr db ev cls key idx want s =
    and_then (fail_at (ev_sql ev) AtBegin) (\<lambda>_. and_then (fail_at (ev_sql ev) AtQuery) (\<lambda>_. Inr None))"
  using store_repD(3) [OF assms(1), of "(cls, key, idx)"] assms(2)
  by (simp add: db_get_chunk_def sql_get_chunk_def and_then_def split: sum.splits)

subsection \<open>A concrete store\<close>

definition demo_db :: vm_io_db where
  "demo_db = \<lparr>root_dir = [''r''], blob_key = []\<rparr>"

definition demo_write :: chunk_write where
  "demo_write = ((''c'', ''k'', 0), [1, 2, 3], True)"

definition demo_store :: store where
  "demo_store = \<lparr>st_sql = \<lparr>entries = [row_of ''c'' ''k'' 5 (Some 9) None], chunks = []\<rparr>,
     st_fs = [([''r''], Dir 0)]\<rparr>"

definition demo_adb :: adb where
  "demo_adb = \<lparr>a_entries = [(''c'', ''k'') \<mapsto> row_of ''c'' ''k'' 5 (Some 9) None], a_chunks = Map.empty\<rparr>"

lemma demo_hyps [simp]: "db_hyps demo_crates demo_db {demo_write}"
  by (simp add: db_hyps_def)

lemma be_path_not_root: "be_path (cfg_of cr db) i \<noteq> root_dir db" "be_path (cfg_of cr db) i \<noteq> []"
proof -
  have "length (be_path (cfg_of cr db) i) = length (root_dir db) + 4"
    by (simp add: be_path_def cfg_of_def length_id_path SHARD_DEPTH_def)
  then show "be_path (cfg_of cr db) i \<noteq> root_dir db" "be_path (cfg_of cr db) i \<noteq> []" by auto
qed

lemma demo_rep [simp]: "store_rep demo_crates demo_db {demo_write} demo_adb demo_store"
  unfolding store_rep_def
proof (intro conjI allI impI)
  show "tables_wf (st_sql demo_store)" by (simp add: tables_wf_def demo_store_def)
  show "q_entry k (st_sql demo_store) = a_entries demo_adb k" for k
    by (simp add: demo_store_def demo_adb_def q_entry_def)
  have "be_path (cfg_of demo_crates demo_db) i \<noteq> [''r'']" for i
    using be_path_not_root(1) [of demo_crates demo_db i] by (simp add: demo_db_def)
  then show "no_blob_dirs demo_crates demo_db (st_fs demo_store)"
    by (auto simp: no_blob_dirs_def is_dir_def fs_lookup_def demo_store_def be_path_not_root)
qed (simp_all add: demo_store_def demo_adb_def q_chunk_def blobs.genuine_def blob_content_def
    file_at_def fs_lookup_def)

text \<open>Without faults and with no foreign file in the way, the directories are made and the blob is written.\<close>

definition clear_way :: "path \<Rightarrow> fs \<Rightarrow> bool" where
  "clear_way p fs \<longleftrightarrow> (\<forall>q t d. strict_prefix q p \<longrightarrow> fs_lookup fs q \<noteq> Some (File t d))"

lemma create_dirs_ok:
  assumes "\<And>q t d. prefix q (pre @ cs) \<Longrightarrow> fs_lookup fs q \<noteq> Some (File t d)" "fp_err pl OpCreateDir = (\<lambda>_. None)"
  shows "fst (create_dirs pl now pre cs fs) = Inr ()"
  using assms
proof (induction pl now pre cs fs rule: create_dirs.induct)
  case (1 pl now pre fs)
  then show ?case by simp
next
  case (2 pl now pre c cs fs)
  show ?case
  proof (cases "fs_lookup fs (pre @ [c])")
    case None
    then show ?thesis using 2 by (simp add: Let_def)
  next
    case (Some n)
    then obtain t where "n = Dir t" using "2.prems"(1) [of "pre @ [c]"] by (cases n) auto
    with Some 2 show ?thesis by (simp add: Let_def)
  qed
qed

lemma blob_put_succeeds:
  assumes "clear_way (be_path (cfg_of cr db) i) fs" "no_blob_dirs cr db fs" "length i = 32" "ev_fs ev = no_faults"
  shows "fst (blob_put (cfg_of cr db) (call_of ev) i d fs) = Inr ()"
proof -
  let ?p = "be_path (cfg_of cr db) i"
  obtain r fs1 where dirs: "create_dir_all no_faults (ev_now ev) (butlast ?p) fs = (r, fs1)" by force
  have "prefix q (butlast ?p) \<Longrightarrow> strict_prefix q ?p" for q
    using be_path_not_root(2) [of cr db i]
    by (metis append_butlast_last_id prefix_snocD prefix_order.le_less_trans prefix_order.order_refl)
  then have "r = Inr ()"
    using create_dirs_ok [of "[]" "butlast ?p" fs no_faults "ev_now ev"] dirs assms(1)
    by (fastforce simp: create_dir_all_def clear_way_def fun_eq_iff)
  moreover have "\<not> is_dir fs1 ?p"
    using is_dir_create_dirs [of no_faults "ev_now ev" "[]" "butlast ?p" fs ?p] dirs assms(2,3)
    by (auto simp: create_dir_all_def no_blob_dirs_def be_path_def length_id_path)
  moreover have "is_dir fs1 (butlast ?p)"
    using create_dir_all_is_dir dirs calculation(1) by blast
  ultimately show ?thesis
    using dirs assms(4) by (simp add: blob_put_def blob_write_def call_of_def upt_rec [of 0] fs_write_def)
qed

subsection \<open>Properties\<close>

text \<open>
  C6. Storing a chunk is atomic in what a reader sees, whatever calls of sqlite and of the file system fail,
  a write that stops anywhere included. After a success, also one after earlier damage to the file of this
  very write, the chunk map is updated at this one place, every stored blob is complete, the entry exists
  and the size rule held. After an error the tables are as before, and every chunk and every entry reads as
  before, with one exception: if \<open>metadata()\<close> fails for a file that is there, and the place holds exactly this
  write already, the file of this one chunk may be damaged; every other place still reads as before, in
  every environment, and the next store of the chunk that succeeds repairs it.
\<close>

theorem upsert_chunk_refines:
  assumes "db_hyps cr db U" "((cls, key, idx), data, fin) \<in> U"
    and "store_rep_but cr db U a ((cls, key, idx), data, fin) s"
    and "db_upsert_chunk cr db ev cls key idx data fin s = (r, s')"
  shows "case r of
      Inl e \<Rightarrow> st_sql s' = st_sql s \<and> store_rep_but cr db U a ((cls, key, idx), data, fin) s' \<and>
        (store_rep cr db U a s \<longrightarrow>
          (fp_err (ev_fs ev) OpMetadata (be_path (cfg_of cr db) (w_id cr db ((cls, key, idx), data, fin))) = None \<or>
             a_chunks a (cls, key, idx) \<noteq> Some (data, fin) \<longrightarrow> store_rep cr db U a s') \<and>
          (\<forall>cls' key' idx' want ev'. (cls', key', idx') \<noteq> (cls, key, idx) \<longrightarrow>
             db_get_chunk cr db ev' cls' key' idx' want s' = db_get_chunk cr db ev' cls' key' idx' want s))
    | Inr u \<Rightarrow> a_entries a (cls, key) \<noteq> None \<and> check_chunk_size (length data) fin = Inr () \<and>
        store_rep cr db U (a_put_chunk ((cls, key, idx), data, fin) a) s'"
proof (cases r)
  case (Inl e)
  let ?w = "((cls, key, idx), data, fin)"
  have sim: "store_rep_but cr db U a ?w s'" "st_sql s' = st_sql s"
    "fp_err (ev_fs ev) OpMetadata (be_path (cfg_of cr db) (w_id cr db ?w)) = None \<Longrightarrow> store_rep cr db U a s \<Longrightarrow> store_rep cr db U a s'"
    using upsert_chunk_sim [OF assms(1,3,2) refl assms(4)] Inl by simp_all
  have "store_rep cr db U a s'" if "a_chunks a (cls, key, idx) \<noteq> Some (data, fin)"
    using sim(1) that store_rep_but_iff [of cr db U a s' ?w] by simp
  then show ?thesis using Inl sim get_chunk_but [OF assms(1) _ sim(1,2)] by auto
next
  case (Inr u)
  then show ?thesis using upsert_chunk_sim [OF assms(1,3,2) refl assms(4)] by simp
qed

theorem upsert_chunk_refines_witness:
  "\<exists>r s'. db_upsert_chunk demo_crates demo_db ok_env ''c'' ''k'' 0 [1, 2, 3] True demo_store = (r, s') \<and>
    store_rep demo_crates demo_db {demo_write}
      (if isl r then demo_adb else a_put_chunk demo_write demo_adb) s'"
proof -
  obtain r s' where run: "db_upsert_chunk demo_crates demo_db ok_env ''c'' ''k'' 0 [1, 2, 3] True demo_store = (r, s')"
    by force
  have w: "((''c'', ''k'', 0), [1, 2, 3], True) \<in> {demo_write}" by (simp add: demo_write_def)
  have "store_rep_but demo_crates demo_db {demo_write} demo_adb ((''c'', ''k'', 0), [1, 2, 3], True) demo_store"
    using demo_rep store_rep_but_iff by blast
  note res = upsert_chunk_refines [OF demo_hyps w this run]
  have "store_rep demo_crates demo_db {demo_write} (if isl r then demo_adb else a_put_chunk demo_write demo_adb) s'"
    using res demo_rep by (cases r) (simp_all add: ok_env_def demo_write_def [symmetric] del: demo_write_def)
  then show ?thesis using run by blast
qed

text \<open>
  C27. Storing a chunk succeeds when it should: with no fault, no foreign file where a shard
  directory belongs, the call fails exactly when the size rule is broken or the entry does not
  exist.
\<close>

theorem upsert_chunk_succeeds:
  assumes "db_hyps cr db U" "store_rep cr db U a s" "((cls, key, idx), data, fin) \<in> U"
    and "clear_way (be_path (cfg_of cr db) (w_id cr db ((cls, key, idx), data, fin))) (st_fs s)"
    and "ev_sql ev = sql_ok" "ev_fs ev = no_faults"
  shows "isl (fst (db_upsert_chunk cr db ev cls key idx data fin s)) \<longleftrightarrow>
    isl (check_chunk_size (length data) fin) \<or> a_entries a (cls, key) = None"
proof (cases "check_chunk_size (length data) fin")
  case (Inl e)
  then show ?thesis by (simp add: db_upsert_chunk_def)
next
  case size: (Inr u)
  let ?w = "((cls, key, idx), data, fin)"
  have "length (w_id cr db ?w) = 32" using assms(1) by (simp add: db_hyps_def)
  then have "fst (blob_put (cfg_of cr db) (call_of ev) (w_id cr db ?w) (w_data cr db ?w) (st_fs s)) = Inr ()"
    using blob_put_succeeds assms(4,6) store_repD(7) [OF assms(2)] by blast
  then have "\<exists>wrote fs1. chunk_write_phase cr db ev (w_row cr db ?w) (w_data cr db ?w) (st_fs s) = (Inr wrote, fs1)"
    by (auto simp: chunk_write_phase_def case_prod_beta)
  then obtain wrote fs1 where ph1: "chunk_write_phase cr db ev (w_row cr db ?w) (w_data cr db ?w) (st_fs s) = (Inr wrote, fs1)"
    by blast
  obtain r2 t where ph2: "sql_upsert_chunk (ev_sql ev) (w_row cr db ?w) (st_sql s) = (r2, t)" by force
  have "isl r2 \<longleftrightarrow> isl (exec_upsert_chunk (w_row cr db ?w) (st_sql s))"
    using ph2 assms(5) by (auto simp: sql_upsert_chunk_def run_tx_def and_then_def of_sql_def Let_def split: sum.splits)
  also have "\<dots> \<longleftrightarrow> a_entries a (cls, key) = None"
    using exec_upsert_chunk_ok [OF store_repD(1) [OF assms(2)], of "w_row cr db ?w"] store_repD(2) [OF assms(2)]
    by (simp add: w_row_eq Let_def c_parent_def)
  finally show ?thesis
    using ph1 ph2 size
    by (auto simp: db_upsert_chunk_def prepare_chunk_eq chunk_finish_phase_def case_prod_beta split: sum.splits option.splits)
qed

theorem upsert_chunk_succeeds_witness:
  "\<not> isl (fst (db_upsert_chunk demo_crates demo_db ok_env ''c'' ''k'' 0 [1, 2, 3] True demo_store))"
proof -
  have "((''c'', ''k'', 0), [1, 2, 3], True) \<in> {demo_write}" by (simp add: demo_write_def)
  from upsert_chunk_succeeds [OF demo_hyps demo_rep this, of ok_env] show ?thesis
    by (simp add: ok_env_def clear_way_def demo_store_def fs_lookup_def check_chunk_size_def CHUNK_SIZE_def demo_adb_def)
qed

text \<open>
  C7. A read returns what was stored: if the chunk map holds data at the place, \<open>get_chunk\<close> returns
  exactly these bytes, decrypted, when the expected finality is the stored one and nothing fails,
  and the finality error otherwise; where the map holds nothing it returns \<open>None\<close>. No call returns
  other data, whatever fails.
\<close>

theorem get_chunk_correct:
  assumes "db_hyps cr db U" "store_rep cr db U a s"
  shows "db_get_chunk cr db ok_env cls key idx want s =
      (case a_chunks a (cls, key, idx) of
         None \<Rightarrow> Inr None
       | Some (data, fin) \<Rightarrow>
           if want = fin then Inr (Some data) else Inl (io_other ''chunk finality mismatch'')) \<and>
    (\<forall>found. db_get_chunk cr db ev cls key idx want s = Inr found \<longrightarrow>
      found = map_option fst (a_chunks a (cls, key, idx)))"
proof (intro conjI allI impI)
  show "db_get_chunk cr db ok_env cls key idx want s =
      (case a_chunks a (cls, key, idx) of
         None \<Rightarrow> Inr None
       | Some (data, fin) \<Rightarrow>
           if want = fin then Inr (Some data) else Inl (io_other ''chunk finality mismatch''))"
    by (cases "a_chunks a (cls, key, idx)")
      (auto simp: get_chunk_value [OF assms] get_chunk_none [OF assms(2)] ok_env_def)
  show "found = map_option fst (a_chunks a (cls, key, idx))"
    if "db_get_chunk cr db ev cls key idx want s = Inr found" for found
    using that by (cases "a_chunks a (cls, key, idx)")
      (auto simp: get_chunk_value [OF assms] get_chunk_none [OF assms(2)] and_then_eq_Inr
        split: if_splits option.splits)
qed

theorem get_chunk_correct_witness:
  "db_get_chunk demo_crates demo_db ok_env ''c'' ''k'' 0 True demo_store = Inr None"
  using get_chunk_correct [OF demo_hyps demo_rep, of "''c''" "''k''" 0 True] by (simp add: demo_adb_def)

text \<open>
  C10. Newer wins: \<open>upsert\<close> returns \<open>true\<close> and stores the entry exactly when there is none or the
  stored one has a strictly smaller timestamp, returns \<open>false\<close> and changes nothing otherwise, and
  an error changes nothing. Chunks stay. A call with no engine fault fails exactly when a limit is
  exceeded or when it would apply with a timestamp that another entry has.
\<close>

theorem upsert_newer_wins:
  assumes "store_rep cr db U a s" "db_upsert ev cls key m x md s = (r, s')"
  shows "(case r of
      Inl e \<Rightarrow> s' = s
    | Inr applied \<Rightarrow> applied = a_applies a (cls, key) m \<and>
        store_rep cr db U (if applied then a_put_entry (row_of cls key m x md) a else a) s') \<and>
    (ev_sql ev = sql_ok \<longrightarrow> (isl r \<longleftrightarrow>
      256 < length cls \<or> 1024 < length key \<or> (\<exists>d. md = Some d \<and> 4096 < length d) \<or>
      a_applies a (cls, key) m \<and> (\<exists>k old. k \<noteq> (cls, key) \<and> a_entries a k = Some old \<and> e_modified old = m)))"
  using upsert_sim [OF assms] upsert_fails [OF assms] by blast

theorem upsert_newer_wins_witness:
  "\<exists>s'. db_upsert ok_env ''c'' ''k'' 6 None None demo_store = (Inr True, s') \<and>
    store_rep demo_crates demo_db {demo_write} (a_put_entry (row_of ''c'' ''k'' 6 None None) demo_adb) s'"
proof -
  obtain r s' where run: "db_upsert ok_env ''c'' ''k'' 6 None None demo_store = (r, s')" by force
  have "\<not> isl r" using upsert_newer_wins [OF demo_rep run] by (simp add: ok_env_def demo_adb_def)
  then show ?thesis
    using upsert_newer_wins [OF demo_rep run] run by (cases r) (auto simp: demo_adb_def a_applies_def)
qed

text \<open>
  C28. \<open>rm\<close> removes the entry with all its chunks and nothing else, or fails with everything in
  place; the blobs of other entries stay complete although the removed ones are deleted from disk.
\<close>

theorem rm_refines:
  assumes "db_hyps cr db U" "store_rep cr db U a s" "db_rm cr db ev cls key s = (r, s')"
  shows "case r of Inl e \<Rightarrow> s' = s | Inr u \<Rightarrow> store_rep cr db U (a_del (\<lambda>k. k = (cls, key)) a) s'"
  using rm_sim [OF assms] .

theorem rm_refines_witness:
  "\<exists>s'. db_rm demo_crates demo_db ok_env ''c'' ''k'' demo_store = (Inr (), s') \<and>
    store_rep demo_crates demo_db {demo_write} (a_del (\<lambda>k. k = (''c'', ''k'')) demo_adb) s'"
proof -
  obtain r s' where run: "db_rm demo_crates demo_db ok_env ''c'' ''k'' demo_store = (r, s')" by force
  moreover have "r = Inr ()" using run by (simp add: db_rm_def ok_env_def sql_ok_results)
  ultimately show ?thesis using rm_refines [OF demo_hyps demo_rep run] by simp
qed

text \<open>
  C22. A prune pass removes only entries that had expired at some reading of the clock, with their
  chunks, whatever fails; and a pass that returns no error removes all entries expired at one of
  its readings, however many batches that takes (the pass always returns: \<open>prune_backlog\<close> is a total
  function, each full batch shrinks the table).
\<close>

theorem prune_exact:
  assumes "db_hyps cr db U" "store_rep cr db U a s" "prune_backlog cr db envs 0 s = (r, s')"
  shows "\<exists>P. store_rep cr db U (a_del P a) s' \<and>
    (\<forall>k. P k \<longrightarrow> (\<exists>i now. micros_since_epoch (ev_now (envs i)) = Some now \<and> a_expired now a k)) \<and>
    (r = Inr () \<and> (\<forall>i. 0 \<le> ev_now (envs i)) \<longrightarrow>
      (\<exists>i now. micros_since_epoch (ev_now (envs i)) = Some now \<and> (\<forall>k. a_expired now a k \<longrightarrow> P k)))"
proof -
  obtain P where "store_rep cr db U (a_del P a) s'" "prune_result envs 0 a r P"
    using prune_sim [OF assms] by blast
  moreover have "\<forall>i. micros_since_epoch (ev_now (envs i)) \<noteq> None" if "\<forall>i. 0 \<le> ev_now (envs i)"
    using that by (simp add: micros_since_epoch_def)
  ultimately show ?thesis unfolding prune_result_def by blast
qed

theorem prune_exact_witness:
  "\<exists>P r s'. prune_backlog demo_crates demo_db (\<lambda>_. ok_env\<lparr>ev_now := 9000\<rparr>) 0 demo_store = (r, s') \<and>
    store_rep demo_crates demo_db {demo_write} (a_del P demo_adb) s' \<and> (r = Inr () \<longrightarrow> P (''c'', ''k''))"
proof -
  let ?envs = "\<lambda>_. ok_env\<lparr>ev_now := 9000\<rparr>"
  obtain r s' where run: "prune_backlog demo_crates demo_db ?envs 0 demo_store = (r, s')" by force
  have clock: "micros_since_epoch 9000 = Some 9" by (simp add: micros_since_epoch_def i64_defs)
  have "a_expired 9 demo_adb (''c'', ''k'')" by (simp add: a_expired_def demo_adb_def expired_def)
  then show ?thesis using prune_exact [OF demo_hyps demo_rep run] run clock by auto
qed

end
