(* ===== verification/Cleanup.thy ===== *)
theory Cleanup
  imports Db_Props
begin

section \<open>The disk cleanup pass\<close>

text \<open>
  \<open>cleanup_task\<close> and \<open>cleanup_dir\<close> of \<open>rs/v-m-io-db/src/lib.rs\<close>: the walk over the shard tree
  that removes unreferenced blob files and the shard directories they leave empty. A pass is
  modelled between two commits, with the tables fixed; the interleaving with writers is the
  subject of \<open>Db_Concurrent\<close>. The listing of a directory is read once; each entry is looked up
  again when its turn comes.
\<close>

definition CLEANUP_GRACE :: int where
  "CLEANUP_GRACE = of_secs (60 * 5)"

text \<open>
  \<open>cleanup_items\<close> is the loop of \<open>cleanup_dir\<close> over the entries of \<open>dir\<close>; the recursive call for a
  sub directory reads its listing and loops over it. \<open>SHARD_DEPTH\<close> bounds the recursion.
\<close>

text \<open>\<open>meta.modified().map(|modified| modified <= cutoff).unwrap_or(false)\<close>.\<close>

definition is_stale :: "fs_plan \<Rightarrow> path \<Rightarrow> system_time \<Rightarrow> system_time \<Rightarrow> bool" where
  "is_stale pl p modified cutoff \<longleftrightarrow> fp_err pl OpModified p = None \<and> modified \<le> cutoff"

lemma is_staleD: "is_stale pl p m cutoff \<Longrightarrow> m \<le> cutoff"
  by (simp add: is_stale_def)

lemma is_stale_no_faults [simp]: "is_stale no_faults p m cutoff \<longleftrightarrow> m \<le> cutoff"
  by (simp add: is_stale_def)

function cleanup_items ::
  "crates \<Rightarrow> path \<Rightarrow> sql_plan \<Rightarrow> fs_plan \<Rightarrow> system_time \<Rightarrow> system_time \<Rightarrow> tables \<Rightarrow> path \<Rightarrow> nat \<Rightarrow>
   string list \<Rightarrow> fs \<Rightarrow> unit res \<times> fs" where
  "cleanup_items cr root spl pl now cutoff t dir depth [] fs =
     (case fp_err pl OpNextEntry dir of Some e \<Rightarrow> (Inl e, fs) | None \<Rightarrow> (Inr (), fs))"
| "cleanup_items cr root spl pl now cutoff t dir depth (name # names) fs =
     (let item = dir @ [name];
          continue = cleanup_items cr root spl pl now cutoff t dir depth names in
      case fp_err pl OpNextEntry item of
        Some e \<Rightarrow> (Inl e, fs)
      | None \<Rightarrow>
          if \<not> utf8_valid name then continue fs
          else (case fs_metadata pl item fs of
            Inl e \<Rightarrow> continue fs
          | Inr (Dir modified) \<Rightarrow>
              if depth \<ge> SHARD_DEPTH then continue fs
              else if \<not> is_shard_name name then continue fs
              else (case fs_read_dir pl item fs of
                Inl e \<Rightarrow> (Inl e, fs)
              | Inr inner \<Rightarrow>
                  (case cleanup_items cr root spl pl now cutoff t item (depth + 1) inner fs of
                    (Inl e, fs1) \<Rightarrow> (Inl e, fs1)
                  | (Inr _, fs1) \<Rightarrow>
                      continue (if is_stale pl item modified cutoff then snd (fs_remove_dir pl now item fs1) else fs1)))
          | Inr (File modified d) \<Rightarrow>
              if \<not> (depth = SHARD_DEPTH \<and> is_stale pl item modified cutoff) then continue fs
              else (case parse_name cr name of
                None \<Rightarrow> continue fs
              | Some i \<Rightarrow>
                  if id_path cr root i \<noteq> item then continue fs
                  else (case sql_blob_id_exists spl i t of
                    Inl e \<Rightarrow> (Inl e, fs)
                  | Inr referenced \<Rightarrow>
                      continue (if referenced then fs else snd (fs_remove_file pl now item fs))))))"
  by pat_completeness auto
termination
  by (relation "measures [\<lambda>(cr, root, spl, pl, now, cutoff, t, dir, depth, names, fs). SHARD_DEPTH - depth,
      \<lambda>(cr, root, spl, pl, now, cutoff, t, dir, depth, names, fs). length names]") auto

definition cleanup_dir ::
  "crates \<Rightarrow> vm_io_db \<Rightarrow> db_env \<Rightarrow> system_time \<Rightarrow> path \<Rightarrow> nat \<Rightarrow> store \<Rightarrow> unit res \<times> fs" where
  "cleanup_dir cr db ev cutoff dir depth s =
     (case fs_read_dir (ev_fs ev) dir (st_fs s) of
        Inl e \<Rightarrow> (Inl e, st_fs s)
      | Inr names \<Rightarrow> cleanup_items cr (root_dir db) (ev_sql ev) (ev_fs ev) (ev_now ev) cutoff (st_sql s)
          dir depth names (st_fs s))"

text \<open>One pass of the task: nothing when the cutoff is not representable; errors end the pass.\<close>

definition cleanup_pass :: "crates \<Rightarrow> vm_io_db \<Rightarrow> db_env \<Rightarrow> store \<Rightarrow> store" where
  "cleanup_pass cr db ev s =
     (case checked_sub (ev_now ev) CLEANUP_GRACE of
        None \<Rightarrow> s
      | Some cutoff \<Rightarrow> s\<lparr>st_fs := snd (cleanup_dir cr db ev cutoff (root_dir db) 0 s)\<rparr>)"

subsection \<open>What a pass may do to the file system\<close>

text \<open>
  \<open>garbage\<close>: a blob file in its place, untouched since the cutoff, that no row refers to.
  \<open>only_garbage\<close> relates two file systems where the second lacks garbage files and empty
  directories only.
\<close>

definition garbage :: "crates \<Rightarrow> path \<Rightarrow> system_time \<Rightarrow> tables \<Rightarrow> path \<Rightarrow> node \<Rightarrow> bool" where
  "garbage cr root cutoff t p n \<longleftrightarrow>
     (\<exists>m d i. n = File m d \<and> m \<le> cutoff \<and> parse_name cr (last p) = Some i \<and> id_path cr root i = p \<and>
       \<not> q_blob_id_exists i t)"

definition only_garbage :: "crates \<Rightarrow> path \<Rightarrow> system_time \<Rightarrow> tables \<Rightarrow> fs \<Rightarrow> fs \<Rightarrow> bool" where
  "only_garbage cr root cutoff t fs fs' \<longleftrightarrow>
     (\<forall>p m d. fs_lookup fs' p = Some (File m d) \<longrightarrow> fs_lookup fs p = Some (File m d)) \<and>
     (\<forall>p m d. fs_lookup fs p = Some (File m d) \<and> \<not> garbage cr root cutoff t p (File m d) \<longrightarrow>
        fs_lookup fs' p = Some (File m d)) \<and>
     (\<forall>p. is_dir fs' p \<longrightarrow> is_dir fs p)"

lemma only_garbage_refl [simp]: "only_garbage cr root cutoff t fs fs"
  by (simp add: only_garbage_def)

lemma only_garbage_trans:
  "only_garbage cr root cutoff t fs fs1 \<Longrightarrow> only_garbage cr root cutoff t fs1 fs2 \<Longrightarrow>
   only_garbage cr root cutoff t fs fs2"
  unfolding only_garbage_def by meson

lemma fs_lookup_remove_file:
  "fs_lookup (snd (fs_remove_file pl now p fs)) q = Some (File m d) \<longleftrightarrow>
     fs_lookup fs q = Some (File m d) \<and> \<not> (q = p \<and> fp_err pl OpRemoveFile p = None)"
  by (auto simp: fs_remove_file_def split: option.splits node.splits if_splits)

lemma fs_lookup_remove_dir:
  "fs_lookup (snd (fs_remove_dir pl now p fs)) q = Some (File m d) \<longleftrightarrow> fs_lookup fs q = Some (File m d)"
  by (auto simp: fs_remove_dir_def split: option.splits node.splits if_splits)

lemma is_dir_remove_dir: "is_dir (snd (fs_remove_dir pl now p fs)) q \<Longrightarrow> is_dir fs q"
  by (auto simp: fs_remove_dir_def is_dir_def split: option.splits node.splits if_splits)

lemma only_garbage_remove_file:
  assumes "fs_lookup fs p = Some (File m d)" "garbage cr root cutoff t p (File m d)"
  shows "only_garbage cr root cutoff t fs (snd (fs_remove_file pl now p fs))"
  using assms is_dir_touch_remove [of pl now p fs]
  unfolding only_garbage_def by (auto simp: fs_lookup_remove_file)

lemma only_garbage_remove_dir: "only_garbage cr root cutoff t fs (snd (fs_remove_dir pl now p fs))"
  unfolding only_garbage_def by (auto simp: fs_lookup_remove_dir dest: is_dir_remove_dir)

lemma fs_metadata_Inr: "fs_metadata pl p fs = Inr n \<Longrightarrow> fs_lookup fs p = Some n"
  by (auto simp: fs_metadata_def split: option.splits)

lemma sql_blob_id_exists_Inr: "sql_blob_id_exists spl i t = Inr b \<Longrightarrow> b = q_blob_id_exists i t"
  by (auto simp: sql_blob_id_exists_def and_then_eq_Inr)

subsection \<open>One entry of a listing\<close>

text \<open>What the loop decides for an entry, for the proofs: the function below is the loop body again.\<close>

datatype action = Stop io_error | Skip | Unlink | Descend system_time

definition file_action :: "crates \<Rightarrow> path \<Rightarrow> sql_plan \<Rightarrow> tables \<Rightarrow> path \<Rightarrow> string \<Rightarrow> action" where
  "file_action cr root spl t item name = (case parse_name cr name of
      None \<Rightarrow> Skip
    | Some i \<Rightarrow>
        if id_path cr root i \<noteq> item then Skip
        else (case sql_blob_id_exists spl i t of
          Inl e \<Rightarrow> Stop e | Inr referenced \<Rightarrow> if referenced then Skip else Unlink))"

definition entry_action ::
  "crates \<Rightarrow> path \<Rightarrow> sql_plan \<Rightarrow> fs_plan \<Rightarrow> system_time \<Rightarrow> tables \<Rightarrow> path \<Rightarrow> nat \<Rightarrow> string \<Rightarrow> fs \<Rightarrow> action" where
  "entry_action cr root spl pl cutoff t item depth name fs =
     (case fp_err pl OpNextEntry item of
        Some e \<Rightarrow> Stop e
      | None \<Rightarrow>
          if \<not> utf8_valid name then Skip
          else (case fs_metadata pl item fs of
            Inl e \<Rightarrow> Skip
          | Inr (Dir modified) \<Rightarrow>
              if depth < SHARD_DEPTH \<and> is_shard_name name then Descend modified else Skip
          | Inr (File modified d) \<Rightarrow>
              if depth = SHARD_DEPTH \<and> is_stale pl item modified cutoff then file_action cr root spl t item name
              else Skip))"

lemma cleanup_items_action:
  fixes cr root spl pl now cutoff t dir depth name names fs
  defines "rest \<equiv> cleanup_items cr root spl pl now cutoff t dir depth names"
  shows "cleanup_items cr root spl pl now cutoff t dir depth (name # names) fs =
    (case entry_action cr root spl pl cutoff t (dir @ [name]) depth name fs of
       Stop e \<Rightarrow> (Inl e, fs)
     | Skip \<Rightarrow> rest fs
     | Unlink \<Rightarrow> rest (snd (fs_remove_file pl now (dir @ [name]) fs))
     | Descend modified \<Rightarrow>
         (case fs_read_dir pl (dir @ [name]) fs of
            Inl e \<Rightarrow> (Inl e, fs)
          | Inr inner \<Rightarrow>
              (case cleanup_items cr root spl pl now cutoff t (dir @ [name]) (depth + 1) inner fs of
                 (Inl e, fs1) \<Rightarrow> (Inl e, fs1)
               | (Inr _, fs1) \<Rightarrow>
                   rest (if is_stale pl (dir @ [name]) modified cutoff then snd (fs_remove_dir pl now (dir @ [name]) fs1) else fs1))))"
  unfolding rest_def
  by (simp add: entry_action_def file_action_def Let_def not_le
      split: option.split sum.split node.split)

declare cleanup_items.simps(2) [simp del]

lemma file_action_Unlink:
  "file_action cr root spl t (dir @ [name]) name = Unlink \<Longrightarrow> is_stale pl p m cutoff \<Longrightarrow>
   garbage cr root cutoff t (dir @ [name]) (File m d)"
  by (auto simp: file_action_def garbage_def split: option.splits if_splits sum.splits
      dest: sql_blob_id_exists_Inr is_staleD)

lemma entry_action_Unlink:
  "entry_action cr root spl pl cutoff t (dir @ [name]) depth name fs = Unlink \<Longrightarrow>
   \<exists>m d. fs_lookup fs (dir @ [name]) = Some (File m d) \<and> garbage cr root cutoff t (dir @ [name]) (File m d)"
  by (auto simp: entry_action_def file_action_Unlink
      split: option.splits if_splits sum.splits node.splits dest!: fs_metadata_Inr)

lemma entry_action_Descend:
  "entry_action cr root spl pl cutoff t item depth name fs = Descend m \<Longrightarrow>
   fs_lookup fs item = Some (Dir m) \<and> depth < SHARD_DEPTH \<and> is_shard_name name"
  by (auto simp: entry_action_def file_action_def
      split: option.splits if_splits sum.splits node.splits dest!: fs_metadata_Inr)

lemma entry_action_Descend_conds:
  "entry_action cr root spl pl cutoff t item depth name fs = Descend m \<Longrightarrow>
   fp_err pl OpNextEntry item = None \<and> utf8_valid name \<and> fs_metadata pl item fs = Inr (Dir m) \<and>
   \<not> SHARD_DEPTH \<le> depth \<and> is_shard_name name"
  by (auto simp: entry_action_def file_action_def split: option.splits if_splits sum.splits node.splits)

text \<open>Induction over a pass, with the parameters of the pass fixed.\<close>

lemma cleanup_induct:
  fixes now :: system_time
  assumes nil: "\<And>dir depth fs. P dir depth [] fs"
    and cons: "\<And>dir depth name names fs.
      (\<And>fs. P dir depth names fs) \<Longrightarrow>
      (\<And>m inner. entry_action cr root spl pl cutoff t (dir @ [name]) depth name fs = Descend m \<Longrightarrow>
         fs_read_dir pl (dir @ [name]) fs = Inr inner \<Longrightarrow> P (dir @ [name]) (depth + 1) inner fs) \<Longrightarrow>
      P dir depth (name # names) fs"
  shows "P dir depth names fs"
  using nil cons
proof (induction cr root spl pl now cutoff t dir depth names fs rule: cleanup_items.induct)
  case (1 cr root spl pl now cutoff t dir depth fs)
  then show ?case by blast
next
  case (2 cr root spl pl now cutoff t dir depth name names fs)
  show ?case
  proof (rule "2.prems"(2))
    show "P dir depth names fs'" for fs' by (rule "2.IH"(1) [OF refl "2.prems"])
    fix m inner
    assume "entry_action cr root spl pl cutoff t (dir @ [name]) depth name fs = Descend m"
      and inner: "fs_read_dir pl (dir @ [name]) fs = Inr inner"
    note c = entry_action_Descend_conds [OF this(1)]
    show "P (dir @ [name]) (depth + 1) inner fs"
      by (rule "2.IH"(2) [OF refl refl _ _ _ refl _ _ inner "2.prems"]) (use c in simp_all)
  qed
qed

text \<open>
  Any relation on file systems that is reflexive, transitive, and holds for an unlinked garbage
  file and a removed directory holds for a whole pass.
\<close>

lemma cleanup_items_rel:
  assumes r: "\<And>fs. R fs fs" and trans: "\<And>a b c. R a b \<Longrightarrow> R b c \<Longrightarrow> R a c"
    and unlink: "\<And>fs p m d. fs_lookup fs p = Some (File m d) \<Longrightarrow> garbage cr root cutoff t p (File m d) \<Longrightarrow>
      R fs (snd (fs_remove_file pl now p fs))"
    and rmdir: "\<And>fs p. R fs (snd (fs_remove_dir pl now p fs))"
  shows "R fs (snd (cleanup_items cr root spl pl now cutoff t dir depth names fs))"
proof (induction dir depth names fs rule: cleanup_induct [where cr = cr and root = root and spl = spl
      and pl = pl and cutoff = cutoff and t = t])
  case (1 dir depth fs)
  then show ?case by (simp add: r split: option.split)
next
  case (2 dir depth name names fs)
  let ?item = "dir @ [name]"
  let ?rest = "cleanup_items cr root spl pl now cutoff t dir depth names"
  note step = cleanup_items_action [of cr root spl pl now cutoff t dir depth name names fs]
  show ?case
  proof (cases "entry_action cr root spl pl cutoff t ?item depth name fs")
    case (Stop e)
    then show ?thesis by (simp add: step r)
  next
    case Skip
    then show ?thesis using 2(1) by (simp add: step)
  next
    case Unlink
    then obtain m d where "fs_lookup fs ?item = Some (File m d)" "garbage cr root cutoff t ?item (File m d)"
      using entry_action_Unlink by blast
    then show ?thesis using trans [OF unlink 2(1)] Unlink by (simp add: step)
  next
    case (Descend m)
    show ?thesis
    proof (cases "fs_read_dir pl ?item fs")
      case (Inl e)
      with Descend show ?thesis by (simp add: step r)
    next
      case (Inr inner)
      obtain r1 fs1 where inner: "cleanup_items cr root spl pl now cutoff t ?item (depth + 1) inner fs = (r1, fs1)"
        by force
      have fs1: "R fs fs1" using 2(2) [OF Descend Inr] inner by simp
      let ?fs2 = "if is_stale pl ?item m cutoff then snd (fs_remove_dir pl now ?item fs1) else fs1"
      have "R fs1 ?fs2" by (simp add: r rmdir)
      with fs1 have "R fs ?fs2" by (rule trans)
      then have "R fs (snd (?rest ?fs2))" using 2(1) by (rule trans)
      then show ?thesis using fs1 Descend Inr inner by (cases r1) (simp_all add: step)
    qed
  qed
qed

lemma only_garbage_cleanup:
  "only_garbage cr root cutoff t fs (snd (cleanup_items cr root spl pl now cutoff t dir depth names fs))"
proof (rule cleanup_items_rel)
  show "only_garbage cr root cutoff t fs (snd (fs_remove_dir pl now p fs))" for fs p
    by (rule only_garbage_remove_dir)
qed (fact only_garbage_refl only_garbage_trans only_garbage_remove_file)+

lemma fs_wf_cleanup:
  "fs_wf fs \<Longrightarrow> fs_wf (snd (cleanup_items cr root spl pl now cutoff t dir depth names fs))"
  using cleanup_items_rel [of "\<lambda>a b. fs_wf a \<longrightarrow> fs_wf b" cr root cutoff t pl now fs spl dir depth names]
  by (blast intro: fs_wf_remove_file fs_wf_remove_dir)

subsection \<open>A pass keeps the represented maps\<close>

lemma garbage_unreferenced:
  assumes "hex_ok cr" "length i = 32" "garbage cr root cutoff t (id_path cr root i) n"
  shows "\<not> q_blob_id_exists i t"
proof -
  obtain j where "parse_name cr (last (id_path cr root i)) = Some j" "id_path cr root j = id_path cr root i"
      "\<not> q_blob_id_exists j t"
    using assms(3) by (auto simp: garbage_def)
  then show ?thesis using assms(1,2) parse_name_id_path [of cr i root] by simp
qed

lemma only_garbage_file_at: "only_garbage cr root cutoff t fs fs' \<Longrightarrow> file_at fs' p = Some d \<Longrightarrow> file_at fs p = Some d"
  unfolding only_garbage_def file_at_Some_lookup by blast

lemma only_garbage_kept:
  assumes "only_garbage cr root cutoff t fs fs'" "file_at fs (id_path cr root i) = Some d"
    and "hex_ok cr" "length i = 32" "q_blob_id_exists i t"
  shows "file_at fs' (id_path cr root i) = Some d"
proof -
  obtain m where m: "fs_lookup fs (id_path cr root i) = Some (File m d)"
    using assms(2) by (auto simp: file_at_Some_lookup)
  have "\<not> garbage cr root cutoff t (id_path cr root i) (File m d)"
    using garbage_unreferenced assms(3-5) by blast
  then have "fs_lookup fs' (id_path cr root i) = Some (File m d)"
    using assms(1) m unfolding only_garbage_def by blast
  then show ?thesis by (auto simp: file_at_Some_lookup)
qed

lemma store_rep_only_garbage:
  assumes hyps: "db_hyps cr db U" and rep: "store_rep cr db U a s"
    and og: "only_garbage cr (root_dir db) cutoff (st_sql s) (st_fs s) fs'"
  shows "store_rep cr db U a (s\<lparr>st_fs := fs'\<rparr>)"
proof (rule store_rep_fs [OF rep])
  have content: "blob_content (cfg_of cr db) fs x = file_at fs (id_path cr (root_dir db) x)" for fs x
    by (simp add: blob_content_def be_path_def cfg_of_def)
  show "blobs.genuine (cfg_of cr db) (w_id cr db) (w_data cr db) U fs'"
    using store_repD(6) [OF rep] only_garbage_file_at [OF og] unfolding blobs.genuine_def content by blast
  show "no_blob_dirs cr db fs'"
    using store_repD(7) [OF rep] og unfolding no_blob_dirs_def only_garbage_def by blast
  fix k df
  assume k: "a_chunks a k = Some df"
  then have "q_chunk k (st_sql s) = Some (w_row cr db (k, df))"
    using store_repD(3) [OF rep, of k] by simp
  then have "w_row cr db (k, df) \<in> set (chunks (st_sql s))"
    using store_repD(1) [OF rep] by (simp add: q_chunk_Some)
  then have "q_blob_id_exists (w_id cr db (k, df)) (st_sql s)"
    unfolding q_blob_id_exists_def by (metis c_blob_id_w_row image_eqI list.set_map)
  then show "blob_content (cfg_of cr db) fs' (w_id cr db (k, df))
      = blob_content (cfg_of cr db) (st_fs s) (w_id cr db (k, df))"
    using only_garbage_kept [OF og] store_repD(5) [OF rep k] hyps by (simp add: content db_hyps_def)
qed

subsection \<open>A pass finds all garbage\<close>

lemma ancestor_dir:
  assumes "fs_wf fs" "fs_lookup fs p = Some n" "strict_prefix q p"
  shows "is_dir fs q"
  using assms(2,3)
proof (induction p arbitrary: n rule: rev_induct)
  case (snoc c p)
  then have "is_dir fs p" using fs_wfD [OF assms(1) snoc.prems(1)] by simp
  moreover have "q = p \<or> strict_prefix q p" using snoc.prems(2) by (auto simp: strict_prefix_def)
  ultimately show ?case using snoc.IH by (auto simp: is_dir_def)
qed simp

lemma id_path_component:
  assumes "hex_ok cr" "length i = 32"
  shows "k < SHARD_DEPTH \<Longrightarrow> is_shard_name (id_path cr root i ! (length root + k))"
    and "id_path cr root i ! (length root + SHARD_DEPTH) = hex_encode cr i"
    and "k \<le> SHARD_DEPTH \<Longrightarrow> utf8_valid (id_path cr root i ! (length root + k))"
proof -
  let ?hex = "hex_encode cr i"
  have nth: "id_path cr root i ! (length root + k) =
      [take SHARD_LEN ?hex, take SHARD_LEN (drop SHARD_LEN ?hex), take SHARD_LEN (drop (SHARD_LEN * 2) ?hex), ?hex] ! k" for k
    by (simp add: id_path_def Let_def nth_append)
  have ascii: "utf8_valid s" if "set s \<subseteq> set ?hex" for s
  proof (rule utf8_valid_ascii)
    have small: "\<forall>c \<in> set hex_chars. (of_char c :: nat) < 0x80" by (simp add: hex_chars_def)
    show "(of_char c :: nat) < 0x80" if "c \<in> set s" for c
      using that \<open>set s \<subseteq> set ?hex\<close> hex_ok_set [OF assms(1)] small by blast
  qed
  have shard: "is_shard_name (take SHARD_LEN (drop n ?hex))" if "n \<le> 8" for n
    using shard_names [OF assms that] .
  show "k < SHARD_DEPTH \<Longrightarrow> is_shard_name (id_path cr root i ! (length root + k))"
    using shard [of 0] shard [of SHARD_LEN] shard [of "SHARD_LEN * 2"]
    by (auto simp: nth SHARD_DEPTH_def less_Suc_eq numeral_3_eq_3 SHARD_LEN_def)
  show "id_path cr root i ! (length root + SHARD_DEPTH) = ?hex"
    by (simp add: nth SHARD_DEPTH_def)
  show "k \<le> SHARD_DEPTH \<Longrightarrow> utf8_valid (id_path cr root i ! (length root + k))"
    using ascii by (auto simp: nth SHARD_DEPTH_def le_Suc_eq numeral_3_eq_3 dest!: in_set_takeD in_set_dropD
        intro!: ascii)
qed

lemma prefix_snoc_nth: "prefix (dir @ [n]) p \<longleftrightarrow> prefix dir p \<and> length dir < length p \<and> n = p ! length dir"
proof
  assume "prefix (dir @ [n]) p"
  then show "prefix dir p \<and> length dir < length p \<and> n = p ! length dir"
    by (auto simp: prefix_def nth_append)
next
  assume a: "prefix dir p \<and> length dir < length p \<and> n = p ! length dir"
  then obtain r where "p = dir @ r" by (auto simp: prefix_def)
  with a show "prefix (dir @ [n]) p" by (cases r) (auto simp: nth_append)
qed

definition stale :: "system_time \<Rightarrow> path \<Rightarrow> fs \<Rightarrow> bool" where
  "stale cutoff p fs \<longleftrightarrow> (\<forall>m d. fs_lookup fs p = Some (File m d) \<longrightarrow> m \<le> cutoff)"

lemma stale_later: "stale cutoff p fs \<Longrightarrow> only_garbage cr root cutoff t fs fs' \<Longrightarrow> stale cutoff p fs'"
  unfolding stale_def only_garbage_def by blast

lemma gone_later: "file_at fs p = None \<Longrightarrow> only_garbage cr root cutoff t fs fs' \<Longrightarrow> file_at fs' p = None"
  using only_garbage_file_at [of cr root cutoff t fs fs' p] by (cases "file_at fs' p") auto

text \<open>The action for the entry on the way to a garbage file.\<close>

lemma action_at_garbage:
  assumes hyps: "hex_ok cr" "length i = 32" "\<not> q_blob_id_exists i t"
    and wf: "fs_wf fs" and len: "length dir = length root + depth"
    and way: "prefix (dir @ [name]) (id_path cr root i)"
    and "stale cutoff (id_path cr root i) fs" and there: "fs_lookup fs (id_path cr root i) = Some (File m d)"
  shows "entry_action cr root sql_ok no_faults cutoff t (dir @ [name]) depth name fs =
      (if depth = SHARD_DEPTH then Unlink else Descend (mtime (the (fs_lookup fs (dir @ [name]))))) \<and>
    (depth = SHARD_DEPTH \<longrightarrow> dir @ [name] = id_path cr root i) \<and>
    (depth \<noteq> SHARD_DEPTH \<longrightarrow> depth < SHARD_DEPTH \<and> is_dir fs (dir @ [name]))"
proof -
  let ?p = "id_path cr root i"
  have n: "prefix dir ?p" "length dir < length ?p" "name = ?p ! length dir"
    using way by (simp_all only: prefix_snoc_nth)
  then have depth: "depth \<le> SHARD_DEPTH" using len by (simp add: length_id_path)
  then have utf8: "utf8_valid name" using id_path_component(3) [OF hyps(1,2)] n(3) len by simp
  show ?thesis
  proof (cases "depth = SHARD_DEPTH")
    case True
    obtain r where r: "?p = (dir @ [name]) @ r" using way by (auto simp only: prefix_def)
    have "length ?p = length (dir @ [name])" using len True by (simp add: length_id_path)
    then have "length r = 0" using arg_cong [OF r, of length] by (simp del: append_assoc)
    then have item: "dir @ [name] = ?p" using r by simp
    moreover have "m \<le> cutoff" using assms(7) there by (auto simp: stale_def)
    moreover have "name = hex_encode cr i" using id_path_component(2) [OF hyps(1,2)] n(3) len True by simp
    ultimately show ?thesis
      using True there utf8 hyps by (simp add: entry_action_def file_action_def fs_metadata_def parse_name_def sql_ok_results)
  next
    case False
    with depth have lt: "depth < SHARD_DEPTH" by simp
    then have shard: "is_shard_name name" using id_path_component(1) [OF hyps(1,2)] n(3) len by simp
    have "length (dir @ [name]) \<noteq> length ?p" using lt len by (simp add: length_id_path)
    then have "strict_prefix (dir @ [name]) ?p" using way by (metis strict_prefix_def)
    then have "is_dir fs (dir @ [name])" using ancestor_dir [OF wf there] by simp
    then show ?thesis using False lt shard utf8
      by (auto simp: is_dir_def entry_action_def fs_metadata_def)
  qed
qed

text \<open>One step further on the way.\<close>

lemma child_on_way:
  assumes "fs_wf fs" "fs_lookup fs p = Some (File m d)" "strict_prefix q p" "fs_read_dir no_faults q fs = Inr inner"
  shows "\<exists>n \<in> set inner. prefix (q @ [n]) p"
proof (intro bexI)
  show pre: "prefix (q @ [p ! length q]) p"
    using assms(3) by (simp add: prefix_snoc_nth prefix_length_less)
  then have "q @ [p ! length q] = p \<or> strict_prefix (q @ [p ! length q]) p" by (auto simp: strict_prefix_def)
  then have "\<exists>n. fs_lookup fs (q @ [p ! length q]) = Some n"
    using ancestor_dir [OF assms(1,2)] assms(2) by (auto simp: is_dir_def)
  then show "p ! length q \<in> set inner"
    using assms(4) children_iff by (auto simp: fs_read_dir_def split: option.splits node.splits)
qed

definition finds :: "crates \<Rightarrow> path \<Rightarrow> tables \<Rightarrow> system_time \<Rightarrow> bytes \<Rightarrow> path \<Rightarrow> string list \<Rightarrow> fs \<Rightarrow> unit res \<times> fs \<Rightarrow> bool" where
  "finds cr root t cutoff i dir names fs res \<longleftrightarrow> fst res = Inr () \<and>
     ((\<exists>n \<in> set names. prefix (dir @ [n]) (id_path cr root i)) \<and> stale cutoff (id_path cr root i) fs \<longrightarrow>
       file_at (snd res) (id_path cr root i) = None)"

lemma cleanup_finds:
  assumes hyps: "hex_ok cr" "length i = 32" "\<not> q_blob_id_exists i t"
  shows "fs_wf fs \<Longrightarrow> length dir = length root + depth \<Longrightarrow>
    finds cr root t cutoff i dir names fs (cleanup_items cr root sql_ok no_faults now cutoff t dir depth names fs)"
proof (induction dir depth names fs rule: cleanup_induct [where cr = cr and root = root and spl = sql_ok
      and pl = no_faults and cutoff = cutoff and t = t])
  case (1 dir depth fs)
  then show ?case by (simp add: finds_def)
next
  case (2 dir depth name names fs)
  let ?item = "dir @ [name]" and ?p = "id_path cr root i"
  let ?rest = "cleanup_items cr root sql_ok no_faults now cutoff t dir depth names"
  let ?head = "prefix ?item ?p \<and> stale cutoff ?p fs"
  note step = cleanup_items_action [of cr root sql_ok no_faults now cutoff t dir depth name names fs]
  have rest: "finds cr root t cutoff i dir (name # names) fs (?rest fs1)"
    if og: "only_garbage cr root cutoff t fs fs1" and "fs_wf fs1" and gone: "?head \<Longrightarrow> file_at fs1 ?p = None" for fs1
  proof -
    have "finds cr root t cutoff i dir names fs1 (?rest fs1)"
      by (rule "2.IH"(1) [OF that(2) "2.prems"(2)])
    moreover have "?head \<Longrightarrow> file_at (snd (?rest fs1)) ?p = None"
      using gone_later [OF gone only_garbage_cleanup] by blast
    ultimately show ?thesis using stale_later [OF _ og] by (auto simp: finds_def)
  qed
  have there: "\<exists>m d. fs_lookup fs ?p = Some (File m d)" if "file_at fs ?p \<noteq> None"
    using that by (auto simp: file_at_Some_lookup)
  note at = action_at_garbage [OF hyps "2.prems"]
  show ?case
  proof (cases "entry_action cr root sql_ok no_faults cutoff t ?item depth name fs")
    case (Stop e)
    then show ?thesis
      by (auto simp: entry_action_def file_action_def sql_ok_results split: if_splits sum.splits node.splits option.splits)
  next
    case Skip
    have "file_at fs ?p = None" if h: ?head
    proof (rule ccontr)
      assume "file_at fs ?p \<noteq> None"
      then show False using at there h Skip by (metis action.distinct(7) action.distinct(9))
    qed
    then show ?thesis using rest [OF only_garbage_refl "2.prems"(1)] by (simp only: step Skip action.case)
  next
    case Unlink
    then obtain m d where g: "fs_lookup fs ?item = Some (File m d)" "garbage cr root cutoff t ?item (File m d)"
      using entry_action_Unlink by blast
    have "file_at (snd (fs_remove_file no_faults now ?item fs)) ?p = None" if h: ?head
    proof (cases "file_at fs ?p")
      case None
      then show ?thesis using gone_later only_garbage_remove_file [OF g] by blast
    next
      case (Some x)
      then have "?item = ?p" using at there h Unlink by (metis action.distinct(11) option.distinct(1))
      then show ?thesis by (simp add: file_at_remove_file)
    qed
    then show ?thesis
      using rest [OF only_garbage_remove_file [OF g] fs_wf_remove_file [OF "2.prems"(1)]]
      by (simp only: step Unlink action.case)
  next
    case (Descend m)
    then have dir: "fs_lookup fs ?item = Some (Dir m)" using entry_action_Descend by blast
    then obtain inner where inner: "fs_read_dir no_faults ?item fs = Inr inner" by (auto simp: fs_read_dir_def)
    let ?in = "cleanup_items cr root sql_ok no_faults now cutoff t ?item (depth + 1) inner fs"
    let ?fs2 = "if m \<le> cutoff then snd (fs_remove_dir no_faults now ?item (snd ?in)) else snd ?in"
    have sub: "finds cr root t cutoff i ?item inner fs ?in"
      by (rule "2.IH"(2) [OF Descend inner "2.prems"(1)]) (use "2.prems"(2) in simp)
    have og: "only_garbage cr root cutoff t fs ?fs2"
      using only_garbage_trans [OF only_garbage_cleanup only_garbage_remove_dir] only_garbage_cleanup by simp
    have "file_at (snd ?in) ?p = None" if h: ?head
    proof (cases "file_at fs ?p")
      case None
      then show ?thesis using gone_later only_garbage_cleanup by blast
    next
      case (Some x)
      then obtain m' d where p: "fs_lookup fs ?p = Some (File m' d)" using there by blast
      then have "strict_prefix ?item ?p" using h dir by (metis node.distinct(1) option.inject strict_prefix_def)
      from child_on_way [OF "2.prems"(1) p this inner] show ?thesis using sub h by (simp add: finds_def)
    qed
    then have "file_at ?fs2 ?p = None" if ?head using that by simp
    moreover have "fs_wf ?fs2" using "2.prems"(1) by (simp add: fs_wf_cleanup fs_wf_remove_dir)
    ultimately have "finds cr root t cutoff i dir (name # names) fs (?rest ?fs2)" using rest [OF og] by blast
    moreover obtain fs1 where fs1: "?in = (Inr (), fs1)" using sub by (cases ?in) (auto simp: finds_def)
    ultimately show ?thesis by (simp only: step Descend inner action.case sum.case prod.case snd_conv is_stale_no_faults)
  qed
qed

subsection \<open>Properties\<close>

lemma cleanup_pass_cases:
  obtains (skip) "cleanup_pass cr db ev s = s"
  | (pass) cutoff where "cutoff = ev_now ev - CLEANUP_GRACE"
      "only_garbage cr (root_dir db) cutoff (st_sql s) (st_fs s) (st_fs (cleanup_pass cr db ev s))"
      "cleanup_pass cr db ev s = s\<lparr>st_fs := st_fs (cleanup_pass cr db ev s)\<rparr>"
proof (cases "checked_sub (ev_now ev) CLEANUP_GRACE")
  case None
  then show ?thesis by (intro skip) (simp add: cleanup_pass_def)
next
  case (Some cutoff)
  then show ?thesis
    by (intro pass [of cutoff])
      (auto simp: cleanup_pass_def checked_sub_def cleanup_dir_def only_garbage_cleanup split: if_splits sum.split)
qed

text \<open>
  C9. The cleanup pass only reclaims garbage: whatever fails, it changes no row, creates and
  changes no file, and every file it removes is at the path of its own blob id, was untouched for
  the grace period and has no row that refers to it; so neither the sqlite files nor any file that
  is not a blob in its place is ever removed.
\<close>

theorem cleanup_removes_garbage_only:
  assumes s'_def: "s' = cleanup_pass cr db ev s"
  shows "st_sql s' = st_sql s \<and>
    (\<forall>p m d. fs_lookup (st_fs s') p = Some (File m d) \<longrightarrow> fs_lookup (st_fs s) p = Some (File m d)) \<and>
    (\<forall>p m d. fs_lookup (st_fs s) p = Some (File m d) \<and> fs_lookup (st_fs s') p \<noteq> Some (File m d) \<longrightarrow>
       m \<le> ev_now ev - CLEANUP_GRACE \<and>
       (\<exists>i. p = id_path cr (root_dir db) i \<and> parse_name cr (last p) = Some i \<and> \<not> q_blob_id_exists i (st_sql s)))"
proof (cases rule: cleanup_pass_cases [of cr db ev s])
  case skip
  then show ?thesis by (simp add: s'_def)
next
  case (pass cutoff)
  have "st_sql s' = st_sql s" using pass(3) unfolding s'_def by (metis store.select_convs(1) store.surjective store.update_convs(2))
  moreover have "m \<le> ev_now ev - CLEANUP_GRACE \<and>
       (\<exists>i. p = id_path cr (root_dir db) i \<and> parse_name cr (last p) = Some i \<and> \<not> q_blob_id_exists i (st_sql s))"
    if "fs_lookup (st_fs s) p = Some (File m d)" "fs_lookup (st_fs s') p \<noteq> Some (File m d)" for p m d
  proof -
    have "garbage cr (root_dir db) cutoff (st_sql s) p (File m d)"
      using that pass(2) unfolding only_garbage_def s'_def by blast
    then show ?thesis using pass(1) unfolding garbage_def by auto
  qed
  ultimately show ?thesis using pass(2) unfolding only_garbage_def s'_def by blast
qed

theorem cleanup_removes_garbage_only_witness:
  "fs_lookup (st_fs (cleanup_pass demo_crates demo_db ok_env
     \<lparr>st_sql = empty_tables, st_fs = [([''r''], Dir 0), ([''r'', ''db.sqlite''], File 7 [1])]\<rparr>)) [''r'', ''db.sqlite'']
   = Some (File 7 [1])"
proof -
  let ?s = "\<lparr>st_sql = empty_tables, st_fs = [([''r''], Dir 0), ([''r'', ''db.sqlite''], File 7 [1])]\<rparr>"
  have "fs_lookup (st_fs ?s) [''r'', ''db.sqlite''] = Some (File 7 [1])" by (simp add: fs_lookup_def)
  moreover have "\<not> (7 :: int) \<le> ev_now ok_env - CLEANUP_GRACE"
    by (simp add: ok_env_def CLEANUP_GRACE_def of_secs_def)
  ultimately show ?thesis
    using cleanup_removes_garbage_only [OF refl, of demo_crates demo_db ok_env ?s] by blast
qed

lemma store_rep_cleanup_pass:
  assumes "db_hyps cr db U" "store_rep cr db U a s"
  shows "store_rep cr db U a (cleanup_pass cr db ev s)"
proof (cases rule: cleanup_pass_cases [of cr db ev s])
  case skip
  with assms(2) show ?thesis by simp
next
  case (pass cutoff)
  with store_rep_only_garbage [OF assms pass(2)] show ?thesis by metis
qed

text \<open>
  Cleanup is invisible to readers: a pass between two calls keeps the represented entries and
  chunks, with every stored blob complete.
\<close>

lemma cleanup_refines_skip:
  assumes "db_hyps cr db U" "store_rep cr db U a s"
  shows "store_rep cr db U a (cleanup_pass cr db ev s)"
  using assms by (rule store_rep_cleanup_pass)

lemma cleanup_refines_skip_witness:
  "store_rep demo_crates demo_db {demo_write} demo_adb (cleanup_pass demo_crates demo_db ok_env demo_store)"
  by (rule cleanup_refines_skip [OF demo_hyps demo_rep])

lemma cleanup_collects:
  assumes "hex_ok cr" "length i = 32" "\<not> q_blob_id_exists i (st_sql s)"
    and "fs_wf (st_fs s)" "is_dir (st_fs s) (root_dir db)" "root_dir db \<noteq> []"
    and "ev_sql ev = sql_ok" "ev_fs ev = no_faults"
    and "checked_sub (ev_now ev) CLEANUP_GRACE = Some cutoff"
    and "\<And>m d. fs_lookup (st_fs s) (id_path cr (root_dir db) i) = Some (File m d) \<Longrightarrow> m \<le> cutoff"
  shows "file_at (st_fs (cleanup_pass cr db ev s)) (id_path cr (root_dir db) i) = None"
proof (cases "file_at (st_fs s) (id_path cr (root_dir db) i)")
  case None
  show ?thesis
    by (rule cleanup_pass_cases [of cr db ev s]) (use None gone_later in auto)
next
  case (Some x)
  let ?root = "root_dir db"
  let ?p = "id_path cr ?root i"
  obtain m d where p: "fs_lookup (st_fs s) ?p = Some (File m d)" using Some by (auto simp: file_at_Some_lookup)
  obtain inner where inner: "fs_read_dir no_faults ?root (st_fs s) = Inr inner"
    using assms(5,6) by (auto simp: is_dir_def fs_read_dir_def)
  have "strict_prefix ?root ?p" by (simp add: id_path_def Let_def strict_prefix_def)
  from child_on_way [OF assms(4) p this inner]
  have "\<exists>n \<in> set inner. prefix (?root @ [n]) ?p" .
  moreover have "stale cutoff ?p (st_fs s)" using assms(10) by (simp add: stale_def)
  ultimately show ?thesis
    using cleanup_finds [OF assms(1-4), of ?root ?root 0 cutoff inner "ev_now ev"] inner assms(7-9)
    by (simp add: finds_def cleanup_pass_def cleanup_dir_def del: sql_ok_simp)
qed

text \<open>
  C23. Cleanup is complete: with no fault, a pass over a well-formed tree removes every blob file
  that no row refers to and that has not been touched since the cutoff.
\<close>

theorem cleanup_complete:
  assumes "hex_ok cr" "length i = 32" "\<not> q_blob_id_exists i (st_sql s)"
    and "fs_wf (st_fs s)" "is_dir (st_fs s) (root_dir db)" "root_dir db \<noteq> []"
    and "ev_sql ev = sql_ok" "ev_fs ev = no_faults"
    and "checked_sub (ev_now ev) CLEANUP_GRACE = Some cutoff"
    and "\<And>m d. fs_lookup (st_fs s) (id_path cr (root_dir db) i) = Some (File m d) \<Longrightarrow> m \<le> cutoff"
  shows "file_at (st_fs (cleanup_pass cr db ev s)) (id_path cr (root_dir db) i) = None"
  by (rule cleanup_collects [OF assms])

definition demo_garbage_fs :: fs where
  "demo_garbage_fs = (let z = replicate 4 (CHR ''0'') in
     [([''r''], Dir 0), ([''r'', z], Dir 0), ([''r'', z, z], Dir 0), ([''r'', z, z, z], Dir 0),
      ([''r'', z, z, z, replicate 64 (CHR ''0'')], File 0 [1])])"

lemma demo_zero_path:
  "id_path demo_crates [''r''] (replicate 32 0) =
   [''r'', replicate 4 (CHR ''0''), replicate 4 (CHR ''0''), replicate 4 (CHR ''0''), replicate 64 (CHR ''0'')]"
  by code_simp

lemma demo_garbage_wf: "fs_wf demo_garbage_fs"
proof -
  have "list_all (\<lambda>(p, n). p \<noteq> [] \<and> is_dir demo_garbage_fs (butlast p)) demo_garbage_fs" by code_simp
  moreover have "distinct (map fst demo_garbage_fs)" by code_simp
  ultimately show ?thesis
    by (auto simp: fs_wf_def fs_lookup_def list_all_iff dest!: map_of_SomeD)
qed

theorem cleanup_complete_witness:
  "file_at (st_fs (cleanup_pass demo_crates demo_db (ok_env\<lparr>ev_now := 300000000000\<rparr>)
     \<lparr>st_sql = empty_tables, st_fs = demo_garbage_fs\<rparr>)) (id_path demo_crates [''r''] (replicate 32 0)) = None"
proof -
  let ?s = "\<lparr>st_sql = empty_tables, st_fs = demo_garbage_fs\<rparr>"
  have "checked_sub (ev_now (ok_env\<lparr>ev_now := 300000000000\<rparr>)) CLEANUP_GRACE = Some 0"
    by (simp add: checked_sub_def CLEANUP_GRACE_def of_secs_def i64_defs)
  moreover have "is_dir (st_fs ?s) (root_dir demo_db)"
    by (simp add: is_dir_def fs_lookup_def demo_garbage_fs_def Let_def demo_db_def)
  moreover have "m \<le> 0" if "fs_lookup (st_fs ?s) (id_path demo_crates (root_dir demo_db) (replicate 32 0)) = Some (File m d)" for m d
    using that by (simp add: demo_db_def demo_zero_path fs_lookup_def demo_garbage_fs_def Let_def split: if_splits)
  ultimately show ?thesis
    using cleanup_complete [of demo_crates "replicate 32 0" ?s demo_db "ok_env\<lparr>ev_now := 300000000000\<rparr>" 0] demo_garbage_wf
    by (simp add: demo_db_def ok_env_def q_blob_id_exists_def empty_tables_def)
qed

end
