(* ===== verification/Db_Demo.thy ===== *)
theory Db_Demo
  imports Db_Props
begin

section \<open>A database with a stored chunk\<close>

text \<open>
  A concrete store for the witnesses: one entry with one chunk, whose blob file is in its shard
  directories, and a second write for the same place.
\<close>

definition demo_write2 :: chunk_write where
  "demo_write2 = ((''c'', ''k'', 0), [4, 5, 6], True)"

abbreviation demo_path :: "chunk_write \<Rightarrow> path" where
  "demo_path w \<equiv> be_path (cfg_of demo_crates demo_db) (w_id demo_crates demo_db w)"

definition demo_stored :: store where
  "demo_stored = \<lparr>st_sql = (st_sql demo_store)\<lparr>chunks := [w_row demo_crates demo_db demo_write]\<rparr>,
     st_fs = map (\<lambda>n. (take n (demo_path demo_write), Dir 0)) [1, 2, 3, 4] @
       [(demo_path demo_write, File 0 (w_data demo_crates demo_db demo_write))]\<rparr>"

lemma demo_id: "w_id demo_crates demo_db (k, d, True) = 1 # take 31 (rev (pad32 d))"
  by (cases k) (simp add: w_id_eq gen_id_def derive_def frame_def Let_def demo_crates_def pad32_def [of "_ @ _"])

lemma demo_ids: "w_id demo_crates demo_db demo_write \<noteq> w_id demo_crates demo_db demo_write2"
proof -
  have "w_id demo_crates demo_db (k, d, True) ! 31 = pad32 d ! 1" for k d
    by (simp add: demo_id nth_Cons' rev_nth)
  moreover have "pad32 [1, 2, 3] ! 1 = 2" "pad32 [4, 5, 6] ! 1 = 5" by (simp_all add: pad32_def)
  moreover have "(2 :: u8) \<noteq> 5" by simp
  ultimately show ?thesis unfolding demo_write_def demo_write2_def by metis
qed

lemma demo_hyps2 [simp]: "db_hyps demo_crates demo_db {demo_write, demo_write2}"
  using demo_ids by (auto simp: db_hyps_def inj_on_def)

lemma demo_path_parts:
  obtains a b c d where "demo_path w = [''r'', a, b, c, d]"
  by (simp add: be_path_def cfg_of_def id_path_def Let_def demo_db_def)

lemma demo_paths: "demo_path demo_write2 \<noteq> demo_path demo_write"
  using be_path_inject db_hyps_ok [OF demo_hyps2] demo_ids by metis

text \<open>The files of the store.\<close>

lemma demo_stored_fs:
  "fs_lookup (st_fs demo_stored) p =
     (if \<exists>n \<in> {1, 2, 3, 4}. p = take n (demo_path demo_write) then Some (Dir 0)
      else if p = demo_path demo_write then Some (File 0 (w_data demo_crates demo_db demo_write)) else None)"
  by (rule demo_path_parts [of demo_write]) (auto simp: demo_stored_def fs_lookup_def)

lemma demo_stored_wf: "fs_wf (st_fs demo_stored)"
  by (rule demo_path_parts [of demo_write]) (auto simp: demo_stored_def fs_wf_def fs_lookup_def is_dir_def split: if_splits)

lemma demo_stored_dir: "is_dir (st_fs demo_stored) p \<Longrightarrow> length p < 5"
  by (rule demo_path_parts [of demo_write]) (auto simp: is_dir_def demo_stored_fs split: if_splits)

lemma demo_stored_file: "fs_lookup (st_fs demo_stored) p = Some (File m d) \<Longrightarrow> p = demo_path demo_write \<and> m = 0"
  by (auto simp: demo_stored_fs split: if_splits)

lemma length_demo_path [simp]: "length (be_path (cfg_of demo_crates demo_db) i) = 5"
  by (simp add: be_path_def cfg_of_def length_id_path SHARD_DEPTH_def demo_db_def)

lemma demo_stored_content:
  assumes "v \<in> {demo_write, demo_write2}"
  shows "blob_content (cfg_of demo_crates demo_db) (st_fs demo_stored) (w_id demo_crates demo_db v) =
     (if v = demo_write then Some (w_data demo_crates demo_db v) else None)"
proof -
  have "demo_path v \<noteq> take n (demo_path demo_write)" if "n \<in> {1, 2, 3, 4}" for n
    using that by (auto dest!: arg_cong [where f = length])
  then show ?thesis
    using assms demo_paths by (auto simp: blob_content_def file_at_def demo_stored_fs)
qed

lemma demo_stored_rep [simp]:
  "store_rep demo_crates demo_db {demo_write, demo_write2} (a_put_chunk demo_write demo_adb) demo_stored"
  unfolding store_rep_def
proof (intro conjI allI impI)
  let ?c = "cfg_of demo_crates demo_db" and ?U = "{demo_write, demo_write2}"
  show "tables_wf (st_sql demo_stored)"
    by (simp add: tables_wf_def demo_stored_def demo_store_def c_parent_def demo_write_def w_row_eq Let_def)
  show "q_entry k (st_sql demo_stored) = a_entries (a_put_chunk demo_write demo_adb) k" for k
    by (simp add: demo_stored_def demo_store_def demo_adb_def a_put_chunk_def q_entry_def)
  show "q_chunk k (st_sql demo_stored) =
      map_option (\<lambda>df. w_row demo_crates demo_db (k, df)) (a_chunks (a_put_chunk demo_write demo_adb) k)" for k
    by (cases "k = fst demo_write") (simp_all add: demo_stored_def demo_adb_def a_put_chunk_def q_chunk_def find_row_def)
  show "no_blob_dirs demo_crates demo_db (st_fs demo_stored)"
    using demo_stored_dir by (fastforce simp: no_blob_dirs_def)
  show "blobs.genuine ?c (w_id demo_crates demo_db) (w_data demo_crates demo_db) ?U (st_fs demo_stored)"
    using demo_stored_content
    by (auto simp: blobs.genuine_def split: if_splits intro: exI [of _ "length (w_data demo_crates demo_db demo_write)"])
  fix k df
  assume "a_chunks (a_put_chunk demo_write demo_adb) k = Some df"
  then have "(k, df) = demo_write" by (auto simp: a_put_chunk_def demo_adb_def split: if_splits)
  then show "(k, df) \<in> ?U" and "blob_content ?c (st_fs demo_stored) (w_id demo_crates demo_db (k, df)) = Some (w_data demo_crates demo_db (k, df))"
    using demo_stored_content by simp_all
qed

subsection \<open>The one file that a fault of metadata puts at risk\<close>

text \<open>
  The exception in \<open>upsert_chunk_refines\<close> occurs: \<open>metadata()\<close> fails for the file of a chunk that is stored again, and
  the write that follows stops at once. The call reports its error, and the chunk, which was readable, is lost.
\<close>

definition failing_env :: db_env where
  "failing_env = ok_env\<lparr>ev_fs := no_faults\<lparr>fp_err := (\<lambda>op p. if op \<in> {OpMetadata, OpWrite 0} then Some fs_error else None),
     fp_written := (\<lambda>p. Some 0)\<rparr>\<rparr>"

lemma demo_rewrite_fails:
  "\<exists>e. chunk_write_phase demo_crates demo_db failing_env (w_row demo_crates demo_db demo_write) d (st_fs demo_stored) =
     (Inl e, put_file (ev_now failing_env) (demo_path demo_write) [] (st_fs demo_stored))"
proof -
  obtain a b c f where p: "demo_path demo_write = [''r'', a, b, c, f]" by (rule demo_path_parts)
  have dirs: "create_dir_all pl now [''r'', a, b, c] (st_fs demo_stored) = (Inr (), st_fs demo_stored)" for pl now
    by (simp add: create_dir_all_def demo_stored_fs p)
  have "is_dir (st_fs demo_stored) [''r'', a, b, c]" "\<not> is_dir (st_fs demo_stored) [''r'', a, b, c, f]"
    by (simp_all add: is_dir_def demo_stored_fs p)
  then show ?thesis
    by (simp add: chunk_write_phase_def blob_present_def fs_metadata_def failing_env_def ok_env_def blob_put_def blob_write_def
        call_of_def p dirs fs_write_def upt_rec [of 0] fs_error_def)
qed

lemma metadata_fault_damages:
  "\<exists>e s'. db_upsert_chunk demo_crates demo_db failing_env ''c'' ''k'' 0 [1, 2, 3] True demo_stored = (Inl e, s') \<and>
     db_get_chunk demo_crates demo_db ok_env ''c'' ''k'' 0 True demo_stored = Inr (Some [1, 2, 3]) \<and>
     isl (db_get_chunk demo_crates demo_db ok_env ''c'' ''k'' 0 True s')"
proof -
  let ?w = "((''c'', ''k'', 0), [1, 2, 3], True)"
  let ?fs = "put_file (ev_now failing_env) (demo_path ?w) [] (st_fs demo_stored)"
  have w: "demo_write = ?w" by (simp add: demo_write_def)
  obtain e where "db_upsert_chunk demo_crates demo_db failing_env ''c'' ''k'' 0 [1, 2, 3] True demo_stored =
      (Inl e, demo_stored\<lparr>st_fs := ?fs\<rparr>)"
    using demo_rewrite_fails [of "w_data demo_crates demo_db ?w"]
    by (auto simp: db_upsert_chunk_def prepare_chunk_eq check_chunk_size_def CHUNK_SIZE_def w)
  moreover have "db_get_chunk demo_crates demo_db ok_env ''c'' ''k'' 0 True demo_stored = Inr (Some [1, 2, 3])"
    using get_chunk_value [OF demo_hyps2 demo_stored_rep, of "''c''" "''k''" 0 "[1, 2, 3]" True ok_env True]
    by (simp add: a_put_chunk_def w ok_env_def and_then_def fail_at_def sql_ok_def)
  moreover have "isl (db_get_chunk demo_crates demo_db ok_env ''c'' ''k'' 0 True (demo_stored\<lparr>st_fs := ?fs\<rparr>))"
  proof -
    have row: "q_chunk (''c'', ''k'', 0) (st_sql demo_stored) = Some (w_row demo_crates demo_db ?w)"
      using store_repD(3) [OF demo_stored_rep, of "(''c'', ''k'', 0)"] by (simp add: a_put_chunk_def w)
    have "fs_read no_faults (demo_path ?w) ?fs = Inr []" by (simp add: fs_read_def put_file_def)
    moreover have "c_size (w_row demo_crates demo_db ?w) = 3" "c_hash (w_row demo_crates demo_db ?w) = sha256 demo_crates [1, 2, 3]"
      "c_is_final (w_row demo_crates demo_db ?w)"
      by (simp_all add: w_row_eq Let_def)
    moreover have "id_path demo_crates (root_dir demo_db) (gen_id demo_crates (w_ci demo_crates ?w) (blob_key demo_db)) = demo_path ?w"
      by (simp add: be_path_def cfg_of_def w_id_eq)
    ultimately show ?thesis
      using row by (simp add: db_get_chunk_def sql_get_chunk_def ok_env_def and_then_def fail_at_def sql_ok_def Let_def)
  qed
  ultimately show ?thesis by blast
qed

end
