(* ===== verification/Db_Concurrent.thy ===== *)
theory Db_Concurrent
  imports Cleanup Db_Demo
begin

section \<open>Interleaved calls on one database\<close>

text \<open>
  The operations of \<open>VmIoDb\<close> are asynchronous: between two awaits of one call, other calls and the two
  background tasks run. Here a call is a job that is cut at its awaits, and the jobs of a database run
  in any order. Calls that never work on one blob at the same time keep every stored chunk whole and
  refine the two maps of \<open>Db_Refine\<close>, one transition per committed transaction; two calls that do share
  a blob can lose a stored chunk.
\<close>

text \<open>
  What a task still has to do. \<open>Checking\<close> to \<open>Finishing\<close> are the awaits of \<open>upsert_chunk\<close>: the
  \<open>metadata\<close> call, \<open>blob::write\<close> (one step, the awaits inside it are not cut), the transaction, the removal of a file. \<open>Removing\<close> holds the files that
  \<open>rm\<close>, a prune batch or the cleanup still have to remove after their sqlite call.
\<close>

datatype job =
    Checking chunk_write
  | Writing chunk_write
  | Committing chunk_write bool
  | Finishing chunk_write bool "bytes option res"
  | Removing "bytes list"
  | Finished "unit res"

record db_sys =
  ds_store :: store
  ds_jobs :: "job list"

fun job_step :: "crates \<Rightarrow> vm_io_db \<Rightarrow> db_env \<Rightarrow> job \<Rightarrow> store \<Rightarrow> job \<times> store" where
  "job_step cr db ev (Checking w) s =
     (if blob_present (ev_fs ev) (be_path (cfg_of cr db) (w_id cr db w)) (length (w_data cr db w)) (st_fs s)
      then Committing w False else Writing w, s)"
| "job_step cr db ev (Writing w) s =
     (case blob_put (cfg_of cr db) (call_of ev) (w_id cr db w) (w_data cr db w) (st_fs s) of
        (Inl e, fs) \<Rightarrow> (Finished (Inl e), s\<lparr>st_fs := fs\<rparr>)
      | (Inr _, fs) \<Rightarrow> (Committing w True, s\<lparr>st_fs := fs\<rparr>))"
| "job_step cr db ev (Committing w wrote) s =
     (case sql_upsert_chunk (ev_sql ev) (w_row cr db w) (st_sql s) of
        (r, t) \<Rightarrow> (Finishing w wrote r, s\<lparr>st_sql := t\<rparr>))"
| "job_step cr db ev (Finishing w wrote r) s =
     (case chunk_finish_phase cr db ev wrote (w_row cr db w) r (st_fs s) of
        (res, fs) \<Rightarrow> (Finished res, s\<lparr>st_fs := fs\<rparr>))"
| "job_step cr db ev (Removing []) s = (Finished (Inr ()), s)"
| "job_step cr db ev (Removing (i # ids)) s =
     (Removing ids, s\<lparr>st_fs := blob_del (cfg_of cr db) (call_of ev) i (st_fs s)\<rparr>)"
| "job_step cr db ev (Finished r) s = (Finished r, s)"

text \<open>
  \<open>E\<close> holds the environments that may occur. A failing \<open>rm\<close>, prune transaction or look-up of the
  cleanup changes nothing. \<open>rmdir\<close> is the cleanup's removal of an empty directory.
\<close>

inductive task_step :: "crates \<Rightarrow> vm_io_db \<Rightarrow> db_env set \<Rightarrow> db_sys \<Rightarrow> db_sys \<Rightarrow> bool"
  for cr :: crates and db :: vm_io_db and E :: "db_env set" where
  upsert_chunk: "check_chunk_size (length data) is_final = Inr () \<Longrightarrow>
    task_step cr db E c (c\<lparr>ds_jobs := ds_jobs c @ [Checking ((class, key, idx), data, is_final)]\<rparr>)"
| run: "ev \<in> E \<Longrightarrow> i < length (ds_jobs c) \<Longrightarrow> job_step cr db ev (ds_jobs c ! i) (ds_store c) = (j, s) \<Longrightarrow>
    task_step cr db E c \<lparr>ds_store = s, ds_jobs = (ds_jobs c)[i := j]\<rparr>"
| upsert: "ev \<in> E \<Longrightarrow> db_upsert ev class key m x md (ds_store c) = (r, s) \<Longrightarrow>
    task_step cr db E c (c\<lparr>ds_store := s\<rparr>)"
| rm: "ev \<in> E \<Longrightarrow> sql_rm (ev_sql ev) class key (st_sql (ds_store c)) = (Inr ids, t) \<Longrightarrow>
    task_step cr db E c \<lparr>ds_store = (ds_store c)\<lparr>st_sql := t\<rparr>, ds_jobs = ds_jobs c @ [Removing ids]\<rparr>"
| prune: "ev \<in> E \<Longrightarrow> micros_since_epoch (ev_now ev) = Some now \<Longrightarrow>
    sql_prune_expired (ev_sql ev) now (int PRUNE_BATCH) (st_sql (ds_store c)) = (Inr (count, ids), t) \<Longrightarrow>
    task_step cr db E c \<lparr>ds_store = (ds_store c)\<lparr>st_sql := t\<rparr>, ds_jobs = ds_jobs c @ [Removing ids]\<rparr>"
| collect: "ev \<in> E \<Longrightarrow> length i = 32 \<Longrightarrow> sql_blob_id_exists (ev_sql ev) i (st_sql (ds_store c)) = Inr False \<Longrightarrow>
    task_step cr db E c (c\<lparr>ds_jobs := ds_jobs c @ [Removing [i]]\<rparr>)"
| rmdir: "ev \<in> E \<Longrightarrow> task_step cr db E c
    (c\<lparr>ds_store := (ds_store c)\<lparr>st_fs := snd (fs_remove_dir (ev_fs ev) (ev_now ev) p (st_fs (ds_store c)))\<rparr>\<rparr>)"

subsection \<open>A job that runs alone is the call\<close>

lemma job_alone:
  assumes "check_chunk_size (length data) is_final = Inr ()"
    and "db_upsert_chunk cr db ev class key idx data is_final s = (r, s')"
  shows "((\<lambda>(j, s). job_step cr db ev j s) ^^ 4) (Checking ((class, key, idx), data, is_final), s) = (Finished r, s')"
  using assms
  by (auto simp: db_upsert_chunk_def prepare_chunk_eq chunk_write_phase_def eval_nat_numeral Let_def
      split: prod.splits sum.splits if_splits)

subsection \<open>Blobs that a job works on\<close>

fun job_write :: "job \<Rightarrow> chunk_write option" where
  "job_write (Checking w) = Some w"
| "job_write (Writing w) = Some w"
| "job_write (Committing w wrote) = Some w"
| "job_write (Finishing w wrote r) = Some w"
| "job_write (Removing ids) = None"
| "job_write (Finished r) = None"

text \<open>The blobs whose file the job may still remove.\<close>

fun removable :: "crates \<Rightarrow> vm_io_db \<Rightarrow> job \<Rightarrow> bytes set" where
  "removable cr db (Checking w) = {}"
| "removable cr db (Writing w) = {w_id cr db w}"
| "removable cr db (Committing w wrote) = (if wrote then {w_id cr db w} else {})"
| "removable cr db (Finishing w wrote r) = (case r of
     Inl e \<Rightarrow> if wrote then {w_id cr db w} else {}
   | Inr None \<Rightarrow> {}
   | Inr (Some prev) \<Rightarrow> {prev})"
| "removable cr db (Removing ids) = set ids"
| "removable cr db (Finished r) = {}"

text \<open>The blobs it works on: those, and the one whose presence it relies on.\<close>

definition touches :: "crates \<Rightarrow> vm_io_db \<Rightarrow> job \<Rightarrow> bytes set" where
  "touches cr db j = removable cr db j \<union> (case j of Committing w wrote \<Rightarrow> {w_id cr db w} | _ \<Rightarrow> {})"

definition no_conflict :: "crates \<Rightarrow> vm_io_db \<Rightarrow> job list \<Rightarrow> bool" where
  "no_conflict cr db js \<longleftrightarrow>
     (\<forall>i < length js. \<forall>j < length js. i \<noteq> j \<longrightarrow> touches cr db (js ! i) \<inter> touches cr db (js ! j) = {})"

text \<open>A step after which no two jobs work on one blob, and all jobs are known writes.\<close>

definition task_step_ok ::
  "crates \<Rightarrow> vm_io_db \<Rightarrow> db_env set \<Rightarrow> chunk_write set \<Rightarrow> db_sys \<Rightarrow> db_sys \<Rightarrow> bool" where
  "task_step_ok cr db E U c c' \<longleftrightarrow> task_step cr db E c c' \<and> no_conflict cr db (ds_jobs c') \<and>
     (\<forall>j \<in> set (ds_jobs c'). \<forall>w. job_write j = Some w \<longrightarrow> w \<in> U)"

subsection \<open>The invariant\<close>

definition unref :: "crates \<Rightarrow> vm_io_db \<Rightarrow> adb \<Rightarrow> bytes \<Rightarrow> bool" where
  "unref cr db a i \<longleftrightarrow> length i = 32 \<and> (\<forall>k df. a_chunks a k = Some df \<longrightarrow> w_id cr db (k, df) \<noteq> i)"

definition blob_whole :: "crates \<Rightarrow> vm_io_db \<Rightarrow> fs \<Rightarrow> chunk_write \<Rightarrow> bool" where
  "blob_whole cr db fs w \<longleftrightarrow> blob_content (cfg_of cr db) fs (w_id cr db w) = Some (w_data cr db w)"

definition job_ok :: "crates \<Rightarrow> vm_io_db \<Rightarrow> chunk_write set \<Rightarrow> adb \<Rightarrow> fs \<Rightarrow> job \<Rightarrow> bool" where
  "job_ok cr db U a fs j \<longleftrightarrow>
     (\<forall>w. job_write j = Some w \<longrightarrow> w \<in> U) \<and> (\<forall>i \<in> removable cr db j. unref cr db a i) \<and>
     (\<forall>w wrote. j = Committing w wrote \<longrightarrow> blob_whole cr db fs w)"

definition sys_rep :: "crates \<Rightarrow> vm_io_db \<Rightarrow> chunk_write set \<Rightarrow> adb \<Rightarrow> db_sys \<Rightarrow> bool" where
  "sys_rep cr db U a c \<longleftrightarrow> store_rep cr db U a (ds_store c) \<and>
     (\<forall>j \<in> set (ds_jobs c). job_ok cr db U a (st_fs (ds_store c)) j) \<and> no_conflict cr db (ds_jobs c)"

lemma touches_removable: "i \<in> removable cr db j \<Longrightarrow> i \<in> touches cr db j"
  by (simp add: touches_def)

lemma touches_Committing [simp]: "touches cr db (Committing w wrote) = {w_id cr db w}"
  by (simp add: touches_def)

text \<open>What other jobs keep while a job deletes, writes or commits.\<close>

lemma job_ok_del:
  assumes "db_hyps cr db U" "job_ok cr db U a fs j" "i \<notin> touches cr db j" "length i = 32"
  shows "job_ok cr db U a (blob_del (cfg_of cr db) p i fs) j"
proof -
  have "be_ok (cfg_of cr db) i" using assms(1,4) by (simp add: db_hyps_def be_ok_def cfg_of_def)
  then have "blob_whole cr db (blob_del (cfg_of cr db) p i fs) w" if "j = Committing w wrote" for w wrote
    using assms that blobs.del_frame [of "cfg_of cr db" i "w_id cr db w" p fs]
    by (auto simp: job_ok_def blob_whole_def)
  then show ?thesis using assms(2) by (auto simp: job_ok_def)
qed

lemma job_ok_put:
  assumes "db_hyps cr db U" "job_ok cr db U a fs j" "w_id cr db w \<notin> touches cr db j"
  shows "job_ok cr db U a (snd (blob_put (cfg_of cr db) p (w_id cr db w) d fs)) j"
proof -
  have "blob_whole cr db (snd (blob_put (cfg_of cr db) p (w_id cr db w) d fs)) v" if "j = Committing v wrote" for v wrote
    using assms that blobs.put_frame [of "cfg_of cr db" "w_id cr db w" "w_id cr db v" p d fs]
    by (auto simp: job_ok_def blob_whole_def)
  then show ?thesis using assms(2) by (auto simp: job_ok_def)
qed

lemma unref_put_chunk: "unref cr db a i \<Longrightarrow> i \<noteq> w_id cr db w \<Longrightarrow> unref cr db (a_put_chunk w a) i"
  by (cases w) (auto simp: unref_def a_put_chunk_def split: if_splits)

lemma unref_a_del: "unref cr db a i \<Longrightarrow> unref cr db (a_del P a) i"
  by (auto simp: unref_def split: if_splits)

lemma job_ok_map:
  assumes "job_ok cr db U a fs j" "\<And>i. i \<in> touches cr db j \<Longrightarrow> unref cr db a i \<Longrightarrow> unref cr db a' i"
  shows "job_ok cr db U a' fs j"
  using assms touches_removable by (auto simp: job_ok_def)


text \<open>One job of the list steps; the others are as before, on the new store.\<close>

lemma jobs_after:
  assumes "sys_rep cr db U a c" "i < length (ds_jobs c)" "job_ok cr db U a' fs j'"
    and "\<And>j. job_ok cr db U a (st_fs (ds_store c)) j \<Longrightarrow>
      touches cr db (ds_jobs c ! i) \<inter> touches cr db j = {} \<Longrightarrow> job_ok cr db U a' fs j"
  shows "\<forall>j \<in> set ((ds_jobs c)[i := j']). job_ok cr db U a' fs j"
  unfolding all_set_conv_all_nth
proof (intro allI impI)
  fix k
  assume k: "k < length ((ds_jobs c)[i := j'])"
  show "job_ok cr db U a' fs ((ds_jobs c)[i := j'] ! k)"
  proof (cases "k = i")
    case False
    then have "touches cr db (ds_jobs c ! i) \<inter> touches cr db (ds_jobs c ! k) = {}"
      using assms(1,2) k by (simp add: sys_rep_def no_conflict_def)
    moreover have "job_ok cr db U a (st_fs (ds_store c)) (ds_jobs c ! k)"
      using assms(1) k by (simp add: sys_rep_def)
    ultimately show ?thesis using False assms(4) by simp
  qed (use assms(2,3) in simp)
qed

text \<open>A removal of a file that no chunk uses.\<close>

lemma store_rep_del:
  assumes "db_hyps cr db U" "store_rep cr db U a s" "unref cr db a i"
  shows "store_rep cr db U a (s\<lparr>st_fs := blob_del (cfg_of cr db) p i (st_fs s)\<rparr>)"
proof -
  have "store_rep cr db U a (s\<lparr>st_fs := fold (blob_del (cfg_of cr db) p) [i] (st_fs s)\<rparr>)"
  proof (rule store_rep_del_list [OF assms(1,2)])
    show "be_ok (cfg_of cr db) j" if "j \<in> set [i]" for j
      using assms(1,3) that by (simp add: unref_def db_hyps_def be_ok_def cfg_of_def del: split_paired_All)
    show "w_id cr db (k, df) \<notin> set [i]" if "a_chunks a k = Some df" for k df
      using assms(3) that by (simp add: unref_def del: split_paired_All)
  qed
  then show ?thesis by simp
qed

text \<open>The check: a file at full length is the blob; without one, no chunk uses the blob.\<close>

lemma check_job_ok:
  assumes hyps: "db_hyps cr db U" and rep: "store_rep cr db U a s" and w: "w \<in> U"
    and meta: "\<forall>p. fp_err (ev_fs ev) OpMetadata p = None"
  shows "job_ok cr db U a (st_fs s) (fst (job_step cr db ev (Checking w) s))"
proof -
  let ?p = "be_path (cfg_of cr db) (w_id cr db w)" and ?d = "w_data cr db w"
  show ?thesis
  proof (cases "blob_present (ev_fs ev) ?p (length ?d) (st_fs s)")
    case True
    moreover have "\<not> is_dir (st_fs s) ?p"
      using store_repD(7) [OF rep] hyps by (simp add: no_blob_dirs_def db_hyps_def)
    ultimately obtain d where "blob_content (cfg_of cr db) (st_fs s) (w_id cr db w) = Some d" "length d = length ?d"
      using blob_present_file [of "ev_fs ev" ?p "length ?d" "st_fs s"] by (auto simp: blob_content_def)
    then have "blob_whole cr db (st_fs s) w"
      using blobs.genuine_full [OF store_repD(6) [OF rep] w] by (simp add: blob_whole_def)
    then show ?thesis using True w by (simp add: job_ok_def del: split_paired_All)
  next
    case False
    have "w_id cr db (k, df) \<noteq> w_id cr db w" if k: "a_chunks a k = Some df" for k df
    proof
      assume "w_id cr db (k, df) = w_id cr db w"
      then have "(k, df) = w" using db_hyps_inj [OF hyps store_repD(4) [OF rep k] w] by simp
      then have "file_at (st_fs s) ?p = Some ?d"
        using store_repD(5) [OF rep k] by (simp add: blob_content_def)
      then show False using False blob_present_full meta by blast
    qed
    then have "unref cr db a (w_id cr db w)" using hyps by (simp add: unref_def db_hyps_def)
    then show ?thesis using False w by (simp add: job_ok_def)
  qed
qed

text \<open>The transaction: a committed row is the map's new chunk; the replaced blob has no row left.\<close>

lemma commit_ok:
  assumes hyps: "db_hyps cr db U" and rep: "store_rep cr db U a s"
    and job: "job_ok cr db U a (st_fs s) (Committing w wrote)"
    and run: "sql_upsert_chunk (ev_sql ev) (w_row cr db w) (st_sql s) = (r, t)"
  shows "(isl r \<and> t = st_sql s \<and> job_ok cr db U a (st_fs s) (Finishing w wrote r)) \<or>
    (\<not> isl r \<and> a_entries a (fst (fst w), fst (snd (fst w))) \<noteq> None \<and>
     store_rep cr db U (a_put_chunk w a) (s\<lparr>st_sql := t\<rparr>) \<and>
     job_ok cr db U (a_put_chunk w a) (st_fs s) (Finishing w wrote r))"
  using run
proof (cases rule: sql_upsert_chunk_cases)
  case (err e)
  then show ?thesis using job by (auto simp: job_ok_def)
next
  case (ok prev)
  have w: "w \<in> U" "blob_content (cfg_of cr db) (st_fs s) (w_id cr db w) = Some (w_data cr db w)"
    using job by (simp_all add: job_ok_def blob_whole_def)
  have parent: "c_parent (w_row cr db w) = (fst (fst w), fst (snd (fst w)))"
    by (cases w rule: write_cases) (simp add: w_row_eq Let_def c_parent_def)
  have "a_entries a (fst (fst w), fst (snd (fst w))) \<noteq> None"
    using exec_upsert_chunk_ok [OF store_repD(1) [OF rep], of "w_row cr db w"] ok(2) parent store_repD(2) [OF rep]
    by simp
  moreover have rep': "store_rep cr db U (a_put_chunk w a) (s\<lparr>st_sql := t\<rparr>)"
    by (rule store_rep_put_row [OF rep w(1) ok(2) w(2)])
  moreover have "unref cr db (a_put_chunk w a) i" if replaced: "prev = Some i" for i
  proof -
    obtain df where df: "a_chunks a (fst w) = Some df" "i = w_id cr db (fst w, df)" "i \<noteq> w_id cr db w"
      using ok(3) replaced store_repD(3) [OF rep, of "fst w"] by (cases "a_chunks a (fst w)") (auto split: if_splits)
    have "w_id cr db (k, df') \<noteq> i" if k: "a_chunks (a_put_chunk w a) k = Some df'" for k df'
    proof
      assume "w_id cr db (k, df') = i"
      then have "(k, df') = (fst w, df)"
        using df(2) db_hyps_inj [OF hyps store_repD(4) [OF rep' k] store_repD(4) [OF rep df(1)]] by simp
      then show False using k df(2,3) by (cases w) (simp add: a_put_chunk_def)
    qed
    then show ?thesis using df(2) hyps by (simp add: unref_def db_hyps_def)
  qed
  ultimately show ?thesis using ok(1) w(1) by (auto simp: job_ok_def split: option.splits)
qed


subsection \<open>Refinement: one transition of the maps per transaction\<close>

inductive a_task :: "chunk_write set \<Rightarrow> adb \<Rightarrow> adb \<Rightarrow> bool" for U :: "chunk_write set" where
  skip: "a_task U a a"
| put_chunk: "w \<in> U \<Longrightarrow> a_entries a (fst (fst w), fst (snd (fst w))) \<noteq> None \<Longrightarrow> a_task U a (a_put_chunk w a)"
| put_entry: "a_applies a (e_pk row) (e_modified row) \<Longrightarrow> a_task U a (a_put_entry row a)"
| del_entry: "a_task U a (a_del (\<lambda>k. k = pk) a)"
| del_expired: "(\<And>k. P k \<Longrightarrow> a_expired now a k) \<Longrightarrow> a_task U a (a_del P a)"

text \<open>Job \<open>i\<close> of the system \<open>c\<close> is \<open>j\<close> after a step that leaves the store \<open>s\<close>.\<close>

definition moved :: "crates \<Rightarrow> vm_io_db \<Rightarrow> chunk_write set \<Rightarrow> adb \<Rightarrow> db_sys \<Rightarrow> nat \<Rightarrow> job \<Rightarrow> store \<Rightarrow> bool" where
  "moved cr db U a c i j s \<longleftrightarrow> (\<exists>a'. a_task U a a' \<and> store_rep cr db U a' s \<and>
     (\<forall>x \<in> set ((ds_jobs c)[i := j]). job_ok cr db U a' (st_fs s) x))"

lemma movedI:
  assumes "sys_rep cr db U a c" "i < length (ds_jobs c)"
    and "a_task U a a'" "store_rep cr db U a' s" "job_ok cr db U a' (st_fs s) j"
    and "\<And>x. job_ok cr db U a (st_fs (ds_store c)) x \<Longrightarrow>
      touches cr db (ds_jobs c ! i) \<inter> touches cr db x = {} \<Longrightarrow> job_ok cr db U a' (st_fs s) x"
  shows "moved cr db U a c i j s"
  using assms(3,4) jobs_after [OF assms(1,2,5,6)] unfolding moved_def by blast

lemma sys_repD:
  assumes "sys_rep cr db U a c"
  shows "store_rep cr db U a (ds_store c)" and "i < length (ds_jobs c) \<Longrightarrow> job_ok cr db U a (st_fs (ds_store c)) (ds_jobs c ! i)"
  using assms by (simp_all add: sys_rep_def)

lemma moved_same:
  assumes "sys_rep cr db U a c" "i < length (ds_jobs c)" "job_ok cr db U a (st_fs (ds_store c)) j"
  shows "moved cr db U a c i j (ds_store c)"
  by (rule movedI [OF assms(1,2) a_task.skip sys_repD(1) [OF assms(1)] assms(3)])

lemma moved_removed:
  assumes hyps: "db_hyps cr db U" and rep: "sys_rep cr db U a c" and i: "i < length (ds_jobs c)"
    and d: "d \<in> removable cr db (ds_jobs c ! i)"
    and j: "removable cr db j \<subseteq> removable cr db (ds_jobs c ! i)" "job_write j = None"
  shows "moved cr db U a c i j ((ds_store c)\<lparr>st_fs := blob_del (cfg_of cr db) p d (st_fs (ds_store c))\<rparr>)"
proof (rule movedI [OF rep i a_task.skip])
  have un: "unref cr db a d" using sys_repD(2) [OF rep i] d by (simp add: job_ok_def)
  then show "store_rep cr db U a ((ds_store c)\<lparr>st_fs := blob_del (cfg_of cr db) p d (st_fs (ds_store c))\<rparr>)"
    by (rule store_rep_del [OF hyps sys_repD(1) [OF rep]])
  show "job_ok cr db U a (st_fs ((ds_store c)\<lparr>st_fs := blob_del (cfg_of cr db) p d (st_fs (ds_store c))\<rparr>)) j"
    using sys_repD(2) [OF rep i] j by (auto simp: job_ok_def)
  show "job_ok cr db U a (st_fs ((ds_store c)\<lparr>st_fs := blob_del (cfg_of cr db) p d (st_fs (ds_store c))\<rparr>)) x"
    if "job_ok cr db U a (st_fs (ds_store c)) x" "touches cr db (ds_jobs c ! i) \<inter> touches cr db x = {}" for x
    using job_ok_del [OF hyps that(1), of d p] that(2) touches_removable [OF d] un by (auto simp: unref_def)
qed

lemma moved_written:
  assumes hyps: "db_hyps cr db U" and rep: "sys_rep cr db U a c" and i: "i < length (ds_jobs c)"
    and job: "ds_jobs c ! i = Writing w"
    and put: "blob_put (cfg_of cr db) p (w_id cr db w) (w_data cr db w) (st_fs (ds_store c)) = (r, fs)"
  shows "moved cr db U a c i (case r of Inl e \<Rightarrow> Finished (Inl e) | Inr _ \<Rightarrow> Committing w True) ((ds_store c)\<lparr>st_fs := fs\<rparr>)"
    (is "moved _ _ _ _ _ _ ?j ?s")
proof (rule movedI [OF rep i a_task.skip])
  let ?c = "cfg_of cr db"
  note srep = sys_repD(1) [OF rep]
  have w: "w \<in> U" and un: "unref cr db a (w_id cr db w)"
    using sys_repD(2) [OF rep i] job by (simp_all add: job_ok_def)
  have fs: "fs = snd (blob_put ?c p (w_id cr db w) (w_data cr db w) (st_fs (ds_store c)))" using put by simp
  show "store_rep cr db U a ?s"
  proof (rule store_rep_fs [OF srep])
    show "blobs.genuine ?c (w_id cr db) (w_data cr db) U fs"
      unfolding fs using hyps
      by (intro blobs.genuine_put [OF store_repD(6) [OF srep] w]) (auto simp: db_hyps_def be_ok_def cfg_of_def)
    show "no_blob_dirs cr db fs" unfolding fs by (rule no_blob_dirs_put [OF store_repD(7) [OF srep]])
    show "blob_content ?c fs (w_id cr db (k, df)) = blob_content ?c (st_fs (ds_store c)) (w_id cr db (k, df))"
      if "a_chunks a k = Some df" for k df
    proof -
      have "w_id cr db w \<noteq> w_id cr db (k, df)" using un that unfolding unref_def by metis
      then show ?thesis unfolding fs using hyps by (intro blobs.put_frame) simp_all
    qed
  qed
  have "blob_whole cr db fs w" if "r = Inr u" for u
    using blobs.put_ok [OF put [unfolded that]] by (simp add: blob_whole_def)
  then show "job_ok cr db U a (st_fs ?s) ?j"
    using w un by (auto simp: job_ok_def simp del: split_paired_All split: sum.splits)
  show "job_ok cr db U a (st_fs ?s) x"
    if "job_ok cr db U a (st_fs (ds_store c)) x" "touches cr db (ds_jobs c ! i) \<inter> touches cr db x = {}" for x
    using job_ok_put [OF hyps that(1), of w p "w_data cr db w"] that(2) job fs by (simp add: touches_def)
qed

lemma moved_committed:
  assumes hyps: "db_hyps cr db U" and rep: "sys_rep cr db U a c" and i: "i < length (ds_jobs c)"
    and job: "ds_jobs c ! i = Committing w wrote"
    and sql: "sql_upsert_chunk (ev_sql ev) (w_row cr db w) (st_sql (ds_store c)) = (r, t)"
  shows "moved cr db U a c i (Finishing w wrote r) ((ds_store c)\<lparr>st_sql := t\<rparr>)"
proof -
  let ?s = "(ds_store c)\<lparr>st_sql := t\<rparr>"
  note mine = sys_repD(2) [OF rep i, unfolded job]
  consider "t = st_sql (ds_store c)" "job_ok cr db U a (st_fs (ds_store c)) (Finishing w wrote r)"
    | "a_entries a (fst (fst w), fst (snd (fst w))) \<noteq> None" "store_rep cr db U (a_put_chunk w a) ?s"
      "job_ok cr db U (a_put_chunk w a) (st_fs ?s) (Finishing w wrote r)"
    using commit_ok [OF hyps sys_repD(1) [OF rep] mine sql] by auto
  then show ?thesis
  proof cases
    case 1
    then show ?thesis using moved_same [OF rep i] by simp
  next
    case 2
    have "w \<in> U" using mine by (simp add: job_ok_def)
    then show ?thesis
    proof (rule movedI [OF rep i a_task.put_chunk [OF _ 2(1)] 2(2,3)])
      show "job_ok cr db U (a_put_chunk w a) (st_fs ?s) x" if "job_ok cr db U a (st_fs (ds_store c)) x"
        "touches cr db (ds_jobs c ! i) \<inter> touches cr db x = {}" for x
      proof -
        have "w_id cr db w \<notin> touches cr db x" using that(2) job by simp
        then have "d \<noteq> w_id cr db w" if "d \<in> touches cr db x" for d using that by auto
        then show ?thesis using job_ok_map [OF that(1), of "a_put_chunk w a"] unref_put_chunk by simp
      qed
    qed
  qed
qed

lemma moved_finished:
  assumes hyps: "db_hyps cr db U" and rep: "sys_rep cr db U a c" and i: "i < length (ds_jobs c)"
    and job: "ds_jobs c ! i = Finishing w wrote r"
    and fin: "chunk_finish_phase cr db ev wrote (w_row cr db w) r (st_fs (ds_store c)) = (res, fs)"
  shows "moved cr db U a c i (Finished res) ((ds_store c)\<lparr>st_fs := fs\<rparr>)"
proof (cases "removable cr db (Finishing w wrote r) = {}")
  case True
  then have "(ds_store c)\<lparr>st_fs := fs\<rparr> = ds_store c"
    using fin by (auto simp: chunk_finish_phase_def split: sum.splits option.splits if_splits)
  then show ?thesis using moved_same [OF rep i, of "Finished res"] by (simp add: job_ok_def)
next
  case False
  then obtain d where "d \<in> removable cr db (Finishing w wrote r)" "fs = blob_del (cfg_of cr db) (call_of ev) d (st_fs (ds_store c))"
    using fin by (auto simp: chunk_finish_phase_def split: sum.splits option.splits if_splits)
  then show ?thesis using moved_removed [OF hyps rep i, of d "Finished res"] job by simp
qed

lemma run_sim:
  assumes hyps: "db_hyps cr db U" and rep: "sys_rep cr db U a c" and i: "i < length (ds_jobs c)"
    and run: "job_step cr db ev (ds_jobs c ! i) (ds_store c) = (j, s)"
    and meta: "\<forall>p. fp_err (ev_fs ev) OpMetadata p = None"
  shows "moved cr db U a c i j s"
proof (cases "ds_jobs c ! i")
  case (Checking w)
  then have "w \<in> U" "s = ds_store c" using sys_repD(2) [OF rep i] run by (simp_all add: job_ok_def)
  then show ?thesis
    using moved_same [OF rep i] check_job_ok [OF hyps sys_repD(1) [OF rep] _ meta, of w] run Checking by simp
next
  case (Writing w)
  then show ?thesis
    using moved_written [OF hyps rep i Writing, of "call_of ev"] run by (auto split: prod.splits sum.splits)
next
  case (Committing w wrote)
  then show ?thesis using moved_committed [OF hyps rep i Committing, of ev] run by (auto split: prod.splits)
next
  case (Finishing w wrote r)
  then show ?thesis using moved_finished [OF hyps rep i Finishing, of ev] run by (auto split: prod.splits)
next
  case (Removing ids)
  then show ?thesis
    using moved_same [OF rep i, of j] moved_removed [OF hyps rep i, of "hd ids" "Removing (tl ids)" "call_of ev"] run
    by (cases ids) (auto simp: job_ok_def)
next
  case (Finished r)
  then have "j = Finished r" "s = ds_store c" using run by auto
  then show ?thesis using moved_same [OF rep i] by (simp add: job_ok_def)
qed


lemma sys_rep_add:
  assumes "sys_rep cr db U a c" "store_rep cr db U a' s" "job_ok cr db U a' (st_fs s) j"
    and "st_fs s = st_fs (ds_store c)" "\<And>i. unref cr db a i \<Longrightarrow> unref cr db a' i"
    and "no_conflict cr db (ds_jobs c @ [j])"
  shows "sys_rep cr db U a' \<lparr>ds_store = s, ds_jobs = ds_jobs c @ [j]\<rparr>"
proof -
  have "job_ok cr db U a' (st_fs s) x" if "x \<in> set (ds_jobs c)" for x
    using assms(1,4,5) that job_ok_map [of cr db U a "st_fs s" x a'] by (simp add: sys_rep_def)
  then show ?thesis using assms(2,3,6) by (simp add: sys_rep_def)
qed

lemma added_removal:
  assumes "db_hyps cr db U" "sys_rep cr db U a c" "ids = q_blob_ids P (st_sql (ds_store c))"
    and "t = snd (exec_delete P (st_sql (ds_store c)))" "no_conflict cr db (ds_jobs c @ [Removing ids])"
  shows "sys_rep cr db U (a_del P a)
    \<lparr>ds_store = (ds_store c)\<lparr>st_sql := t\<rparr>, ds_jobs = ds_jobs c @ [Removing ids]\<rparr>"
proof (rule sys_rep_add [OF assms(2)])
  show "store_rep cr db U (a_del P a) ((ds_store c)\<lparr>st_sql := t\<rparr>)"
    unfolding assms(4) by (rule store_rep_delete_rows [OF sys_repD(1) [OF assms(2)]])
  have "unref cr db (a_del P a) i" if "i \<in> set ids" for i
    using deleted_blob [OF assms(1) sys_repD(1) [OF assms(2)] that [unfolded assms(3)]]
    by (simp add: unref_def be_ok_def)
  then show "job_ok cr db U (a_del P a) (st_fs ((ds_store c)\<lparr>st_sql := t\<rparr>)) (Removing ids)"
    by (simp add: job_ok_def)
qed (use assms(5) unref_a_del in auto)

text \<open>The other steps leave the files as they are.\<close>

lemma sys_rep_entries:
  assumes "sys_rep cr db U a c" "store_rep cr db U a' s" "a_chunks a' = a_chunks a"
    and "\<And>w. blob_content (cfg_of cr db) (st_fs s) w = blob_content (cfg_of cr db) (st_fs (ds_store c)) w"
  shows "sys_rep cr db U a' (c\<lparr>ds_store := s\<rparr>)"
  using assms by (simp add: sys_rep_def job_ok_def unref_def blob_whole_def del: split_paired_All)

lemma uncollected_unref:
  assumes "store_rep cr db U a s" "length i = 32" "sql_blob_id_exists pl i (st_sql s) = Inr False"
  shows "unref cr db a i"
  unfolding unref_def
proof (intro conjI allI impI)
  fix k df
  assume "a_chunks a k = Some df"
  then have "q_chunk k (st_sql s) = Some (w_row cr db (k, df))"
    using store_repD(3) [OF assms(1), of k] by simp
  then have "w_row cr db (k, df) \<in> set (chunks (st_sql s))"
    using q_chunk_Some [OF store_repD(1) [OF assms(1)]] by simp
  then have "w_id cr db (k, df) \<in> c_blob_id ` set (chunks (st_sql s))"
    by (metis c_blob_id_w_row imageI)
  then show "w_id cr db (k, df) \<noteq> i"
    using assms(3) by (auto dest!: sql_blob_id_exists_Inr simp: q_blob_id_exists_def)
qed (rule assms(2))

lemma upserted_entry:
  assumes "store_rep cr db U a s" "db_upsert ev class key m x md s = (r, s')"
  shows "\<exists>a'. a_task U a a' \<and> store_rep cr db U a' s' \<and> a_chunks a' = a_chunks a \<and> st_fs s' = st_fs s"
proof -
  let ?row = "row_of class key m x md"
  have "st_fs s' = st_fs s" using assms(2) by (auto simp: db_upsert_def split: if_splits prod.splits)
  moreover have "\<exists>a'. a_task U a a' \<and> store_rep cr db U a' s' \<and> a_chunks a' = a_chunks a"
  proof (cases r)
    case (Inl e)
    then show ?thesis using upsert_sim [OF assms] assms(1) a_task.skip by auto
  next
    case (Inr applied)
    then have "applied = a_applies a (class, key) m" "store_rep cr db U (if applied then a_put_entry ?row a else a) s'"
      using upsert_sim [OF assms] by auto
    moreover have "a_applies a (class, key) m \<Longrightarrow> a_task U a (a_put_entry ?row a)"
      using a_task.put_entry [of a ?row U] by simp
    moreover have "a_chunks (a_put_entry ?row a) = a_chunks a" by (simp add: a_put_entry_def)
    ultimately show ?thesis using a_task.skip [of U a] by (cases applied) auto
  qed
  ultimately show ?thesis by blast
qed

lemma removed_dir:
  assumes "store_rep cr db U a s" and fs: "fs = snd (fs_remove_dir pl now p (st_fs s))"
  shows "blob_content (cfg_of cr db) fs i = blob_content (cfg_of cr db) (st_fs s) i"
    and "store_rep cr db U a (s\<lparr>st_fs := fs\<rparr>)"
proof -
  have "file_at fs q = Some d \<longleftrightarrow> file_at (st_fs s) q = Some d" for q d
    unfolding fs file_at_Some_lookup fs_lookup_remove_dir ..
  then have content: "blob_content (cfg_of cr db) fs i = blob_content (cfg_of cr db) (st_fs s) i" for i
    unfolding blob_content_def by (metis not_Some_eq)
  then show "blob_content (cfg_of cr db) fs i = blob_content (cfg_of cr db) (st_fs s) i" .
  show "store_rep cr db U a (s\<lparr>st_fs := fs\<rparr>)"
  proof (rule store_rep_fs [OF assms(1)])
    show "blobs.genuine (cfg_of cr db) (w_id cr db) (w_data cr db) U fs"
      using store_repD(6) [OF assms(1)] content by (simp add: blobs.genuine_def)
    show "no_blob_dirs cr db fs"
      using store_repD(7) [OF assms(1)] is_dir_remove_dir unfolding fs no_blob_dirs_def by blast
  qed (rule content)
qed

lemma step_sim:
  assumes hyps: "db_hyps cr db U" and meta: "\<forall>ev \<in> E. \<forall>p. fp_err (ev_fs ev) OpMetadata p = None"
    and rep: "sys_rep cr db U a c" and step: "task_step_ok cr db E U c c'"
  shows "\<exists>a'. a_task U a a' \<and> sys_rep cr db U a' c'"
proof -
  have nc: "no_conflict cr db (ds_jobs c')" and known: "\<forall>j \<in> set (ds_jobs c'). \<forall>w. job_write j = Some w \<longrightarrow> w \<in> U"
    using step unfolding task_step_ok_def by blast+
  note srep = sys_repD(1) [OF rep]
  from step have "task_step cr db E c c'" by (simp add: task_step_ok_def)
  then show ?thesis
  proof cases
    case (upsert_chunk data is_final cls key idx)
    have "sys_rep cr db U a \<lparr>ds_store = ds_store c, ds_jobs = ds_jobs c @ [Checking ((cls, key, idx), data, is_final)]\<rparr>"
      by (rule sys_rep_add [OF rep srep]) (use nc known upsert_chunk in \<open>auto simp: job_ok_def\<close>)
    then show ?thesis using upsert_chunk a_task.skip by (cases c) auto
  next
    case (run ev i j s)
    have "moved cr db U a c i j s"
      using run_sim [OF hyps rep run(3,4)] meta run(2) by blast
    then show ?thesis using nc run(1) by (auto simp: moved_def sys_rep_def)
  next
    case (upsert ev cls key m x md r s)
    obtain a' where "a_task U a a'" "store_rep cr db U a' s" "a_chunks a' = a_chunks a" "st_fs s = st_fs (ds_store c)"
      using upserted_entry [OF srep upsert(3)] by blast
    then show ?thesis using sys_rep_entries [OF rep] upsert(1) by metis
  next
    case (rm ev cls key ids t)
    have "sys_rep cr db U (a_del (\<lambda>k. k = (cls, key)) a) c'"
      unfolding rm(1) by (rule added_removal [OF hyps rep]) (use sql_rm_Inr [OF rm(3)] nc rm(1) in simp_all)
    then show ?thesis using a_task.del_entry by blast
  next
    case (prune ev now count ids t)
    let ?P = "\<lambda>k. k \<in> set (prune_batch now (int PRUNE_BATCH) (st_sql (ds_store c)))"
    have "sys_rep cr db U (a_del ?P a) c'"
      unfolding prune(1) by (rule added_removal [OF hyps rep])
        (use sql_prune_expired_Inr [OF prune(4)] nc prune(1) in \<open>simp_all add: prod_eq_iff\<close>)
    moreover have "a_task U a (a_del ?P a)"
      by (rule a_task.del_expired [of ?P now]) (rule batch_expired [OF srep])
    ultimately show ?thesis by blast
  next
    case (collect ev i)
    have "sys_rep cr db U a \<lparr>ds_store = ds_store c, ds_jobs = ds_jobs c @ [Removing [i]]\<rparr>"
      by (rule sys_rep_add [OF rep srep])
        (use uncollected_unref [OF srep collect(3,4)] nc collect(1) in \<open>simp_all add: job_ok_def\<close>)
    then show ?thesis using collect(1) a_task.skip by (cases c) auto
  next
    case (rmdir ev p)
    note gone = removed_dir [OF srep refl, of "ev_fs ev" "ev_now ev" p]
    have "sys_rep cr db U a c'"
      unfolding rmdir(1) by (rule sys_rep_entries [OF rep gone(2) refl]) (simp add: gone(1))
    then show ?thesis using a_task.skip by blast
  qed
qed


subsection \<open>The theorem\<close>

definition tasks_rep ::
  "crates \<Rightarrow> vm_io_db \<Rightarrow> db_env set \<Rightarrow> chunk_write set \<Rightarrow> adb \<Rightarrow> db_sys \<Rightarrow> bool" where
  "tasks_rep cr db E U a c \<longleftrightarrow> db_hyps cr db U \<and> (\<forall>ev \<in> E. \<forall>p. fp_err (ev_fs ev) OpMetadata p = None) \<and>
     sys_rep cr db U a c"

interpretation tasks: forward_simulation "tasks_rep cr db E U" "a_task U" "task_step_ok cr db E U"
  by unfold_locales (use step_sim in \<open>fastforce simp: tasks_rep_def\<close>)

text \<open>
  C11. Interleaved calls that do not share a blob refine the two maps: however the awaits of any number of
  \<open>upsert_chunk\<close>, \<open>upsert\<close> and \<open>rm\<close> calls, prune batches and cleanup removals interleave, and whatever calls of
  sqlite and of the file system fail (except the \<open>metadata\<close> check), as long as no two of them
  work on one blob at the same time, the tables and every read are those of a state that the maps reach
  by whole updates: a stored chunk, an applied entry, a removed entry, a batch of expired ones.
\<close>

theorem interleaved_tasks_refine:
  assumes "db_hyps cr db U" "\<forall>ev \<in> E. \<forall>p. fp_err (ev_fs ev) OpMetadata p = None" "store_rep cr db U a s"
    and "(task_step_ok cr db E U)\<^sup>*\<^sup>* \<lparr>ds_store = s, ds_jobs = []\<rparr> c"
  shows "\<exists>a'. (a_task U)\<^sup>*\<^sup>* a a' \<and>
    (\<forall>k. q_entry k (st_sql (ds_store c)) = a_entries a' k) \<and>
    (\<forall>cls key idx want. db_get_chunk cr db ok_env cls key idx want (ds_store c) =
       (case a_chunks a' (cls, key, idx) of
          None \<Rightarrow> Inr None
        | Some (data, is_final) \<Rightarrow>
            if want \<noteq> is_final then Inl (io_other ''chunk finality mismatch'') else Inr (Some data)))"
proof -
  have "tasks_rep cr db E U a \<lparr>ds_store = s, ds_jobs = []\<rparr>"
    using assms(1-3) by (simp add: tasks_rep_def sys_rep_def no_conflict_def)
  then obtain a' where a': "(a_task U)\<^sup>*\<^sup>* a a'" "tasks_rep cr db E U a' c"
    using tasks.sim_steps [OF assms(4)] by blast
  then have rep: "store_rep cr db U a' (ds_store c)" by (simp add: tasks_rep_def sys_rep_def)
  have "db_get_chunk cr db ok_env cls key idx want (ds_store c) =
      (case a_chunks a' (cls, key, idx) of
         None \<Rightarrow> Inr None
       | Some (data, is_final) \<Rightarrow>
           if want \<noteq> is_final then Inl (io_other ''chunk finality mismatch'') else Inr (Some data))"
    for cls key idx want
    using get_chunk_none [OF rep, of cls key idx ok_env] get_chunk_value [OF assms(1) rep, of cls key idx _ _ ok_env]
    by (cases "a_chunks a' (cls, key, idx)") (auto simp: ok_env_def)
  then show ?thesis using a'(1) store_repD(2) [OF rep] by blast
qed

text \<open>A call that runs beside a removal of another blob.\<close>

theorem interleaved_tasks_refine_witness:
  "\<exists>c a'. (task_step_ok demo_crates demo_db {ok_env} {demo_write, demo_write2})\<^sup>*\<^sup>*
      \<lparr>ds_store = demo_stored, ds_jobs = []\<rparr> c \<and> length (ds_jobs c) = 2 \<and>
    (a_task {demo_write, demo_write2})\<^sup>*\<^sup>* (a_put_chunk demo_write demo_adb) a' \<and>
    (\<forall>k. q_entry k (st_sql (ds_store c)) = a_entries a' k)"
proof -
  let ?E = "{ok_env}" and ?U = "{demo_write, demo_write2}"
  let ?step = "task_step_ok demo_crates demo_db ?E ?U"
  let ?c1 = "\<lparr>ds_store = demo_stored, ds_jobs = [Checking demo_write2]\<rparr>"
  let ?c2 = "\<lparr>ds_store = demo_stored, ds_jobs = [Checking demo_write2, Removing [replicate 32 0]]\<rparr>"
  have "task_step demo_crates demo_db ?E \<lparr>ds_store = demo_stored, ds_jobs = []\<rparr> ?c1"
    using task_step.upsert_chunk [of "[4, 5, 6]" True demo_crates demo_db ?E "\<lparr>ds_store = demo_stored, ds_jobs = []\<rparr>" "''c''" "''k''" 0]
    by (simp add: check_chunk_size_def CHUNK_SIZE_def demo_write2_def)
  then have "?step \<lparr>ds_store = demo_stored, ds_jobs = []\<rparr> ?c1"
    by (simp add: task_step_ok_def no_conflict_def)
  moreover have "\<not> q_blob_id_exists (replicate 32 0) (st_sql demo_stored)"
    using demo_id [of "fst demo_write" "[1, 2, 3]"]
    by (auto simp: q_blob_id_exists_def demo_stored_def demo_write_def numeral_eq_Suc)
  then have "task_step demo_crates demo_db ?E ?c1 ?c2"
    using task_step.collect [of ok_env ?E "replicate 32 0" ?c1 demo_crates demo_db] by (simp add: sql_blob_id_exists_def ok_env_def)
  then have "?step ?c1 ?c2"
    by (simp add: task_step_ok_def no_conflict_def touches_def less_Suc_eq numeral_2_eq_2)
  ultimately have run: "?step\<^sup>*\<^sup>* \<lparr>ds_store = demo_stored, ds_jobs = []\<rparr> ?c2" by auto
  have "\<forall>ev \<in> ?E. \<forall>p. fp_err (ev_fs ev) OpMetadata p = None" by (simp add: ok_env_def)
  from interleaved_tasks_refine [OF demo_hyps2 this demo_stored_rep run] run
  show ?thesis by (intro exI [of _ ?c2]) auto
qed

end
