(* ===== verification/Db_Races.thy ===== *)
theory Db_Races
  imports Db_Concurrent
begin

section \<open>Calls that share a blob\<close>

text \<open>
  The condition of \<open>Db_Concurrent\<close>, that no two tasks work on one blob at the same time, is needed:
  two \<open>upsert_chunk\<close> calls, or one and the cleanup, can leave a committed row without its file. The
  schedules here are runs of the interleaved machine in which no call of sqlite or of the file
  system fails.
\<close>

subsection \<open>Steps without faults\<close>

text \<open>Steps of job \<open>i\<close> in a list of jobs, without faults.\<close>

lemma run_job:
  assumes "i < length js" "job_step cr db ok_env (js ! i) s = (j, s')"
  shows "(task_step cr db {ok_env})\<^sup>*\<^sup>* \<lparr>ds_store = s, ds_jobs = js\<rparr> \<lparr>ds_store = s', ds_jobs = js[i := j]\<rparr>"
  using task_step.run [of ok_env "{ok_env}" i "\<lparr>ds_store = s, ds_jobs = js\<rparr>" cr db j s'] assms
  by (intro r_into_rtranclp) simp

lemma run_write_phase:
  assumes i: "i < length js" "js ! i = Checking w"
    and ph: "chunk_write_phase cr db ok_env (w_row cr db w) (w_data cr db w) (st_fs s) = (Inr b, fs)"
  shows "(task_step cr db {ok_env})\<^sup>*\<^sup>* \<lparr>ds_store = s, ds_jobs = js\<rparr>
    \<lparr>ds_store = s\<lparr>st_fs := fs\<rparr>, ds_jobs = js[i := Committing w b]\<rparr>"
proof (cases "blob_present (ev_fs ok_env) (be_path (cfg_of cr db) (w_id cr db w)) (length (w_data cr db w)) (st_fs s)")
  case True
  then have "b = False" "fs = st_fs s" using ph by (simp_all add: chunk_write_phase_def)
  then show ?thesis using run_job [OF i(1), of cr db s] i(2) True by simp
next
  case False
  then have "b = True" "blob_put (cfg_of cr db) (call_of ok_env) (w_id cr db w) (w_data cr db w) (st_fs s) = (Inr (), fs)"
    using ph by (auto simp: chunk_write_phase_def split: prod.splits sum.splits)
  then have "(task_step cr db {ok_env})\<^sup>*\<^sup>* \<lparr>ds_store = s, ds_jobs = js[i := Writing w]\<rparr>
      \<lparr>ds_store = s\<lparr>st_fs := fs\<rparr>, ds_jobs = js[i := Writing w, i := Committing w b]\<rparr>"
    using i(1) by (intro run_job) simp_all
  moreover have "(task_step cr db {ok_env})\<^sup>*\<^sup>* \<lparr>ds_store = s, ds_jobs = js\<rparr> \<lparr>ds_store = s, ds_jobs = js[i := Writing w]\<rparr>"
    using i False by (intro run_job) simp_all
  ultimately show ?thesis by simp
qed

text \<open>A transaction that replaces a row.\<close>

lemma replace_commit:
  assumes "q_chunk (fst w) t = Some (w_row cr db v)" "w_id cr db v \<noteq> w_id cr db w"
  obtains t' where "sql_upsert_chunk sql_ok (w_row cr db w) t = (Inr (Some (w_id cr db v)), t')"
    "q_chunk (fst w) t' = Some (w_row cr db w)"
proof -
  have "find_row c_pk (c_pk (w_row cr db w)) (chunks t) \<noteq> None" using assms(1) by (simp add: q_chunk_def)
  then obtain t' where t': "exec_upsert_chunk (w_row cr db w) t = Inr t'" unfolding exec_upsert_chunk_def by simp
  have "sql_upsert_chunk sql_ok (w_row cr db w) t = (Inr (Some (w_id cr db v)), t')"
    using assms t' by (simp add: sql_upsert_chunk_Inr)
  then show ?thesis using that q_chunk_upsert_chunk [OF t'] by simp
qed

lemma start_two:
  assumes "check_chunk_size (length d) f = Inr ()" "check_chunk_size (length e) g = Inr ()"
  shows "(task_step cr db E)\<^sup>*\<^sup>* \<lparr>ds_store = s, ds_jobs = []\<rparr>
    \<lparr>ds_store = s, ds_jobs = [Checking (k, d, f), Checking (k', e, g)]\<rparr>"
proof (rule rtranclp.rtrancl_into_rtrancl [OF r_into_rtranclp])
  obtain c1 k1 i1 c2 k2 i2 where k: "k = (c1, k1, i1)" "k' = (c2, k2, i2)" by (metis surj_pair)
  show "task_step cr db E \<lparr>ds_store = s, ds_jobs = []\<rparr> \<lparr>ds_store = s, ds_jobs = [Checking (k, d, f)]\<rparr>"
    using task_step.upsert_chunk [OF assms(1), of cr db E "\<lparr>ds_store = s, ds_jobs = []\<rparr>" c1 k1 i1] k(1) by simp
  show "task_step cr db E \<lparr>ds_store = s, ds_jobs = [Checking (k, d, f)]\<rparr>
      \<lparr>ds_store = s, ds_jobs = [Checking (k, d, f), Checking (k', e, g)]\<rparr>"
    using task_step.upsert_chunk [OF assms(2), of cr db E "\<lparr>ds_store = s, ds_jobs = [Checking (k, d, f)]\<rparr>" c2 k2 i2] k(2)
    by simp
qed

text \<open>Two calls for one place that both hold their file commit in turn, and then remove in turn.\<close>

lemma commit_in_turn:
  assumes same: "fst x = fst y" and ids: "w_id cr db y \<noteq> w_id cr db x"
    and row: "q_chunk (fst x) (st_sql s) = Some (w_row cr db y)"
  shows "\<exists>t. q_chunk (fst y) t = Some (w_row cr db y) \<and>
    (task_step cr db {ok_env})\<^sup>*\<^sup>* \<lparr>ds_store = s, ds_jobs = [Committing x b, Committing y False]\<rparr>
      \<lparr>ds_store = \<lparr>st_sql = t, st_fs = blob_del (cfg_of cr db) (call_of ok_env) (w_id cr db x)
          (blob_del (cfg_of cr db) (call_of ok_env) (w_id cr db y) (st_fs s))\<rparr>,
        ds_jobs = [Finished (Inr ()), Finished (Inr ())]\<rparr>"
proof -
  let ?go = "(task_step cr db {ok_env})\<^sup>*\<^sup>*" and ?del = "blob_del (cfg_of cr db) (call_of ok_env)"
  obtain t1 where t1: "sql_upsert_chunk sql_ok (w_row cr db x) (st_sql s) = (Inr (Some (w_id cr db y)), t1)"
    "q_chunk (fst x) t1 = Some (w_row cr db x)"
    using replace_commit [OF row ids] by blast
  obtain t2 where t2: "sql_upsert_chunk sql_ok (w_row cr db y) t1 = (Inr (Some (w_id cr db x)), t2)"
    "q_chunk (fst y) t2 = Some (w_row cr db y)"
    using replace_commit [of y t1 cr db x] t1(2) ids same by auto
  let ?s1 = "\<lparr>st_sql = t1, st_fs = st_fs s\<rparr>" and ?s2 = "\<lparr>st_sql = t2, st_fs = st_fs s\<rparr>"
  let ?s3 = "\<lparr>st_sql = t2, st_fs = ?del (w_id cr db y) (st_fs s)\<rparr>"
  let ?x = "Finishing x b (Inr (Some (w_id cr db y)))" and ?y = "Finishing y False (Inr (Some (w_id cr db x)))"
  have "?go \<lparr>ds_store = s, ds_jobs = [Committing x b, Committing y False]\<rparr> \<lparr>ds_store = ?s1, ds_jobs = [?x, Committing y False]\<rparr>"
    using run_job [of 0 "[Committing x b, Committing y False]" cr db s] t1(1) by (cases s) (simp add: ok_env_def)
  moreover have "?go \<lparr>ds_store = ?s1, ds_jobs = [?x, Committing y False]\<rparr> \<lparr>ds_store = ?s2, ds_jobs = [?x, ?y]\<rparr>"
    using run_job [of 1 "[?x, Committing y False]" cr db ?s1] t2(1) by (simp add: ok_env_def)
  moreover have "?go \<lparr>ds_store = ?s2, ds_jobs = [?x, ?y]\<rparr> \<lparr>ds_store = ?s3, ds_jobs = [Finished (Inr ()), ?y]\<rparr>"
    using run_job [of 0 "[?x, ?y]" cr db ?s2] by (simp add: chunk_finish_phase_def)
  moreover have "?go \<lparr>ds_store = ?s3, ds_jobs = [Finished (Inr ()), ?y]\<rparr>
      \<lparr>ds_store = \<lparr>st_sql = t2, st_fs = ?del (w_id cr db x) (st_fs ?s3)\<rparr>, ds_jobs = [Finished (Inr ()), Finished (Inr ())]\<rparr>"
    using run_job [of 1 "[Finished (Inr ()), ?y]" cr db ?s3] by (simp add: chunk_finish_phase_def)
  ultimately have "?go \<lparr>ds_store = s, ds_jobs = [Committing x b, Committing y False]\<rparr>
      \<lparr>ds_store = \<lparr>st_sql = t2, st_fs = ?del (w_id cr db x) (st_fs ?s3)\<rparr>, ds_jobs = [Finished (Inr ()), Finished (Inr ())]\<rparr>"
    by (meson rtranclp_trans)
  then show ?thesis using t2(2) by auto
qed

text \<open>A row without its file.\<close>

lemma get_chunk_lost:
  assumes "q_chunk (cls, key, idx) (st_sql s) = Some (w_row cr db ((cls, key, idx), data, fin))"
    and "file_at (st_fs s) (be_path (cfg_of cr db) (w_id cr db ((cls, key, idx), data, fin))) = None"
  shows "isl (db_get_chunk cr db ev cls key idx want s)"
proof -
  let ?w = "((cls, key, idx), data, fin)"
  have hash: "c_hash (w_row cr db ?w) = sha256 cr data" "c_is_final (w_row cr db ?w) = fin"
    by (simp_all add: w_row_eq Let_def)
  have path: "id_path cr (root_dir db) (gen_id cr (w_ci cr ?w) (blob_key db)) = be_path (cfg_of cr db) (w_id cr db ?w)"
    by (simp add: be_path_def cfg_of_def w_id_eq)
  have "isl (fs_read (ev_fs ev) (be_path (cfg_of cr db) (w_id cr db ?w)) (st_fs s))"
    using assms(2) by (auto simp: fs_read_def file_at_def split: option.splits node.splits)
  then show ?thesis
    using path by (auto simp: db_get_chunk_def sql_get_chunk_def assms(1) hash Let_def and_then_def split: sum.splits)
qed

text \<open>
  C14. Two overlapping calls can lose a stored chunk although nothing fails and both succeed: a chunk
  is stored; one call replaces it and another stores the old data again. The second sees the old file
  and does not write it; the first commits; the second commits its row; then the first removes the
  file it replaced. The row is there and its file is not, and a read fails. This can happen to every
  stored chunk.
\<close>

theorem overlapping_upserts_lose_chunk:
  assumes hyps: "db_hyps cr db U" and rep: "store_rep cr db U a s"
    and stored: "a_chunks a (cls, key, idx) = Some (old, old_final)"
    and new: "((cls, key, idx), data, is_final) \<in> U" "(data, is_final) \<noteq> (old, old_final)"
    and sizes: "check_chunk_size (length data) is_final = Inr ()" "check_chunk_size (length old) old_final = Inr ()"
    and clear: "clear_way (be_path (cfg_of cr db) (w_id cr db ((cls, key, idx), data, is_final))) (st_fs s)"
  shows "\<exists>c. (task_step cr db {ok_env})\<^sup>*\<^sup>* \<lparr>ds_store = s, ds_jobs = []\<rparr> c \<and>
    ds_jobs c = [Finished (Inr ()), Finished (Inr ())] \<and>
    q_chunk (cls, key, idx) (st_sql (ds_store c)) = q_chunk (cls, key, idx) (st_sql s) \<and>
    isl (db_get_chunk cr db ok_env cls key idx old_final (ds_store c))"
proof -
  let ?x = "((cls, key, idx), data, is_final)" and ?y = "((cls, key, idx), old, old_final)"
  let ?c = "cfg_of cr db" and ?go = "(task_step cr db {ok_env})\<^sup>*\<^sup>*"
  have y: "?y \<in> U" by (rule store_repD(4) [OF rep stored])
  have neq: "?y \<noteq> ?x" using new(2) by auto
  then have ids: "w_id cr db ?y \<noteq> w_id cr db ?x" using db_hyps_inj [OF hyps y new(1)] by simp
  have "length (w_id cr db ?x) = 32" using hyps by (simp add: db_hyps_def)
  then have "fst (blob_put ?c (call_of ok_env) (w_id cr db ?x) (w_data cr db ?x) (st_fs s)) = Inr ()"
    using blob_put_succeeds [OF clear store_repD(7) [OF rep]] by (simp add: ok_env_def)
  then have "\<exists>b fs1. chunk_write_phase cr db ok_env (w_row cr db ?x) (w_data cr db ?x) (st_fs s) = (Inr b, fs1)"
    by (auto simp: chunk_write_phase_def case_prod_beta)
  then obtain b fs1 where ph: "chunk_write_phase cr db ok_env (w_row cr db ?x) (w_data cr db ?x) (st_fs s) = (Inr b, fs1)"
    by blast
  have x_ready: "?go \<lparr>ds_store = s, ds_jobs = [Checking ?x, Checking ?y]\<rparr>
      \<lparr>ds_store = s\<lparr>st_fs := fs1\<rparr>, ds_jobs = [Committing ?x b, Checking ?y]\<rparr>"
    using run_write_phase [OF _ _ ph, of 0 "[Checking ?x, Checking ?y]"] by simp
  have "blob_content ?c fs1 (w_id cr db ?y) = Some (w_data cr db ?y)"
    using write_phase(3) [OF hyps new(1) store_repD(6,7) [OF rep] ph y neq] store_repD(5) [OF rep stored] by simp
  then have "blob_present (ev_fs ok_env) (be_path ?c (w_id cr db ?y)) (length (w_data cr db ?y)) fs1"
    by (intro blob_present_full) (simp_all add: blob_content_def ok_env_def)
  then have "chunk_write_phase cr db ok_env (w_row cr db ?y) (w_data cr db ?y) fs1 = (Inr False, fs1)"
    by (simp add: chunk_write_phase_def)
  then have y_ready: "?go \<lparr>ds_store = s\<lparr>st_fs := fs1\<rparr>, ds_jobs = [Committing ?x b, Checking ?y]\<rparr>
      \<lparr>ds_store = s\<lparr>st_fs := fs1\<rparr>, ds_jobs = [Committing ?x b, Committing ?y False]\<rparr>"
    using run_write_phase [of 1 "[Committing ?x b, Checking ?y]" ?y cr db "s\<lparr>st_fs := fs1\<rparr>" False fs1] by simp
  have row: "q_chunk (fst ?x) (st_sql s) = Some (w_row cr db ?y)"
    using store_repD(3) [OF rep, of "(cls, key, idx)"] stored by simp
  obtain t where t: "q_chunk (fst ?y) t = Some (w_row cr db ?y)"
    "?go \<lparr>ds_store = s\<lparr>st_fs := fs1\<rparr>, ds_jobs = [Committing ?x b, Committing ?y False]\<rparr>
      \<lparr>ds_store = \<lparr>st_sql = t, st_fs = blob_del ?c (call_of ok_env) (w_id cr db ?x)
          (blob_del ?c (call_of ok_env) (w_id cr db ?y) fs1)\<rparr>, ds_jobs = [Finished (Inr ()), Finished (Inr ())]\<rparr>"
    using commit_in_turn [of ?x ?y cr db "s\<lparr>st_fs := fs1\<rparr>" b] ids row by auto
  let ?last = "\<lparr>ds_store = \<lparr>st_sql = t, st_fs = blob_del ?c (call_of ok_env) (w_id cr db ?x)
      (blob_del ?c (call_of ok_env) (w_id cr db ?y) fs1)\<rparr>, ds_jobs = [Finished (Inr ()), Finished (Inr ())]\<rparr>"
  have "?go \<lparr>ds_store = s, ds_jobs = []\<rparr> ?last"
    using start_two [OF sizes] x_ready y_ready t(2) by (meson rtranclp_trans)
  moreover have "isl (db_get_chunk cr db ok_env cls key idx old_final (ds_store ?last))"
    using t(1) by (intro get_chunk_lost [where data = old and fin = old_final]) (simp_all add: blob_del_def file_at_remove_file call_of_def ok_env_def)
  ultimately show ?thesis using row t(1) by (intro exI [of _ ?last]) simp
qed


theorem overlapping_upserts_lose_chunk_witness:
  "\<exists>c. (task_step demo_crates demo_db {ok_env})\<^sup>*\<^sup>* \<lparr>ds_store = demo_stored, ds_jobs = []\<rparr> c \<and>
    ds_jobs c = [Finished (Inr ()), Finished (Inr ())] \<and>
    isl (db_get_chunk demo_crates demo_db ok_env ''c'' ''k'' 0 True (ds_store c))"
proof -
  have stored: "a_chunks (a_put_chunk demo_write demo_adb) (''c'', ''k'', 0) = Some ([1, 2, 3], True)"
    by (simp add: a_put_chunk_def demo_write_def)
  have new: "((''c'', ''k'', 0), [4, 5, 6], True) \<in> {demo_write, demo_write2}" by (simp add: demo_write2_def)
  have size: "check_chunk_size (length ([1, 2, 3] :: bytes)) True = Inr ()"
    "check_chunk_size (length ([4, 5, 6] :: bytes)) True = Inr ()"
    by (simp_all add: check_chunk_size_def CHUNK_SIZE_def)
  have "clear_way (be_path (cfg_of demo_crates demo_db) i) (st_fs demo_stored)" for i
    by (auto simp: clear_way_def dest!: demo_stored_file prefix_length_less)
  then show ?thesis
    using overlapping_upserts_lose_chunk [OF demo_hyps2 demo_stored_rep stored new _ size(2,1)] by auto
qed


text \<open>
  The same with the cleanup: a blob that an earlier call left without a row, older than the grace
  period, is found by a call that writes it again and by the cleanup, before that call commits.
\<close>

lemma collected_before_commit:
  assumes "q_entry (c_parent (w_row cr db w)) t \<noteq> None" "tables_wf t" "\<not> q_blob_id_exists (w_id cr db w) t"
    and "q_chunk (fst w) t = None" "length (w_id cr db w) = 32"
    and "file_at fs (be_path (cfg_of cr db) (w_id cr db w)) = Some (w_data cr db w)"
  shows "\<exists>c. (task_step cr db {ok_env})\<^sup>*\<^sup>* \<lparr>ds_store = \<lparr>st_sql = t, st_fs = fs\<rparr>, ds_jobs = [Checking w]\<rparr> c \<and>
    hd (ds_jobs c) = Finished (Inr ()) \<and> q_chunk (fst w) (st_sql (ds_store c)) = Some (w_row cr db w) \<and>
    file_at (st_fs (ds_store c)) (be_path (cfg_of cr db) (w_id cr db w)) = None"
proof -
  let ?go = "(task_step cr db {ok_env})\<^sup>*\<^sup>*" and ?s = "\<lparr>st_sql = t, st_fs = fs\<rparr>" and ?i = "w_id cr db w"
  let ?fs = "blob_del (cfg_of cr db) (call_of ok_env) ?i fs"
  obtain t' where t': "exec_upsert_chunk (w_row cr db w) t = Inr t'"
    using exec_upsert_chunk_ok [OF assms(2), of "w_row cr db w"] assms(1) by (cases "exec_upsert_chunk (w_row cr db w) t") auto
  have commit: "sql_upsert_chunk sql_ok (w_row cr db w) t = (Inr None, t')"
    using assms(4) t' by (simp add: sql_upsert_chunk_Inr)
  have "chunk_write_phase cr db ok_env (w_row cr db w) (w_data cr db w) fs = (Inr False, fs)"
    using blob_present_full [of "ev_fs ok_env"] assms(6) by (simp add: chunk_write_phase_def ok_env_def)
  then have "?go \<lparr>ds_store = ?s, ds_jobs = [Checking w]\<rparr> \<lparr>ds_store = ?s, ds_jobs = [Committing w False]\<rparr>"
    using run_write_phase [of 0 "[Checking w]" w cr db ?s False fs] by simp
  moreover have "?go \<lparr>ds_store = ?s, ds_jobs = [Committing w False]\<rparr> \<lparr>ds_store = ?s, ds_jobs = [Committing w False, Removing [?i]]\<rparr>"
    using task_step.collect [of ok_env "{ok_env}" ?i "\<lparr>ds_store = ?s, ds_jobs = [Committing w False]\<rparr>" cr db] assms(3,5)
    by (intro r_into_rtranclp) (simp add: sql_blob_id_exists_def ok_env_def)
  moreover have "?go \<lparr>ds_store = ?s, ds_jobs = [Committing w False, Removing [?i]]\<rparr>
      \<lparr>ds_store = \<lparr>st_sql = t', st_fs = fs\<rparr>, ds_jobs = [Finishing w False (Inr None), Removing [?i]]\<rparr>"
    using run_job [of 0 "[Committing w False, Removing [?i]]" cr db ?s] commit by (simp add: ok_env_def)
  moreover have "?go \<lparr>ds_store = \<lparr>st_sql = t', st_fs = fs\<rparr>, ds_jobs = [Finishing w False (Inr None), Removing [?i]]\<rparr>
      \<lparr>ds_store = \<lparr>st_sql = t', st_fs = fs\<rparr>, ds_jobs = [Finished (Inr ()), Removing [?i]]\<rparr>"
    using run_job [of 0 "[Finishing w False (Inr None), Removing [?i]]" cr db] by (simp add: chunk_finish_phase_def)
  moreover have "?go \<lparr>ds_store = \<lparr>st_sql = t', st_fs = fs\<rparr>, ds_jobs = [Finished (Inr ()), Removing [?i]]\<rparr>
      \<lparr>ds_store = \<lparr>st_sql = t', st_fs = ?fs\<rparr>, ds_jobs = [Finished (Inr ()), Removing []]\<rparr>"
    using run_job [of 1 "[Finished (Inr ()), Removing [?i]]" cr db "\<lparr>st_sql = t', st_fs = fs\<rparr>"] by simp
  ultimately have "?go \<lparr>ds_store = ?s, ds_jobs = [Checking w]\<rparr>
      \<lparr>ds_store = \<lparr>st_sql = t', st_fs = ?fs\<rparr>, ds_jobs = [Finished (Inr ()), Removing []]\<rparr>"
    by (meson rtranclp_trans)
  moreover have "q_chunk (fst w) t' = Some (w_row cr db w)" using q_chunk_upsert_chunk [OF t'] by simp
  moreover have "file_at ?fs (be_path (cfg_of cr db) ?i) = None"
    by (simp add: blob_del_def file_at_remove_file call_of_def ok_env_def)
  ultimately show ?thesis
    by (intro exI [of _ "\<lparr>ds_store = \<lparr>st_sql = t', st_fs = ?fs\<rparr>, ds_jobs = [Finished (Inr ()), Removing []]\<rparr>"]) simp
qed

end
