(* ===== verification/Db_Tasks.thy ===== *)
theory Db_Tasks
  imports Cleanup Db_Demo
begin

section \<open>The background tasks of a database\<close>

text \<open>
  \<open>prune_task\<close> and \<open>cleanup_task\<close> of \<open>rs/v-m-io-db/src/lib.rs\<close>: endless loops of passes with a sleep
  between them. The model runs a number of passes, each with its own environment (a prune pass has one
  per transaction); what passes between two of them is in the clock of the next environment.
\<close>

fun prune_task :: "crates \<Rightarrow> vm_io_db \<Rightarrow> (nat \<Rightarrow> nat \<Rightarrow> db_env) \<Rightarrow> nat \<Rightarrow> store \<Rightarrow> store" where
  "prune_task cr db envs 0 s = s"
| "prune_task cr db envs (Suc n) s =
     (case prune_backlog cr db (envs 0) 0 s of (r, s1) \<Rightarrow> prune_task cr db (\<lambda>i. envs (Suc i)) n s1)"

fun cleanup_task :: "crates \<Rightarrow> vm_io_db \<Rightarrow> (nat \<Rightarrow> db_env) \<Rightarrow> nat \<Rightarrow> store \<Rightarrow> store" where
  "cleanup_task cr db envs 0 s = s"
| "cleanup_task cr db envs (Suc n) s = cleanup_task cr db (\<lambda>i. envs (Suc i)) n (cleanup_pass cr db (envs 0) s)"

lemma prune_task_last:
  "prune_task cr db envs (Suc n) s = snd (prune_backlog cr db (envs n) 0 (prune_task cr db envs n s))"
proof (induction n arbitrary: envs s)
  case (Suc n)
  from Suc.IH [of "\<lambda>i. envs (Suc i)" "snd (prune_backlog cr db (envs 0) 0 s)"] show ?case
    by (simp add: case_prod_beta)
qed (simp add: case_prod_beta)

lemma cleanup_task_last:
  "cleanup_task cr db envs (Suc n) s = cleanup_pass cr db (envs n) (cleanup_task cr db envs n s)"
proof (induction n arbitrary: envs s)
  case (Suc n)
  from Suc.IH [of "\<lambda>i. envs (Suc i)" "cleanup_pass cr db (envs 0) s"] show ?case by simp
qed simp

subsection \<open>The files after a prune pass\<close>

text \<open>A relation on file systems that holds for one removed blob holds for a pass.\<close>

lemma prune_backlog_fs:
  assumes r: "\<And>fs. R fs fs" and trans: "\<And>a b c. R a b \<Longrightarrow> R b c \<Longrightarrow> R a c"
    and del: "\<And>fs e p i. R fs (blob_del e p i fs)"
  shows "R (st_fs s) (st_fs (snd (prune_backlog cr db envs n s)))"
proof (induction cr db envs n s rule: prune_backlog.induct)
  case (1 cr db envs n s)
  have dels: "R fs (fold (blob_del e p) ids fs)" for fs e p ids
    by (induction ids arbitrary: fs) (auto intro: r trans [OF del])
  show ?case
  proof (cases "micros_since_epoch (ev_now (envs n))")
    case None
    then show ?thesis by (simp add: prune_backlog.simps r)
  next
    case now: (Some now)
    obtain q t where sql: "sql_prune_expired (ev_sql (envs n)) now (int PRUNE_BATCH) (st_sql s) = (q, t)" by force
    show ?thesis
    proof (cases q)
      case (Inl e)
      with now sql show ?thesis by (simp add: prune_backlog.simps [of cr db envs n] r)
    next
      case q: (Inr c)
      obtain count ids where c: "c = (count, ids)" by (cases c)
      let ?s1 = "\<lparr>st_sql = t, st_fs = fold (blob_del (cfg_of cr db) (call_of (envs n))) ids (st_fs s)\<rparr>"
      have step: "R (st_fs s) (st_fs ?s1)" by (simp add: dels)
      show ?thesis
      proof (cases "count < PRUNE_BATCH")
        case True
        with now sql q c step show ?thesis by (simp add: prune_backlog.simps [of cr db envs n])
      next
        case False
        from "1.IH" [OF now sql [symmetric] q c [symmetric] refl False] trans [OF step]
        show ?thesis using now sql q c False by (simp add: prune_backlog.simps [of cr db envs n])
      qed
    qed
  qed
qed

lemma prune_task_fs:
  assumes r: "\<And>fs. R fs fs" and trans: "\<And>a b c. R a b \<Longrightarrow> R b c \<Longrightarrow> R a c"
    and del: "\<And>fs e p i. R fs (blob_del e p i fs)"
  shows "R (st_fs s) (st_fs (prune_task cr db envs n s))"
proof (induction n arbitrary: envs s)
  case (Suc n)
  have "R (st_fs s) (st_fs (snd (prune_backlog cr db (envs 0) 0 s)))"
    by (rule prune_backlog_fs [OF r trans del])
  from trans [OF this Suc.IH] show ?case by (simp add: case_prod_beta)
qed (simp add: r)

lemma prune_task_fs_wf: "fs_wf (st_fs s) \<Longrightarrow> fs_wf (st_fs (prune_task cr db envs n s))"
  using prune_task_fs [of "\<lambda>a b. fs_wf a \<longrightarrow> fs_wf b" s cr db envs n] fs_wf_blob_del by blast

lemma prune_task_files:
  assumes "fs_lookup (st_fs (prune_task cr db envs n s)) p = Some (File m d)"
  shows "fs_lookup (st_fs s) p = Some (File m d)"
proof -
  have "fs_lookup fs p = Some (File m d)" if "fs_lookup (blob_del e c i fs) p = Some (File m d)" for e c i fs
    using that by (simp add: blob_del_def fs_lookup_remove_file split: if_splits)
  then show ?thesis
    using prune_task_fs [of "\<lambda>a b. fs_lookup b p = Some (File m d) \<longrightarrow> fs_lookup a p = Some (File m d)" s cr db envs n] assms
    by blast
qed


subsection \<open>What the passes do to the maps\<close>

lemma prune_backlog_ok:
  "(\<And>i. ev_sql (envs i) = sql_ok) \<Longrightarrow> fst (prune_backlog cr db envs n s) = Inr ()"
proof (induction cr db envs n s rule: prune_backlog.induct)
  case (1 cr db envs n s)
  show ?case
  proof (cases "micros_since_epoch (ev_now (envs n))")
    case None
    then show ?thesis by (simp add: prune_backlog.simps)
  next
    case now: (Some now)
    obtain count ids t where sql: "sql_prune_expired (ev_sql (envs n)) now (int PRUNE_BATCH) (st_sql s) = (Inr (count, ids), t)"
      unfolding "1.prems" sql_prune_expired_ok by blast
    show ?thesis
      using "1.IH" [OF now sql [symmetric] refl refl refl _ "1.prems"] now sql
      by (cases "count < PRUNE_BATCH") (simp_all add: prune_backlog.simps [of cr db envs n])
  qed
qed

text \<open>The entries of the map that had expired at some reading of the clock.\<close>

definition clock_read :: "db_env \<Rightarrow> int \<Rightarrow> bool" where
  "clock_read ev now \<longleftrightarrow> micros_since_epoch (ev_now ev) = Some now"

lemma prune_task_sim:
  assumes "db_hyps cr db U" "store_rep cr db U a s"
  shows "\<exists>P. store_rep cr db U (a_del P a) (prune_task cr db envs n s) \<and>
    (\<forall>k. P k \<longrightarrow> (\<exists>i j now. clock_read (envs i j) now \<and> a_expired now a k))"
proof (induction n)
  case 0
  show ?case using assms(2) by (intro exI [of _ "\<lambda>k. False"]) simp
next
  case (Suc n)
  then obtain P where P: "store_rep cr db U (a_del P a) (prune_task cr db envs n s)"
    "\<forall>k. P k \<longrightarrow> (\<exists>i j now. clock_read (envs i j) now \<and> a_expired now a k)" by blast
  obtain r s' where run: "prune_backlog cr db (envs n) 0 (prune_task cr db envs n s) = (r, s')" by force
  obtain Q where Q: "store_rep cr db U (a_del Q (a_del P a)) s'" "prune_result (envs n) 0 (a_del P a) r Q"
    using prune_sim [OF assms(1) P(1) run] by blast
  have "\<exists>i j now. clock_read (envs i j) now \<and> a_expired now a k" if "Q k" for k
    using Q(2) that unfolding prune_result_def clock_read_def by (metis a_expired_a_del)
  then show ?case
    using P(2) Q(1) run prune_task_last [of cr db envs n s]
    by (intro exI [of _ "\<lambda>k. P k \<or> Q k"]) (auto simp: a_del_a_del)
qed

text \<open>After a pass in which sqlite does not fail, what had expired at all its readings is gone.\<close>

lemma prune_task_complete:
  assumes "db_hyps cr db U" "store_rep cr db U a s"
    and "\<And>j. ev_sql (envs n j) = sql_ok" "\<And>j. 0 \<le> ev_now (envs n j)"
  shows "\<exists>P. store_rep cr db U (a_del P a) (prune_task cr db envs (Suc n) s) \<and>
    (\<forall>k. P k \<longrightarrow> (\<exists>i j now. clock_read (envs i j) now \<and> a_expired now a k)) \<and>
    (\<forall>k. (\<forall>j now. clock_read (envs n j) now \<longrightarrow> a_expired now a k) \<longrightarrow> P k)"
proof -
  obtain P where P: "store_rep cr db U (a_del P a) (prune_task cr db envs n s)"
    "\<forall>k. P k \<longrightarrow> (\<exists>i j now. clock_read (envs i j) now \<and> a_expired now a k)"
    using prune_task_sim [OF assms(1,2)] by blast
  obtain s' where run: "prune_backlog cr db (envs n) 0 (prune_task cr db envs n s) = (Inr (), s')"
    using prune_backlog_ok [of "envs n" cr db 0, OF assms(3)] by (metis prod.collapse)
  obtain Q where Q: "store_rep cr db U (a_del Q (a_del P a)) s'" "prune_result (envs n) 0 (a_del P a) (Inr ()) Q"
    using prune_sim [OF assms(1) P(1) run] by blast
  have q: "\<exists>j now. clock_read (envs n j) now \<and> a_expired now a k" if "Q k" for k
    using Q(2) that unfolding prune_result_def clock_read_def by (metis a_expired_a_del)
  have "micros_since_epoch (ev_now (envs n j)) \<noteq> None" for j using assms(4) [of j] by (simp add: micros_since_epoch_def)
  then obtain j now where last: "clock_read (envs n j) now" "\<forall>k. a_expired now (a_del P a) k \<longrightarrow> Q k"
    using Q(2) unfolding prune_result_def clock_read_def by blast
  have "P k \<or> Q k" if "\<forall>j now. clock_read (envs n j) now \<longrightarrow> a_expired now a k" for k
    using that last a_expired_a_del [of now P a k] by blast
  moreover have "\<exists>i j now. clock_read (envs i j) now \<and> a_expired now a k" if "P k \<or> Q k" for k
    using that P(2) q by blast
  moreover have "prune_task cr db envs (Suc n) s = s'" using run prune_task_last by (metis snd_conv)
  ultimately show ?thesis
    using Q(1) by (intro exI [of _ "\<lambda>k. P k \<or> Q k"]) (simp add: a_del_a_del del: prune_task.simps split_paired_All)
qed

lemma cleanup_pass_sql [simp]: "st_sql (cleanup_pass cr db ev s) = st_sql s"
  by (rule cleanup_pass_cases [of cr db ev s]) (metis store.select_convs(1) store.surjective store.update_convs(2))+

lemma cleanup_task_sim:
  assumes "db_hyps cr db U" "store_rep cr db U a s"
  shows "store_rep cr db U a (cleanup_task cr db envs n s)"
  using assms(2) by (induction n arbitrary: envs s) (simp_all add: store_rep_cleanup_pass [OF assms(1)])

lemma cleanup_task_files:
  "fs_wf (st_fs s) \<Longrightarrow> fs_wf (st_fs (cleanup_task cr db envs n s)) \<and>
   (\<forall>p m d. fs_lookup (st_fs (cleanup_task cr db envs n s)) p = Some (File m d) \<longrightarrow>
      fs_lookup (st_fs s) p = Some (File m d)) \<and> st_sql (cleanup_task cr db envs n s) = st_sql s"
proof (induction n arbitrary: envs s)
  case (Suc n)
  let ?s = "cleanup_pass cr db (envs 0) s"
  have "fs_wf (st_fs ?s)"
    using Suc.prems by (auto simp: cleanup_pass_def cleanup_dir_def fs_wf_cleanup split: option.split sum.split)
  moreover have "fs_lookup (st_fs s) p = Some (File m d)" if "fs_lookup (st_fs ?s) p = Some (File m d)" for p m d
  proof (cases rule: cleanup_pass_cases [of cr db "envs 0" s])
    case (pass cutoff)
    show ?thesis using pass(2) that unfolding only_garbage_def by blast
  qed (use that in simp)
  ultimately show ?case using Suc.IH [of ?s "\<lambda>i. envs (Suc i)"] by auto
qed simp

text \<open>A last pass without faults leaves no stale file that no row refers to.\<close>

lemma cleanup_task_complete:
  assumes "hex_ok cr" "length i = 32" "\<not> q_blob_id_exists i (st_sql s)" "fs_wf (st_fs s)" "root_dir db \<noteq> []"
    and "ev_sql (envs n) = sql_ok" "ev_fs (envs n) = no_faults"
    and "checked_sub (ev_now (envs n)) CLEANUP_GRACE = Some cutoff"
    and "\<And>m d. fs_lookup (st_fs s) (id_path cr (root_dir db) i) = Some (File m d) \<Longrightarrow> m \<le> cutoff"
  shows "file_at (st_fs (cleanup_task cr db envs (Suc n) s)) (id_path cr (root_dir db) i) = None"
proof -
  let ?s = "cleanup_task cr db envs n s" and ?p = "id_path cr (root_dir db) i"
  have s: "fs_wf (st_fs ?s)" "st_sql ?s = st_sql s"
    "\<And>m d. fs_lookup (st_fs ?s) ?p = Some (File m d) \<Longrightarrow> fs_lookup (st_fs s) ?p = Some (File m d)"
    using cleanup_task_files [OF assms(4), of cr db envs n] by blast+
  have "file_at (st_fs (cleanup_pass cr db (envs n) ?s)) ?p = None"
  proof (cases "file_at (st_fs ?s) ?p")
    case None
    show ?thesis
    proof (cases rule: cleanup_pass_cases [of cr db "envs n" ?s])
      case (pass cutoff)
      show ?thesis by (rule gone_later [OF None pass(2)])
    qed (use None in simp)
  next
    case (Some x)
    then obtain m d where "fs_lookup (st_fs ?s) ?p = Some (File m d)" by (auto simp: file_at_Some_lookup)
    moreover have "strict_prefix (root_dir db) ?p" by (simp add: id_path_def Let_def strict_prefix_def)
    ultimately have "is_dir (st_fs ?s) (root_dir db)"
      using ancestor_dir [OF s(1)] assms(5) by blast
    then show ?thesis
      using cleanup_collects [OF assms(1,2) _ s(1) _ assms(5-8)] assms(3,9) s(2,3) by simp
  qed
  then show ?thesis by (simp only: cleanup_task_last)
qed


subsection \<open>Properties\<close>

lemma unused_blob_id:
  assumes "db_hyps cr db U" "store_rep cr db U a s" "(k, df) \<in> U" "a_chunks a k \<noteq> Some df"
  shows "\<not> q_blob_id_exists (w_id cr db (k, df)) (st_sql s)"
proof
  assume "q_blob_id_exists (w_id cr db (k, df)) (st_sql s)"
  then obtain r where r: "r \<in> set (chunks (st_sql s))" "c_blob_id r = w_id cr db (k, df)"
    by (auto simp: q_blob_id_exists_def)
  obtain df' where df': "a_chunks a (c_pk r) = Some df'" "r = w_row cr db (c_pk r, df')"
    by (rule store_rep_row [OF assms(2) r(1)])
  have "w_id cr db (c_pk r, df') = w_id cr db (k, df)" using r(2) df'(2) by (metis c_blob_id_w_row)
  then have "(c_pk r, df') = (k, df)"
    using db_hyps_inj [OF assms(1) store_repD(4) [OF assms(2) df'(1)] assms(3)] by simp
  then show False using df'(1) assms(4) by simp
qed

text \<open>
  C13. Expired data leaves the database and the disk, whatever happened in earlier passes and even if
  no file could be removed while pruning: after a prune pass in which sqlite does not fail, and later a
  cleanup pass without faults, an entry that had expired is gone, its chunks read as absent, and their
  files, if not touched within the grace period, are removed; every entry without an expiry and all its
  chunks are as before.
\<close>

theorem expired_data_reclaimed:
  assumes hyps: "db_hyps cr db U" and rep: "store_rep cr db U a s" and fs: "fs_wf (st_fs s)" "root_dir db \<noteq> []"
    and pruned: "\<And>j. ev_sql (penvs n j) = sql_ok" "\<And>j. 0 \<le> ev_now (penvs n j)"
    and cleaned: "ev_sql (cenvs m) = sql_ok" "ev_fs (cenvs m) = no_faults"
      "checked_sub (ev_now (cenvs m)) CLEANUP_GRACE = Some cutoff"
    and s': "s' = cleanup_task cr db cenvs (Suc m) (prune_task cr db penvs (Suc n) s)"
    and gone: "a_entries a (cls, key) = Some row" "\<And>j now. clock_read (penvs n j) now \<Longrightarrow> expired now row"
    and chunk: "a_chunks a (cls, key, idx) = Some df"
    and old: "\<And>t d. fs_lookup (st_fs s) (be_path (cfg_of cr db) (w_id cr db ((cls, key, idx), df))) = Some (File t d) \<Longrightarrow> t \<le> cutoff"
  shows "q_entry (cls, key) (st_sql s') = None \<and> db_get_chunk cr db ok_env cls key idx want s' = Inr None \<and>
    file_at (st_fs s') (be_path (cfg_of cr db) (w_id cr db ((cls, key, idx), df))) = None \<and>
    (\<forall>k r. a_entries a k = Some r \<and> e_expires r = None \<longrightarrow> q_entry k (st_sql s') = Some r \<and>
      (\<forall>i d f. a_chunks a (fst k, snd k, i) = Some (d, f) \<longrightarrow>
         db_get_chunk cr db ok_env (fst k) (snd k) i f s' = Inr (Some d)))"
proof -
  let ?s1 = "prune_task cr db penvs (Suc n) s" and ?w = "((cls, key, idx), df)"
  obtain P where P: "store_rep cr db U (a_del P a) ?s1"
    "\<forall>k. P k \<longrightarrow> (\<exists>i j now. clock_read (penvs i j) now \<and> a_expired now a k)"
    "\<forall>k. (\<forall>j now. clock_read (penvs n j) now \<longrightarrow> a_expired now a k) \<longrightarrow> P k"
    using prune_task_complete [OF hyps rep, of penvs n] pruned by blast
  have rep': "store_rep cr db U (a_del P a) s'" unfolding s' by (rule cleanup_task_sim [OF hyps P(1)])
  have "P (cls, key)" using P(3) gone by (simp add: a_expired_def)
  then have absent: "a_entries (a_del P a) (cls, key) = None" "a_chunks (a_del P a) (cls, key, idx) = None" by simp_all
  have "q_entry (cls, key) (st_sql s') = None" using store_repD(2) [OF rep'] absent(1) by simp
  moreover have "db_get_chunk cr db ok_env cls key idx want s' = Inr None"
    using get_chunk_none [OF rep' absent(2)] by (simp add: ok_env_def)
  moreover have "file_at (st_fs s') (be_path (cfg_of cr db) (w_id cr db ?w)) = None"
    unfolding s' be_path_def cfg_of_def fst_conv snd_conv
  proof (rule cleanup_task_complete [where envs = cenvs and n = m, OF _ _ _ prune_task_fs_wf [OF fs(1)] fs(2) cleaned])
    show "\<not> q_blob_id_exists (w_id cr db ?w) (st_sql ?s1)"
      using unused_blob_id [OF hyps P(1) store_repD(4) [OF rep chunk]] absent(2) by simp
    show "t \<le> cutoff" if "fs_lookup (st_fs ?s1) (id_path cr (root_dir db) (w_id cr db ?w)) = Some (File t d)" for t d
      using old [of t d] prune_task_files [OF that] by (simp add: be_path_def cfg_of_def)
  qed (use hyps in \<open>simp_all add: db_hyps_def\<close>)
  moreover have "q_entry k (st_sql s') = Some r \<and>
      (\<forall>i d f. a_chunks a (fst k, snd k, i) = Some (d, f) \<longrightarrow> db_get_chunk cr db ok_env (fst k) (snd k) i f s' = Inr (Some d))"
    if k: "a_entries a k = Some r" "e_expires r = None" for k r
  proof -
    have "\<not> P k" using spec [OF P(2), of k] k by (auto simp: a_expired_def expired_def)
    then have "a_entries (a_del P a) k = Some r"
      "\<And>i. a_chunks (a_del P a) (fst k, snd k, i) = a_chunks a (fst k, snd k, i)" using k by simp_all
    then show ?thesis
      using store_repD(2) [OF rep', of k] get_chunk_value [OF hyps rep', of "fst k" "snd k" _ _ _ ok_env]
      by (auto simp: ok_env_def)
  qed
  ultimately show ?thesis by blast
qed


theorem expired_data_reclaimed_witness:
  "\<exists>s'. s' = cleanup_task demo_crates demo_db (\<lambda>_. ok_env\<lparr>ev_now := 300000000000\<rparr>) 1
        (prune_task demo_crates demo_db (\<lambda>_ _. ok_env\<lparr>ev_now := 9000\<rparr>) 1 demo_stored) \<and>
     q_entry (''c'', ''k'') (st_sql s') = None \<and> file_at (st_fs s') (demo_path demo_write) = None"
proof -
  let ?p = "\<lambda>_ _. ok_env\<lparr>ev_now := 9000\<rparr>" and ?c = "\<lambda>_. ok_env\<lparr>ev_now := 300000000000\<rparr>"
  let ?a = "a_put_chunk demo_write demo_adb" and ?U = "{demo_write, demo_write2}"
  let ?s = "cleanup_task demo_crates demo_db ?c (Suc 0) (prune_task demo_crates demo_db ?p (Suc 0) demo_stored)"
  have w: "demo_write = ((''c'', ''k'', 0), [1, 2, 3], True)" by (simp add: demo_write_def)
  have root: "root_dir demo_db \<noteq> []" by (simp add: demo_db_def)
  have p: "ev_sql (?p i j) = sql_ok" "0 \<le> ev_now (?p i j)" for i j by (simp_all add: ok_env_def del: sql_ok_simp)
  have c: "ev_sql (?c i) = sql_ok" "ev_fs (?c i) = no_faults" "checked_sub (ev_now (?c i)) CLEANUP_GRACE = Some 0" for i
    by (simp_all add: ok_env_def checked_sub_def CLEANUP_GRACE_def of_secs_def i64_defs del: sql_ok_simp)
  have a: "a_entries ?a (''c'', ''k'') = Some (row_of ''c'' ''k'' 5 (Some 9) None)"
    by (simp add: a_put_chunk_def demo_adb_def)
  have e: "expired now (row_of ''c'' ''k'' 5 (Some 9) None)" if "clock_read (?p i j) now" for i j now
    using that by (simp add: clock_read_def micros_since_epoch_def i64_defs expired_def row_of_def)
  have ch: "a_chunks ?a (''c'', ''k'', 0) = Some ([1, 2, 3], True)" by (simp add: a_put_chunk_def w)
  have old: "t \<le> 0" if "fs_lookup (st_fs demo_stored) (demo_path ((''c'', ''k'', 0), [1, 2, 3], True)) = Some (File t d)" for t d
    using demo_stored_file [OF that] by simp
  note gone = expired_data_reclaimed [where penvs = ?p and cenvs = ?c and n = 0 and m = 0 and want = True,
      OF demo_hyps2 demo_stored_rep demo_stored_wf root p c refl a e ch old]
  have "q_entry (''c'', ''k'') (st_sql ?s) = None"
    and "file_at (st_fs ?s) (demo_path ((''c'', ''k'', 0), [1, 2, 3], True)) = None"
    using conjunct1 [OF gone] conjunct1 [OF conjunct2 [OF conjunct2 [OF gone]]] by simp_all
  then show ?thesis by (simp add: w [symmetric] del: prune_task.simps cleanup_task.simps)
qed


lemma prune_round_count:
  assumes "sql_prune_expired pl now (int PRUNE_BATCH) (st_sql s) = (Inr (count, out), t)" "\<not> count < PRUNE_BATCH"
  shows "Suc (length (entries t) div PRUNE_BATCH) \<le> length (entries (st_sql s)) div PRUNE_BATCH"
proof -
  have "length (entries t) + count = length (entries (st_sql s))"
    using assms(1) by (auto dest!: sql_prune_expired_Inr length_exec_delete)
  then have "length (entries t) + PRUNE_BATCH \<le> length (entries (st_sql s))" using assms(2) by simp
  then have "(length (entries t) + PRUNE_BATCH) div PRUNE_BATCH \<le> length (entries (st_sql s)) div PRUNE_BATCH"
    by (rule div_le_mono)
  then show ?thesis by (simp add: PRUNE_BATCH_def)
qed

text \<open>
  C39. A prune pass ends, after at most one transaction for every 256 entries of the database and one more,
  whatever the clock reads and whatever fails: its result depends on no environment beyond those.
\<close>

theorem prune_rounds_bounded:
  assumes "\<And>i. n \<le> i \<Longrightarrow> i \<le> n + length (entries (st_sql s)) div 256 \<Longrightarrow> envs i = envs' i"
  shows "prune_backlog cr db envs n s = prune_backlog cr db envs' n s"
  using assms
proof (induction cr db envs n s rule: prune_backlog.induct)
  case (1 cr db envs n s)
  have now: "envs n = envs' n" using "1.prems" by simp
  show ?case
  proof (cases "micros_since_epoch (ev_now (envs n))")
    case None
    then show ?thesis using now by (simp add: prune_backlog.simps)
  next
    case micros: (Some m)
    obtain q t where sql: "sql_prune_expired (ev_sql (envs n)) m (int PRUNE_BATCH) (st_sql s) = (q, t)" by force
    show ?thesis
    proof (cases q)
      case (Inl e)
      then show ?thesis using now micros sql by (simp add: prune_backlog.simps [of cr db _ n])
    next
      case q: (Inr c)
      obtain count ids where c: "c = (count, ids)" by (cases c)
      let ?s1 = "\<lparr>st_sql = t, st_fs = fold (blob_del (cfg_of cr db) (call_of (envs n))) ids (st_fs s)\<rparr>"
      show ?thesis
      proof (cases "count < PRUNE_BATCH")
        case True
        then show ?thesis using now micros sql q c by (simp add: prune_backlog.simps [of cr db _ n])
      next
        case False
        have "Suc (length (entries t) div 256) \<le> length (entries (st_sql s)) div 256"
          using prune_round_count [OF sql [unfolded q c] False] by (simp add: PRUNE_BATCH_def)
        then have "prune_backlog cr db envs (Suc n) ?s1 = prune_backlog cr db envs' (Suc n) ?s1"
          by (intro "1.IH" [OF micros sql [symmetric] q c [symmetric] refl False] "1.prems") simp_all
        then show ?thesis using now micros sql q c False by (simp add: prune_backlog.simps [of cr db _ n])
      qed
    qed
  qed
qed

theorem prune_rounds_bounded_witness:
  "prune_backlog demo_crates demo_db (\<lambda>_. ok_env) 0 demo_stored =
   prune_backlog demo_crates demo_db (\<lambda>i. if i = 0 then ok_env else ok_env\<lparr>ev_now := 5000\<rparr>) 0 demo_stored"
  by (rule prune_rounds_bounded) (simp add: demo_stored_def demo_store_def)

end
