(* ===== verification/Entry_Store.thy ===== *)
theory Entry_Store
  imports Db_Props
begin

section \<open>The contract between the database and the backend\<close>

text \<open>
  What the backend relies on when it writes entries: a failed write changes nothing, and a write that
  returns is applied exactly when it is newer than the entry it would replace, and changes no other
  entry. The locale states this of any operation that puts an entry with a timestamp, and derives
  what a sequence of puts leaves: per key the newest one, whatever the order. Interpreted on
  \<open>VmIoDb::upsert\<close> here and on the backend's own write in \<open>Back_Store\<close>.
\<close>

text \<open>A put: its environment, key, timestamp, expiry and data.\<close>

type_synonym ('e, 'd) put = "'e \<times> string \<times> int \<times> int option \<times> 'd"

text \<open>A sequence of puts, each of which returns.\<close>

fun puts :: "('e \<Rightarrow> string \<Rightarrow> int \<Rightarrow> int option \<Rightarrow> 'd \<Rightarrow> 's \<Rightarrow> 'a res \<times> 's) \<Rightarrow> ('e, 'd) put list \<Rightarrow> 's \<Rightarrow> 's option" where
  "puts up [] s = Some s"
| "puts up ((e, k, m, x, d) # ws) s =
     (case up e k m x d s of (Inr _, s') \<Rightarrow> puts up ws s' | (Inl _, _) \<Rightarrow> None)"

text \<open>The newer of what is there and a row; what is there on a tie.\<close>

definition newest :: "entry_row \<Rightarrow> entry_row option \<Rightarrow> entry_row option" where
  "newest r old = (case old of
      None \<Rightarrow> Some r
    | Some o' \<Rightarrow> if e_modified o' < e_modified r then Some r else Some o')"

lemma fold_newest_candidates:
  "fold newest rs old = Some r \<Longrightarrow>
     (r \<in> set rs \<or> old = Some r) \<and> (\<forall>q. q \<in> set rs \<or> old = Some q \<longrightarrow> e_modified q \<le> e_modified r)"
proof (induction rs arbitrary: old)
  case (Cons a rs)
  then have IH: "(r \<in> set rs \<or> newest a old = Some r) \<and>
      (\<forall>q. q \<in> set rs \<or> newest a old = Some q \<longrightarrow> e_modified q \<le> e_modified r)" by simp
  have old: "newest a old = Some a \<and> (\<forall>q. old = Some q \<longrightarrow> e_modified q < e_modified a) \<or>
      (\<exists>q. old = Some q \<and> newest a old = Some q \<and> e_modified a \<le> e_modified q)"
    by (cases old) (auto simp: newest_def)
  then show ?case using IH by fastforce
qed simp

lemma newest_ne [simp]: "newest r old \<noteq> None"
  by (auto simp: newest_def split: option.split)

lemma newest_ex [simp]: "\<exists>q. newest r old = Some q"
  using newest_ne [of r old] by blast

lemma fold_newest_ne: "fold newest rs old = None \<longleftrightarrow> rs = [] \<and> old = None"
proof (induction rs arbitrary: old)
  case (Cons r rs)
  then show ?case using newest_ne [of r old] by simp
qed simp

text \<open>
  Where the timestamps of the rows are different, the result depends on the set of rows only, whatever
  was there.
\<close>

lemma fold_newest_old: "\<forall>r \<in> set rs. e_modified r \<le> e_modified old \<Longrightarrow> fold newest rs (Some old) = Some old"
  by (induction rs) (auto simp: newest_def)

lemma fold_newest_in:
  assumes "fold newest rs old = Some r" "r \<notin> set rs"
  shows "old = Some r \<and> (\<forall>q \<in> set rs. e_modified q \<le> e_modified r)"
  using fold_newest_candidates [OF assms(1)] assms(2) by auto

lemma fold_newest_set:
  assumes "inj_on e_modified (set rs)" "set rs = set rs'"
  shows "fold newest rs old = fold newest rs' old"
proof (cases "\<exists>q. old = Some q \<and> (\<forall>r \<in> set rs. e_modified r \<le> e_modified q)")
  case True
  then obtain q where q: "old = Some q" "\<forall>r \<in> set rs. e_modified r \<le> e_modified q" by blast
  then show ?thesis using fold_newest_old [of rs q] fold_newest_old [of rs' q] assms(2) by simp
next
  case False
  show ?thesis
  proof (cases "fold newest rs old")
    case None
    then show ?thesis using assms(2) by (simp add: fold_newest_ne)
  next
    case (Some r)
    then have "fold newest rs' old \<noteq> None" using assms(2) fold_newest_ne [of rs' old] fold_newest_ne [of rs old] by auto
    then obtain r' where r': "fold newest rs' old = Some r'" by blast
    have mem: "r \<in> set rs" "r' \<in> set rs"
      using fold_newest_in [OF Some] fold_newest_in [OF r'] False assms(2) by auto
    have "e_modified r = e_modified r'"
      using fold_newest_candidates [OF Some] fold_newest_candidates [OF r'] mem assms(2) by (metis order_antisym)
    then show ?thesis using assms(1) mem Some r' by (metis inj_onD)
  qed
qed

subsection \<open>The locale\<close>

locale entry_store =
  fixes up :: "'e \<Rightarrow> string \<Rightarrow> int \<Rightarrow> int option \<Rightarrow> 'd \<Rightarrow> 's \<Rightarrow> 'a res \<times> 's"
    and entry_of :: "string \<Rightarrow> 's \<Rightarrow> entry_row option"
    and row :: "string \<Rightarrow> int \<Rightarrow> int option \<Rightarrow> 'd \<Rightarrow> entry_row"
    and ok :: "'s \<Rightarrow> bool"
  assumes row_stamp: "e_modified (row k m x d) = m"
    and up_ok: "up e k m x d s = (r, s') \<Longrightarrow> ok s \<Longrightarrow> ok s'"
    and up_Inl: "up e k m x d s = (Inl err, s') \<Longrightarrow> ok s \<Longrightarrow> entry_of k' s' = entry_of k' s"
    and up_Inr: "up e k m x d s = (Inr y, s') \<Longrightarrow> ok s \<Longrightarrow>
      entry_of k' s' = (if k' = k then newest (row k m x d) (entry_of k s) else entry_of k' s)"
begin

text \<open>Entries never get older, and a put that returned is in force or was beaten by a newer one.\<close>

lemma up_monotone:
  assumes "up e k m x d s = (r, s')" "ok s" "entry_of k' s = Some old"
  shows "\<exists>new. entry_of k' s' = Some new \<and> e_modified old \<le> e_modified new"
  using assms up_Inl [of e k m x d s _ s' k'] up_Inr [of e k m x d s _ s' k']
  by (cases r) (auto simp: newest_def)

lemma up_in_force:
  assumes "up e k m x d s = (Inr y, s')" "ok s"
  shows "\<exists>new. entry_of k s' = Some new \<and> m \<le> e_modified new \<and>
    (new \<noteq> row k m x d \<longrightarrow> entry_of k s = Some new)"
  using up_Inr [OF assms, of k] by (auto simp: newest_def row_stamp split: option.splits)

definition rows_for :: "string \<Rightarrow> ('e, 'd) put list \<Rightarrow> entry_row list" where
  "rows_for k ws = map (\<lambda>(e, k, m, x, d). row k m x d) (filter (\<lambda>(e, k', m, x, d). k' = k) ws)"

lemma puts_entry:
  "puts up ws s = Some s' \<Longrightarrow> ok s \<Longrightarrow> ok s' \<and> entry_of k s' = fold newest (rows_for k ws) (entry_of k s)"
proof (induction ws arbitrary: s)
  case Nil
  then show ?case by (simp add: rows_for_def)
next
  case (Cons w ws)
  obtain e k' m x d where w: "w = (e, k', m, x, d)" by (metis surj_pair)
  then obtain y s1 where s1: "up e k' m x d s = (Inr y, s1)" "puts up ws s1 = Some s'"
    using Cons.prems(1) by (auto split: prod.splits sum.splits)
  then have ok: "ok s1" using up_ok Cons.prems(2) by blast
  from Cons.IH [OF s1(2) this] up_Inr [OF s1(1) Cons.prems(2), of k] show ?case
    by (auto simp: w rows_for_def)
qed

lemma rows_for_set: "set (rows_for k ws) = (\<lambda>(k, m, x, d). row k m x d) ` {w \<in> snd ` set ws. fst w = k}"
  by (force simp: rows_for_def)

text \<open>
  Two stores that had the same entry and were given the same puts, in any order and number, have the same
  entry, where no two different puts of a key have one timestamp.
\<close>

lemma puts_converge:
  assumes "puts up ws1 s1 = Some t1" "puts up ws2 s2 = Some t2" "ok s1" "ok s2"
    and "snd ` set ws1 = snd ` set ws2" "inj_on (\<lambda>(k, m, x, d). (k, m)) (snd ` set ws1)"
    and "entry_of k s1 = entry_of k s2"
  shows "entry_of k t1 = entry_of k t2"
proof -
  have "inj_on e_modified (set (rows_for k ws1))"
  proof (rule inj_onI)
    fix p q
    assume "p \<in> set (rows_for k ws1)" "q \<in> set (rows_for k ws1)" and eq: "e_modified p = e_modified q"
    have in_rows: "\<exists>m x d. (k, m, x, d) \<in> snd ` set ws1 \<and> p = row k m x d" if "p \<in> set (rows_for k ws1)" for p
    proof -
      from that obtain w where w: "w \<in> snd ` set ws1" "fst w = k" "p = (\<lambda>(k, m, x, d). row k m x d) w"
        unfolding rows_for_set by blast
      then show ?thesis by (cases w) auto
    qed
    obtain m x d where p: "(k, m, x, d) \<in> snd ` set ws1" "p = row k m x d"
      using in_rows [OF \<open>p \<in> set (rows_for k ws1)\<close>] by blast
    obtain m' x' d' where q: "(k, m', x', d') \<in> snd ` set ws1" "q = row k m' x' d'"
      using in_rows [OF \<open>q \<in> set (rows_for k ws1)\<close>] by blast
    have "m = m'" using eq p(2) q(2) by (simp add: row_stamp)
    then have "(k, m, x, d) = (k, m', x', d')" using inj_onD [OF assms(6) _ p(1) q(1)] by simp
    then show "p = q" using p(2) q(2) by simp
  qed
  moreover have "set (rows_for k ws1) = set (rows_for k ws2)"
    by (simp only: rows_for_set assms(5))
  ultimately show ?thesis
    using puts_entry [OF assms(1,3), of k] puts_entry [OF assms(2,4), of k] assms(7)
      fold_newest_set [of "rows_for k ws1" "rows_for k ws2"] by simp
qed

text \<open>The condition is needed: of two different puts with one timestamp the first one stays.\<close>

lemma first_of_tie:
  assumes "puts up [(e, k, m, x, d), (e', k, m, x', d')] s = Some t" "ok s" "entry_of k s = None"
  shows "entry_of k t = Some (row k m x d)"
  using puts_entry [OF assms(1,2), of k] assms(3) by (simp add: rows_for_def newest_def row_stamp)

end

subsection \<open>The database keeps the contract\<close>

lemma q_entry_newest:
  assumes "tables_wf t" "exec_upsert row t = Inr (n, t')"
  shows "q_entry k t' = (if k = e_pk row then newest row (q_entry k t) else q_entry k t)"
  using q_entry_upsert [OF assms(2), of k] exec_upsert_count [OF assms(2)]
  by (auto simp: newest_def split: option.splits)

interpretation db_entries: entry_store
  "\<lambda>ev k m x d s. db_upsert ev cls k m x d s" "\<lambda>k s. q_entry (cls, k) (st_sql s)" "row_of cls"
  "\<lambda>s. tables_wf (st_sql s)" for cls
proof unfold_locales
  fix ev k m x d s r s' err y k'
  show "e_modified (row_of cls k m x d) = m" by simp
  show "tables_wf (st_sql s')" if "db_upsert ev cls k m x d s = (r, s')" "tables_wf (st_sql s)"
    using that upsert_error [of ev cls k m x d s _ s'] upsert_limits [of ev cls k m x d s _ s']
    by (cases r) (auto simp: sql_upsert_Inr intro: tables_wf_upsert)
  show "q_entry (cls, k') (st_sql s') = q_entry (cls, k') (st_sql s)"
    if "db_upsert ev cls k m x d s = (Inl err, s')"
    using upsert_error [OF that] by simp
  show "q_entry (cls, k') (st_sql s') =
      (if k' = k then newest (row_of cls k m x d) (q_entry (cls, k) (st_sql s)) else q_entry (cls, k') (st_sql s))"
    if "db_upsert ev cls k m x d s = (Inr y, s')" "tables_wf (st_sql s)"
    using upsert_limits [OF that(1)] q_entry_newest [OF that(2), of "row_of cls k m x d" _ "st_sql s'"]
    by (auto simp: sql_upsert_Inr row_of_def e_pk_def)
qed

end
