(* ===== verification/Micros.thy ===== *)
theory Micros
  imports Rust_Std
begin

section \<open>The shared timestamp counter\<close>

text \<open>
  \<open>unix_micros\<close> and \<open>next_micros\<close> of \<open>rs/v-m-io-back/src/lib.rs\<close>: once as the function it is for a
  single caller, and once as a machine in which any number of callers load, compute and
  compare-and-exchange in any order, with \<open>fetch_max\<close> steps by explicit timestamps between them.
\<close>

text \<open>\<open>unix_micros\<close>: 0 before the epoch.\<close>

definition unix_micros :: "system_time \<Rightarrow> int" where
  "unix_micros t = (case micros_since_epoch t of Some m \<Rightarrow> m | None \<Rightarrow> 0)"

lemma is_i64_unix_micros [simp]: "is_i64 (unix_micros t)"
  by (simp add: unix_micros_def micros_since_epoch_def) (simp add: i64_defs)

text \<open>\<open>if prev >= now { prev + 1 } else { now }\<close>, in \<open>i64\<close>.\<close>

definition bump :: "int \<Rightarrow> int \<Rightarrow> int" where
  "bump now prev = (if prev \<ge> now then wrap_i64 (prev + 1) else now)"

text \<open>One caller alone: the first compare-and-exchange succeeds.\<close>

definition next_micros :: "system_time \<Rightarrow> int \<Rightarrow> int \<times> int" where
  "next_micros t counter = (let next = bump (unix_micros t) counter in (next, next))"

text \<open>\<open>counter.fetch_max(m)\<close>.\<close>

definition fetch_max :: "int \<Rightarrow> int \<Rightarrow> int" where
  "fetch_max m counter = max counter m"

lemma bump_greater: "is_i64 prev \<Longrightarrow> prev < i64_max \<Longrightarrow> prev < bump now prev"
  by (simp add: bump_def i64_defs)

lemma bump_ge_now: "is_i64 prev \<Longrightarrow> prev < i64_max \<Longrightarrow> now \<le> bump now prev"
  by (simp add: bump_def i64_defs)

lemma is_i64_bump [simp]: "is_i64 now \<Longrightarrow> is_i64 (bump now prev)"
  by (simp add: bump_def)

lemma bump_max: "is_i64 now \<Longrightarrow> bump now i64_max = i64_min"
  by (simp add: bump_def i64_defs wrap_i64_def)

subsection \<open>Concurrent callers\<close>

text \<open>
  A caller has read the clock; then it loads, and after that compares and exchanges or loads
  again. \<open>handed\<close> lists the timestamps handed out so far, the latest first; \<open>peak\<close> is the largest
  value any step could have put in the counter without an overflow.
\<close>

datatype caller = Ready int | Loaded int int | Returned int

record counter_sys =
  counter :: int
  callers :: "caller list"
  handed :: "int list"

inductive counter_step :: "counter_sys \<Rightarrow> counter_sys \<Rightarrow> bool" where
  call: "counter_step s (s\<lparr>callers := callers s @ [Ready (unix_micros t)]\<rparr>)"
| load: "i < length (callers s) \<Longrightarrow> callers s ! i = Ready now \<Longrightarrow>
    counter_step s (s\<lparr>callers := (callers s)[i := Loaded now (counter s)]\<rparr>)"
| exchange: "i < length (callers s) \<Longrightarrow> callers s ! i = Loaded now prev \<Longrightarrow> counter s = prev \<Longrightarrow>
    counter_step s (s\<lparr>counter := bump now prev, callers := (callers s)[i := Returned (bump now prev)],
      handed := bump now prev # handed s\<rparr>)"
| retry: "i < length (callers s) \<Longrightarrow> callers s ! i = Loaded now prev \<Longrightarrow> counter s \<noteq> prev \<Longrightarrow>
    counter_step s (s\<lparr>callers := (callers s)[i := Ready now]\<rparr>)"
| explicit: "is_i64 m \<Longrightarrow> counter_step s (s\<lparr>counter := fetch_max m (counter s)\<rparr>)"

inductive_cases counter_stepE: "counter_step s t"

definition counter_init :: "counter_sys \<Rightarrow> bool" where
  "counter_init s \<longleftrightarrow> s = \<lparr>counter = 0, callers = [], handed = []\<rparr>"

text \<open>
  As long as the counter has not reached the largest \<open>i64\<close>: the timestamps handed out are strictly
  increasing and the counter is at least as large as the last of them.
\<close>

fun caller_ok :: "int list \<Rightarrow> caller \<Rightarrow> bool" where
  "caller_ok hs (Ready now) = is_i64 now"
| "caller_ok hs (Loaded now prev) = (is_i64 now \<and> is_i64 prev)"
| "caller_ok hs (Returned x) = (x \<in> set hs)"

lemma caller_ok_more: "caller_ok hs c \<Longrightarrow> caller_ok (x # hs) c"
  by (cases c) auto

definition counter_inv :: "counter_sys \<Rightarrow> bool" where
  "counter_inv s \<longleftrightarrow> is_i64 (counter s) \<and> sorted_wrt (>) (handed s) \<and> (\<forall>x \<in> set (handed s). x \<le> counter s) \<and>
     (\<forall>c \<in> set (callers s). caller_ok (handed s) c)"

text \<open>The machine restricted to steps from a counter below the top.\<close>

definition counter_step_ok :: "counter_sys \<Rightarrow> counter_sys \<Rightarrow> bool" where
  "counter_step_ok s t \<longleftrightarrow> counter s < i64_max \<and> counter_step s t"

lemma callers_update:
  assumes "\<forall>c \<in> set cs. P c" "P x"
  shows "\<forall>c \<in> set (cs[i := x]). P c"
  using assms set_update_subset_insert [of cs i x] by blast

lemma counter_inv_step:
  assumes "counter_step s t" "counter s < i64_max" "counter_inv s"
  shows "counter_inv t"
  using assms
proof (cases rule: counter_step.cases)
  case (call t')
  with assms(3) show ?thesis by (auto simp: counter_inv_def)
next
  case (load i now)
  then have "Ready now \<in> set (callers s)" by (metis nth_mem)
  then have "is_i64 now" using assms(3) by (force simp: counter_inv_def)
  then have "\<forall>c \<in> set ((callers s)[i := Loaded now (counter s)]). caller_ok (handed s) c"
    using assms(3) by (intro callers_update) (simp_all add: counter_inv_def)
  with load(1) assms(3) show ?thesis by (simp add: counter_inv_def)
next
  case (exchange i now prev)
  then have "Loaded now prev \<in> set (callers s)" by (metis nth_mem)
  then have i64: "is_i64 now" "is_i64 prev" using assms(3) by (force simp: counter_inv_def)+
  have gt: "prev < bump now prev" using i64 exchange(4) assms(2) by (auto intro!: bump_greater)
  have "\<forall>c \<in> set (callers s). caller_ok (bump now prev # handed s) c"
    using assms(3) caller_ok_more by (auto simp: counter_inv_def)
  then have "\<forall>c \<in> set ((callers s)[i := Returned (bump now prev)]). caller_ok (bump now prev # handed s) c"
    by (rule callers_update) simp
  moreover have "x < bump now prev" if "x \<in> set (handed s)" for x
    using that assms(3) gt exchange(4) by (force simp: counter_inv_def)
  ultimately show ?thesis using exchange(1) assms(3) i64(1) by (auto simp: counter_inv_def less_imp_le)
next
  case (retry i now prev)
  then have "Loaded now prev \<in> set (callers s)" by (metis nth_mem)
  then have "is_i64 now" using assms(3) by (force simp: counter_inv_def)
  then have "\<forall>c \<in> set ((callers s)[i := Ready now]). caller_ok (handed s) c"
    using assms(3) by (intro callers_update) (simp_all add: counter_inv_def)
  with retry(1) assms(3) show ?thesis by (simp add: counter_inv_def)
next
  case (explicit m)
  have "is_i64 (max (counter s) m)" using explicit assms(3) by (simp add: counter_inv_def max_def)
  then show ?thesis using explicit assms(3) unfolding counter_inv_def fetch_max_def by (auto simp: le_max_iff_disj)
qed

interpretation counter: inductive_invariant counter_init counter_step_ok counter_inv
proof unfold_locales
  show "counter_init s \<Longrightarrow> counter_inv s" for s
    by (simp add: counter_init_def counter_inv_def i64_defs)
  show "counter_step_ok s t \<Longrightarrow> counter_inv s \<Longrightarrow> counter_inv t" for s t
    unfolding counter_step_ok_def using counter_inv_step by blast
qed

subsection \<open>Properties\<close>

text \<open>
  C25. However many callers race, \<open>next_micros\<close> hands out strictly increasing timestamps, so no two
  writes of a server get the same one and none is below an explicit timestamp applied before it,
  as long as the counter stays below the largest \<open>i64\<close>.
\<close>

theorem handed_out_increasing:
  assumes "reachable counter_init counter_step_ok s"
  shows "sorted_wrt (>) (handed s) \<and> distinct (handed s) \<and> (\<forall>x \<in> set (handed s). x \<le> counter s) \<and>
    (\<forall>x. Returned x \<in> set (callers s) \<longrightarrow> x \<in> set (handed s))"
proof -
  have inv: "counter_inv s" by (rule counter.inv_reachable [OF assms])
  then have sorted: "sorted_wrt (>) (handed s)" by (simp add: counter_inv_def)
  then have "distinct (handed s)"
    by (metis distinct_rev sorted_wrt_rev strict_sorted_iff rev_rev_ident)
  moreover have "x \<in> set (handed s)" if "Returned x \<in> set (callers s)" for x
    using inv that by (force simp: counter_inv_def)
  ultimately show ?thesis using inv sorted by (simp add: counter_inv_def)
qed

theorem handed_out_increasing_witness:
  "\<exists>s. reachable counter_init counter_step_ok s \<and> handed s = [5] \<and> distinct (handed s)"
proof -
  let ?s0 = "\<lparr>counter = 0, callers = [], handed = []\<rparr>"
  have five: "unix_micros 5000 = 5" by (simp add: unix_micros_def micros_since_epoch_def i64_defs)
  have s1: "counter_step ?s0 \<lparr>counter = 0, callers = [Ready 5], handed = []\<rparr>"
    using counter_step.call [of ?s0 5000] five by simp
  have s2: "counter_step \<lparr>counter = 0, callers = [Ready 5], handed = []\<rparr> \<lparr>counter = 0, callers = [Loaded 5 0], handed = []\<rparr>"
    using counter_step.load [of 0 "\<lparr>counter = 0, callers = [Ready 5], handed = []\<rparr>" 5] by simp
  have s3: "counter_step \<lparr>counter = 0, callers = [Loaded 5 0], handed = []\<rparr> \<lparr>counter = 5, callers = [Returned 5], handed = [5]\<rparr>"
    using counter_step.exchange [of 0 "\<lparr>counter = 0, callers = [Loaded 5 0], handed = []\<rparr>" 5 0] by (simp add: bump_def)
  have "reachable counter_init counter_step_ok \<lparr>counter = 5, callers = [Returned 5], handed = [5]\<rparr>"
    by (rule reach_step, rule reach_step, rule reach_step, rule reach_init)
      (use s1 s2 s3 in \<open>auto simp: counter_init_def counter_step_ok_def i64_max_def\<close>)
  from handed_out_increasing [OF this] this show ?thesis by force
qed

text \<open>
  C35. The counter has a poison value: after an explicit timestamp of \<open>i64::MAX\<close>, which any authorized
  \<open>cfg-put\<close> may carry, the next server timestamp is the smallest \<open>i64\<close> (the addition overflows), so it
  is below every timestamp handed out before, whatever the clock says.
\<close>

theorem explicit_max_overflows:
  assumes "is_i64 c"
  shows "next_micros t (fetch_max i64_max c) = (i64_min, i64_min)"
proof -
  have "fetch_max i64_max c = i64_max" using assms by (simp add: fetch_max_def is_i64_def max_def)
  then show ?thesis by (simp add: next_micros_def Let_def bump_max)
qed

theorem explicit_max_overflows_witness:
  "next_micros 1700000000000000000 (fetch_max i64_max 1700000000000000) = (i64_min, i64_min)"
  by (rule explicit_max_overflows) (simp add: i64_defs)

end
