(* ===== verification/Net.thy ===== *)
theory Net
  imports Prelude
begin

section \<open>Addresses to bind\<close>

text \<open>
  \<open>is_link_local\<close>, \<open>expand_bind_addrs\<close> and \<open>resolve_bind_addrs\<close> of \<open>rs/v-m-io-chan/src/lib.rs\<close>,
  with \<open>std::net\<close>'s addresses as their octets. The list of local interfaces comes from the crate
  \<open>network_interface\<close>: it is an argument.
\<close>

datatype ip_addr = V4 u8 u8 u8 u8 | V6 "u8 list"

record socket_addr =
  sa_ip :: ip_addr
  sa_port :: "16 word"

record iface =
  if_internal :: bool
  if_addrs :: "ip_addr list"

subsection \<open>std::net\<close>

fun is_ipv4 :: "ip_addr \<Rightarrow> bool" where
  "is_ipv4 (V4 a b c d) = True"
| "is_ipv4 (V6 os) = False"

fun is_unspecified :: "ip_addr \<Rightarrow> bool" where
  "is_unspecified (V4 a b c d) = (a = 0 \<and> b = 0 \<and> c = 0 \<and> d = 0)"
| "is_unspecified (V6 os) = (os = replicate 16 0)"

fun is_loopback :: "ip_addr \<Rightarrow> bool" where
  "is_loopback (V4 a b c d) = (a = 127)"
| "is_loopback (V6 os) = (os = replicate 15 0 @ [1])"

subsection \<open>The code\<close>

fun is_link_local :: "ip_addr \<Rightarrow> bool" where
  "is_link_local (V4 a b c d) = (a = 169 \<and> b = 254)"
| "is_link_local (V6 os) = (os ! 0 = 0xfe \<and> (os ! 1) AND 0xc0 = 0x80)"

text \<open>The loops of \<open>expand_bind_addrs\<close>, with \<open>out\<close> and \<open>found\<close> as the state.\<close>

fun expand_iface_addrs :: "bool \<Rightarrow> 16 word \<Rightarrow> ip_addr list \<Rightarrow> socket_addr list \<times> bool \<Rightarrow> socket_addr list \<times> bool" where
  "expand_iface_addrs want_v4 port [] st = st"
| "expand_iface_addrs want_v4 port (ip # ips) (out, found) =
     (if is_ipv4 ip \<noteq> want_v4 \<or> is_loopback ip \<or> is_link_local ip
      then expand_iface_addrs want_v4 port ips (out, found)
      else expand_iface_addrs want_v4 port ips (out @ [\<lparr>sa_ip = ip, sa_port = port\<rparr>], True))"

fun expand_ifaces :: "bool \<Rightarrow> 16 word \<Rightarrow> iface list \<Rightarrow> socket_addr list \<times> bool \<Rightarrow> socket_addr list \<times> bool" where
  "expand_ifaces want_v4 port [] st = st"
| "expand_ifaces want_v4 port (i # is) st =
     (if if_internal i then expand_ifaces want_v4 port is st
      else expand_ifaces want_v4 port is (expand_iface_addrs want_v4 port (if_addrs i) st))"

fun expand_loop :: "iface list \<Rightarrow> socket_addr list \<Rightarrow> socket_addr list \<Rightarrow> socket_addr list" where
  "expand_loop ifaces [] out = out"
| "expand_loop ifaces (addr # bind) out =
     (if \<not> is_unspecified (sa_ip addr) then expand_loop ifaces bind (out @ [addr])
      else (let (out1, found) = expand_ifaces (is_ipv4 (sa_ip addr)) (sa_port addr) ifaces (out, False) in
        expand_loop ifaces bind (if found then out1 else out1 @ [addr])))"

definition expand_bind_addrs :: "socket_addr list \<Rightarrow> iface list \<Rightarrow> socket_addr list" where
  "expand_bind_addrs bind ifaces = expand_loop ifaces bind []"

definition resolve_bind_addrs :: "(iface list) res \<Rightarrow> socket_addr list \<Rightarrow> (socket_addr list) res" where
  "resolve_bind_addrs show_ifaces bind =
     (if \<not> list_ex (\<lambda>addr. is_unspecified (sa_ip addr)) bind then Inr bind
      else and_then show_ifaces (\<lambda>ifaces. Inr (expand_bind_addrs bind ifaces)))"

subsection \<open>Reference\<close>

text \<open>The addresses a wildcard stands for, as a list comprehension.\<close>

definition covers :: "socket_addr \<Rightarrow> ip_addr \<Rightarrow> bool" where
  "covers addr ip \<longleftrightarrow> is_ipv4 ip = is_ipv4 (sa_ip addr) \<and> \<not> is_loopback ip \<and> \<not> is_link_local ip"

definition covered :: "iface list \<Rightarrow> socket_addr \<Rightarrow> socket_addr list" where
  "covered ifaces addr = map (\<lambda>ip. \<lparr>sa_ip = ip, sa_port = sa_port addr\<rparr>)
     (filter (covers addr) (concat (map if_addrs (filter (\<lambda>i. \<not> if_internal i) ifaces))))"

definition expand_ref :: "iface list \<Rightarrow> socket_addr \<Rightarrow> socket_addr list" where
  "expand_ref ifaces addr =
     (if is_unspecified (sa_ip addr) \<and> covered ifaces addr \<noteq> [] then covered ifaces addr else [addr])"

lemma expand_iface_addrs_eq:
  "expand_iface_addrs (is_ipv4 (sa_ip addr)) port ips (out, found) =
     (let new = map (\<lambda>ip. \<lparr>sa_ip = ip, sa_port = port\<rparr>) (filter (covers addr) ips)
      in (out @ new, found \<or> new \<noteq> []))"
  by (induction ips arbitrary: out found) (auto simp: covers_def Let_def)

lemma expand_ifaces_eq:
  "expand_ifaces (is_ipv4 (sa_ip addr)) (sa_port addr) ifaces (out, found) =
     (out @ covered ifaces addr, found \<or> covered ifaces addr \<noteq> [])"
  by (induction ifaces arbitrary: out found) (auto simp: covered_def expand_iface_addrs_eq Let_def)

lemma expand_loop_eq: "expand_loop ifaces bind out = out @ concat (map (expand_ref ifaces) bind)"
  by (induction bind arbitrary: out) (auto simp: expand_ref_def expand_ifaces_eq)

subsection \<open>Properties\<close>

text \<open>
  Wildcards are expanded and nothing else changes: the result is, in order, each concrete
  address itself, and for each wildcard the addresses of the non-internal interfaces of its family
  that are neither loopback nor link-local, with its port, or the wildcard itself when there is
  none. So the list is never shorter than the configured one, and a wildcard is left only where no
  routable address exists.
\<close>

lemma expand_bind_addrs_correct:
  "expand_bind_addrs bind ifaces = concat (map (expand_ref ifaces) bind) \<and>
   length bind \<le> length (expand_bind_addrs bind ifaces) \<and>
   (\<forall>a \<in> set (expand_bind_addrs bind ifaces). is_unspecified (sa_ip a) \<longrightarrow>
      a \<in> set bind \<or> (\<exists>i \<in> set ifaces. sa_ip a \<in> set (if_addrs i)))"
proof (intro conjI)
  show eq: "expand_bind_addrs bind ifaces = concat (map (expand_ref ifaces) bind)"
    by (simp add: expand_bind_addrs_def expand_loop_eq)
  have "1 \<le> length (expand_ref ifaces a)" for a
    by (simp add: expand_ref_def Suc_le_eq)
  then have "length bind \<le> length (concat (map (expand_ref ifaces) bind))"
    by (induction bind) (auto simp: add_mono intro: order_trans [OF _ add_mono [of 1]])
  then show "length bind \<le> length (expand_bind_addrs bind ifaces)" by (simp add: eq)
  show "\<forall>a \<in> set (expand_bind_addrs bind ifaces). is_unspecified (sa_ip a) \<longrightarrow>
      a \<in> set bind \<or> (\<exists>i \<in> set ifaces. sa_ip a \<in> set (if_addrs i))"
    by (auto simp: eq expand_ref_def covered_def split: if_splits)
qed

lemma expand_bind_addrs_correct_witness:
  "expand_bind_addrs [\<lparr>sa_ip = V4 0 0 0 0, sa_port = 22002\<rparr>]
     [\<lparr>if_internal = False, if_addrs = [V4 10 0 0 7, V4 169 254 1 1, V6 (replicate 16 1)]\<rparr>]
   = [\<lparr>sa_ip = V4 10 0 0 7, sa_port = 22002\<rparr>]"
  using expand_bind_addrs_correct [of "[\<lparr>sa_ip = V4 0 0 0 0, sa_port = 22002\<rparr>]"
      "[\<lparr>if_internal = False, if_addrs = [V4 10 0 0 7, V4 169 254 1 1, V6 (replicate 16 1)]\<rparr>]"]
  by (simp add: expand_ref_def covered_def covers_def)

lemma split_base:
  fixes a b k m n :: nat
  assumes "n < k" "b < k"
  shows "k * m + n = k * a + b \<longleftrightarrow> m = a \<and> n = b"
proof
  assume e: "k * m + n = k * a + b"
  have "m = (k * m + n) div k" "a = (k * a + b) div k" using assms by simp_all
  then have "m = a" using e by metis
  then show "m = a \<and> n = b" using e by simp
qed simp

text \<open>
  The masks select exactly the link-local ranges: \<open>169.254.0.0/16\<close> for IPv4 and \<open>fe80::/10\<close> for
  IPv6, read off the address as a number.
\<close>

lemma link_local_ranges:
  assumes "length os = 16"
  shows "(is_link_local (V4 a b c d) \<longleftrightarrow> 256 * unat a + unat b = 0xa9fe) \<and>
    (is_link_local (V6 os) \<longleftrightarrow> (256 * unat (os ! 0) + unat (os ! 1)) div 64 = 0xfe80 div 64)"
proof
  have bound: "unat x < 256" for x :: u8 using unsigned_less [of x, where 'a = nat] by simp
  have eq: "x = y \<longleftrightarrow> unat x = unat y" for x y :: u8 by (simp add: word_unat_eq_iff)
  show "is_link_local (V4 a b c d) \<longleftrightarrow> 256 * unat a + unat b = 0xa9fe"
    using split_base [OF bound [of b], of 254 "unat a" 169] by (simp add: eq)
  have mask: "y AND 0xc0 = 0x80 \<longleftrightarrow> unat y div 64 = 2" for y :: u8
  proof -
    have "y AND 0xc0 = push_bit 6 (drop_bit 6 y)"
    proof (rule bit_word_eqI)
      fix n assume "n < LENGTH(8)"
      then have "n = 0 \<or> n = 1 \<or> n = 2 \<or> n = 3 \<or> n = 4 \<or> n = 5 \<or> n = 6 \<or> n = 7" by simp linarith
      then show "bit (y AND 0xc0) n = bit (push_bit 6 (drop_bit 6 y)) n"
        by (elim disjE) (simp_all add: bit_and_iff bit_push_bit_iff bit_drop_bit_eq)
    qed
    moreover have "unat (drop_bit 6 y) = unat y div 64"
      unfolding unat_drop_bit_eq by (simp add: drop_bit_eq_div)
    moreover have "unat (push_bit 6 z) = 64 * unat z mod 256" for z :: u8
      by (simp add: push_bit_eq_mult unat_word_ariths(2) mult.commute)
    ultimately have "unat (y AND 0xc0) = 64 * (unat y div 64) mod 256" by simp
    then show ?thesis using bound [of y] by (simp add: eq)
  qed
  have div64: "(256 * m + n) div 64 = 4 * m + n div 64" for m n :: nat
    using div_mult_self2 [of 64 n "4 * m"] by simp
  have "unat (os ! 1) div 64 < 4" using bound [of "os ! 1"] by (simp add: less_mult_imp_div_less)
  then have "4 * unat (os ! 0) + unat (os ! 1) div 64 = 1018 \<longleftrightarrow>
      unat (os ! 0) = 254 \<and> unat (os ! 1) div 64 = 2"
    using split_base [of "unat (os ! 1) div 64" 4 2 "unat (os ! 0)" 254] by simp
  then show "is_link_local (V6 os) \<longleftrightarrow> (256 * unat (os ! 0) + unat (os ! 1)) div 64 = 0xfe80 div 64"
    by (simp add: div64 mask eq [of "os ! 0"])
qed

lemma link_local_ranges_witness:
  "is_link_local (V6 (0xfe # 0xbf # replicate 14 0)) \<and> \<not> is_link_local (V6 (0xfe # 0xc0 # replicate 14 0))"
  using link_local_ranges [of "0xfe # 0xbf # replicate 14 0"] link_local_ranges [of "0xfe # 0xc0 # replicate 14 0"]
  by simp

end
