(* ===== verification/Http.thy ===== *)
theory Http
  imports Rust_Std
begin

section \<open>What the channel uses of the http crates\<close>

text \<open>
  Requests and responses as the code sees them. The parts that are crates' own (\<open>hyper\<close>,
  \<open>http-body-util\<close>) are the fields of \<open>http_lib\<close>: the reading of a header value as text, the
  canonical reason of a status, and collecting a body under a limit. \<open>http_ok\<close> is the documented
  contract of the last: what is collected is not longer than the limit.
\<close>

type_synonym status = nat

text \<open>A header value is its bytes; a body is whatever the client sends, of type \<open>'b\<close>.\<close>

record 'b http_request =
  rq_path :: string
  rq_authorization :: "bytes option"
  rq_content_length :: "bytes option"
  rq_body :: 'b

record http_response =
  rs_status :: status
  rs_content_type :: "string option"
  rs_retry_after :: "string option"
  rs_body :: bytes

datatype body_result = Collected bytes | LengthLimit | ReadError

record 'b http_lib =
  hl_to_str :: "bytes \<Rightarrow> string option"
    \<comment> \<open>\<open>HeaderValue::to_str\<close>\<close>
  hl_reason :: "status \<Rightarrow> string option"
    \<comment> \<open>\<open>StatusCode::canonical_reason\<close>\<close>
  hl_collect :: "nat \<Rightarrow> 'b \<Rightarrow> body_result"
    \<comment> \<open>\<open>Limited::new(body, limit).collect()\<close>\<close>

definition http_ok :: "'b http_lib \<Rightarrow> bool" where
  "http_ok hl \<longleftrightarrow> (\<forall>n b d. hl_collect hl n b = Collected d \<longrightarrow> length d \<le> n)"

definition OK :: status where "OK = 200"
definition BAD_REQUEST :: status where "BAD_REQUEST = 400"
definition UNAUTHORIZED :: status where "UNAUTHORIZED = 401"
definition NOT_FOUND :: status where "NOT_FOUND = 404"
definition PAYLOAD_TOO_LARGE :: status where "PAYLOAD_TOO_LARGE = 413"
definition INTERNAL_SERVER_ERROR :: status where "INTERNAL_SERVER_ERROR = 500"
definition SERVICE_UNAVAILABLE :: status where "SERVICE_UNAVAILABLE = 503"

lemmas status_defs = OK_def BAD_REQUEST_def UNAUTHORIZED_def NOT_FOUND_def PAYLOAD_TOO_LARGE_def
  INTERNAL_SERVER_ERROR_def SERVICE_UNAVAILABLE_def

text \<open>\<open>StatusCode::is_success\<close>.\<close>

definition is_success :: "status \<Rightarrow> bool" where
  "is_success c \<longleftrightarrow> 200 \<le> c \<and> c < 300"

text \<open>\<open>err.to_string()\<close> of an \<open>io::Error\<close> that was made with a message.\<close>

definition err_to_string :: "io_error \<Rightarrow> string" where
  "err_to_string e = msg e"

text \<open>Decimal digits, for \<open>format!\<close> of a number.\<close>

fun dec_digits :: "nat \<Rightarrow> string" where
  "dec_digits n = (if n < 10 then [char_of (48 + n)] else dec_digits (n div 10) @ [char_of (48 + n mod 10)])"

declare dec_digits.simps [simp del]

subsection \<open>An instance for witnesses\<close>

text \<open>Bodies are byte lists; every header is text.\<close>

definition demo_http :: "bytes http_lib" where
  "demo_http = \<lparr>hl_to_str = (\<lambda>b. Some (of_utf8_bytes b)), hl_reason = (\<lambda>c. None),
     hl_collect = (\<lambda>n b. if length b \<le> n then Collected b else LengthLimit)\<rparr>"

lemma http_ok_demo [simp]: "http_ok demo_http"
  by (simp add: http_ok_def demo_http_def)

end
