(* ===== verification/Addr_Text.thy ===== *)
theory Addr_Text
  imports Net Http
begin

section \<open>Socket addresses as text\<close>

text \<open>
  \<open>Display\<close> of std's \<open>SocketAddr\<close>, which the channel client puts in its base url and the backend in
  the keys of its advertisements: dotted decimals for IPv4; for IPv6 the eight groups in lower case
  hexadecimal, the longest run of at least two zero groups (the first of them) written \<open>::\<close>, and an
  IPv4-mapped address as \<open>::ffff:a.b.c.d\<close>. Scope ids are not modelled.
\<close>

subsection \<open>Numbers\<close>

definition hex_char :: "nat \<Rightarrow> char" where
  "hex_char n = ''0123456789abcdef'' ! n"

fun hex_digits :: "nat \<Rightarrow> string" where
  "hex_digits n = (if n < 16 then [hex_char n] else hex_digits (n div 16) @ [hex_char (n mod 16)])"

declare hex_digits.simps [simp del]

subsection \<open>IPv4 and IPv6\<close>

definition v4_text :: "u8 \<Rightarrow> u8 \<Rightarrow> u8 \<Rightarrow> u8 \<Rightarrow> string" where
  "v4_text a b c d = dec_digits (unat a) @ ''.'' @ dec_digits (unat b) @ ''.'' @
     dec_digits (unat c) @ ''.'' @ dec_digits (unat d)"

fun groups :: "u8 list \<Rightarrow> nat list" where
  "groups (a # b # os) = (unat a * 256 + unat b) # groups os"
| "groups _ = []"

text \<open>The scan for the longest run of zeros: the best run so far and the current one, as start and length.\<close>

fun zero_run :: "nat \<Rightarrow> nat \<times> nat \<Rightarrow> nat \<times> nat \<Rightarrow> nat list \<Rightarrow> nat \<times> nat" where
  "zero_run i longest current [] = longest"
| "zero_run i longest current (g # gs) =
     (if g = 0 then
        (let cur = ((if snd current = 0 then i else fst current), Suc (snd current))
         in zero_run (Suc i) (if snd longest < snd cur then cur else longest) cur gs)
      else zero_run (Suc i) longest (0, 0) gs)"

fun groups_text :: "nat list \<Rightarrow> string" where
  "groups_text [] = []"
| "groups_text [g] = hex_digits g"
| "groups_text (g # gs) = hex_digits g @ '':'' @ groups_text gs"

definition v6_text :: "u8 list \<Rightarrow> string" where
  "v6_text os =
     (if take 12 os = replicate 10 0 @ [0xff, 0xff] then
        ''::ffff:'' @ v4_text (os ! 12) (os ! 13) (os ! 14) (os ! 15)
      else (let gs = groups os; (start, len) = zero_run 0 (0, 0) (0, 0) gs in
        if 1 < len then groups_text (take start gs) @ ''::'' @ groups_text (drop (start + len) gs)
        else groups_text gs))"

fun ip_text :: "ip_addr \<Rightarrow> string" where
  "ip_text (V4 a b c d) = v4_text a b c d"
| "ip_text (V6 os) = ''['' @ v6_text os @ '']''"

definition addr_text :: "socket_addr \<Rightarrow> string" where
  "addr_text addr = ip_text (sa_ip addr) @ '':'' @ dec_digits (unat (sa_port addr))"

subsection \<open>Lemmas\<close>

lemma dec_digits_ne [simp]: "dec_digits n \<noteq> []"
  by (subst dec_digits.simps) simp

definition is_digit :: "char \<Rightarrow> bool" where
  "is_digit c \<longleftrightarrow> 48 \<le> (of_char c :: nat) \<and> (of_char c :: nat) \<le> 57"

lemma of_char_digit: "n < 10 \<Longrightarrow> (of_char (char_of (48 + n) :: char) :: nat) = 48 + n"
  by (simp add: of_char_of)

lemma set_dec_digits: "c \<in> set (dec_digits n) \<Longrightarrow> is_digit c"
proof (induction n rule: dec_digits.induct)
  case (1 n)
  have "is_digit (char_of (48 + m))" if "m < 10" for m :: nat
    using that by (simp add: is_digit_def of_char_digit)
  then have last: "is_digit (char_of (48 + n mod 10))" "n < 10 \<Longrightarrow> is_digit (char_of (48 + n))" by simp_all
  show ?case
  proof (cases "n < 10")
    case True
    then show ?thesis using 1(2) last(2) by (subst (asm) dec_digits.simps) simp
  next
    case False
    then have "c \<in> set (dec_digits (n div 10)) \<or> c = char_of (48 + n mod 10)"
      using 1(2) dec_digits.simps [of n] by auto
    then show ?thesis using 1(1) False last(1) by blast
  qed
qed

text \<open>Reading the digits back.\<close>

definition digits_value :: "string \<Rightarrow> nat" where
  "digits_value s = foldl (\<lambda>n c. n * 10 + (of_char c - 48)) 0 s"

lemma digits_value_dec: "digits_value (dec_digits n) = n"
proof (induction n rule: dec_digits.induct)
  case (1 n)
  show ?case
  proof (cases "n < 10")
    case True
    then show ?thesis by (subst dec_digits.simps) (simp add: digits_value_def of_char_digit)
  next
    case False
    then have "digits_value (dec_digits n) = digits_value (dec_digits (n div 10)) * 10 + n mod 10"
      by (subst dec_digits.simps) (simp add: digits_value_def of_char_digit)
    then show ?thesis using 1 False by simp
  qed
qed

lemma dec_digits_inject [simp]: "dec_digits m = dec_digits n \<longleftrightarrow> m = n"
  by (metis digits_value_dec)

text \<open>Two texts that are cut at the same first non-digit have the same parts.\<close>

lemma cut_digits:
  assumes "\<And>c. c \<in> set a \<Longrightarrow> is_digit c" "\<And>c. c \<in> set b \<Longrightarrow> is_digit c" "\<not> is_digit d"
  shows "a @ d # x = b @ d # y \<longleftrightarrow> a = b \<and> x = y"
  using assms
proof (induction a arbitrary: b)
  case Nil
  then show ?case by (cases b) auto
next
  case (Cons e a)
  then show ?case by (cases b) auto
qed

lemma cut_dec_digits:
  "\<not> is_digit d \<Longrightarrow> dec_digits m @ d # x = dec_digits n @ d # y \<longleftrightarrow> m = n \<and> x = y"
  using cut_digits [of "dec_digits m" "dec_digits n" d x y] set_dec_digits by auto

lemma v4_text_eq:
  "v4_text a b c d @ CHR '':'' # p = v4_text a' b' c' d' @ CHR '':'' # p' \<longleftrightarrow>
     a = a' \<and> b = b' \<and> c = c' \<and> d = d' \<and> p = p'"
  by (simp add: v4_text_def cut_dec_digits is_digit_def word_unat_eq_iff)

lemma addr_text_v4_inject:
  assumes "is_ipv4 (sa_ip x)" "is_ipv4 (sa_ip y)"
  shows "addr_text x = addr_text y \<longleftrightarrow> x = y"
proof -
  obtain a b c d where x: "sa_ip x = V4 a b c d" using assms(1) by (cases "sa_ip x") auto
  obtain a' b' c' d' where y: "sa_ip y = V4 a' b' c' d'" using assms(2) by (cases "sa_ip y") auto
  show ?thesis
    using v4_text_eq [of a b c d _ a' b' c' d'] x y
    by (cases x; cases y) (auto simp: addr_text_def word_unat_eq_iff)
qed

end
