(* ===== verification/Api.thy ===== *)
theory Api
  imports Rust_Std "HOL-Library.Countable"
begin

section \<open>The config api types\<close>

text \<open>
  \<open>rs/v-m-io-types/src/api.rs\<close>: the payloads of \<open>cfg-get\<close> and \<open>cfg-put\<close>, and \<open>encode\<close> and \<open>decode\<close> around the
  crate \<open>bincode_next\<close>, which is a parameter (\<open>bincode\<close>, one for each payload type). The rest of the
  development uses a \<open>codec\<close>: the four functions, as \<open>bincode_codec\<close> makes them. \<open>codec_ok\<close> states what the
  code relies on, that a value decodes from its own encoding. \<open>demo_codec\<close> is an instance, for the
  witnesses.
\<close>

definition CONFIG_TOMBSTONE :: string where
  "CONFIG_TOMBSTONE = CHR 0x1f # ''[[::TOMBSTONE::]]'' @ [CHR 0x04]"

record cfg_get_item =
  gi_key :: string
  gi_value :: string
  gi_modified_at_micros :: int
  gi_expires_at_micros :: "int option"

text \<open>\<open>Result<Vec<CfgGetItem>, String>\<close>, with the error on the left.\<close>

type_synonym cfg_get_res = "string + cfg_get_item list"

record cfg_put_req =
  pr_key :: string
  pr_value :: string
  pr_expires_at_micros :: "int option"
  pr_modified_at_micros :: "int option"

text \<open>\<open>encode\<close> and \<open>decode\<close> at the two payload types.\<close>

record codec =
  encode_get_res :: "cfg_get_res \<Rightarrow> bytes res"
  decode_get_res :: "bytes \<Rightarrow> cfg_get_res res"
  encode_put_req :: "cfg_put_req \<Rightarrow> bytes res"
  decode_put_req :: "bytes \<Rightarrow> cfg_put_req res"

definition codec_ok :: "codec \<Rightarrow> bool" where
  "codec_ok cd \<longleftrightarrow>
     (\<forall>r b. encode_get_res cd r = Inr b \<longrightarrow> decode_get_res cd b = Inr r) \<and>
     (\<forall>r b. encode_put_req cd r = Inr b \<longrightarrow> decode_put_req cd b = Inr r)"

lemma codec_okD:
  assumes "codec_ok cd"
  shows "encode_get_res cd r = Inr b \<Longrightarrow> decode_get_res cd b = Inr r"
    and "encode_put_req cd q = Inr b \<Longrightarrow> decode_put_req cd b = Inr q"
  using assms unfolding codec_ok_def by blast+

subsection \<open>Around the crate\<close>

text \<open>
  \<open>encode_to_vec\<close> and \<open>decode_from_slice\<close> with the configuration \<open>CONFIG\<close>, the standard one; the second
  returns the value and the number of bytes that it read.
\<close>

record 'a bincode =
  bc_encode_to_vec :: "'a \<Rightarrow> string + bytes"
  bc_decode_from_slice :: "bytes \<Rightarrow> string + ('a \<times> nat)"

definition encode :: "'a bincode \<Rightarrow> 'a \<Rightarrow> bytes res" where
  "encode bc e = (case bc_encode_to_vec bc e of Inl err \<Rightarrow> Inl (io_other err) | Inr b \<Rightarrow> Inr b)"

definition decode :: "'a bincode \<Rightarrow> bytes \<Rightarrow> 'a res" where
  "decode bc bytes = (case bc_decode_from_slice bc bytes of Inl err \<Rightarrow> Inl (io_other err) | Inr (v, n) \<Rightarrow> Inr v)"

definition bincode_codec :: "cfg_get_res bincode \<Rightarrow> cfg_put_req bincode \<Rightarrow> codec" where
  "bincode_codec g p = \<lparr>encode_get_res = encode g, decode_get_res = decode g,
     encode_put_req = encode p, decode_put_req = decode p\<rparr>"

text \<open>The format is self-delimiting: a value is read back from the start of any bytes that begin with its encoding.\<close>

definition bincode_ok :: "'a bincode \<Rightarrow> bool" where
  "bincode_ok bc \<longleftrightarrow> (\<forall>v b rest. bc_encode_to_vec bc v = Inr b \<longrightarrow>
     bc_decode_from_slice bc (b @ rest) = Inr (v, length b))"

text \<open>\<open>decode\<close> drops the count, so bytes after a payload are accepted and have no effect.\<close>

lemma decode_encode_rest: "bincode_ok bc \<Longrightarrow> encode bc v = Inr b \<Longrightarrow> decode bc (b @ rest) = Inr v"
  by (auto simp: bincode_ok_def encode_def decode_def split: sum.splits)

lemma codec_ok_bincode: "bincode_ok g \<Longrightarrow> bincode_ok p \<Longrightarrow> codec_ok (bincode_codec g p)"
  using decode_encode_rest [of g _ _ "[]"] decode_encode_rest [of p _ _ "[]"]
  by (simp add: codec_ok_def bincode_codec_def)

subsection \<open>An instance\<close>

text \<open>
  A toy codec: a get response is a number, written in unary; a put request is a byte for its expiry (none
  or one time), a length byte, the key and the value.
\<close>

definition codec_error :: io_error where
  "codec_error = io_other ''codec''"

definition item_tuple :: "cfg_get_item \<Rightarrow> string \<times> string \<times> int \<times> int option" where
  "item_tuple i = (gi_key i, gi_value i, gi_modified_at_micros i, gi_expires_at_micros i)"

definition tuple_item :: "string \<times> string \<times> int \<times> int option \<Rightarrow> cfg_get_item" where
  "tuple_item = (\<lambda>(k, v, m, x). \<lparr>gi_key = k, gi_value = v, gi_modified_at_micros = m, gi_expires_at_micros = x\<rparr>)"

lemma tuple_item_tuple [simp]: "tuple_item (item_tuple i) = i"
  by (simp add: tuple_item_def item_tuple_def)

definition demo_expiry :: int where
  "demo_expiry = 2592000000000"

definition put_fits :: "cfg_put_req \<Rightarrow> bool" where
  "put_fits q \<longleftrightarrow> pr_expires_at_micros q \<in> {None, Some demo_expiry} \<and> pr_modified_at_micros q = None \<and>
     length (pr_key q) < 256 \<and> utf8_valid (pr_key q) \<and> utf8_valid (pr_value q)"

definition put_of_bytes :: "u8 \<Rightarrow> u8 \<Rightarrow> bytes \<Rightarrow> cfg_put_req" where
  "put_of_bytes x n t = \<lparr>pr_key = of_utf8_bytes (take (unat n) t), pr_value = of_utf8_bytes (drop (unat n) t),
     pr_expires_at_micros = (if x = 0 then None else Some demo_expiry), pr_modified_at_micros = None\<rparr>"

definition demo_codec :: codec where
  "demo_codec = \<lparr>
     encode_get_res = (\<lambda>r. Inr (replicate (to_nat (map_sum id (map item_tuple) r)) 0)),
     decode_get_res = (\<lambda>b. Inr (map_sum id (map tuple_item) (from_nat (length b)))),
     encode_put_req = (\<lambda>q. if put_fits q
         then Inr ((if pr_expires_at_micros q = None then 0 else 1) # of_nat (length (pr_key q)) # into_bytes (pr_key q) @ into_bytes (pr_value q))
         else Inl codec_error),
     decode_put_req = (\<lambda>b. case b of
         x # n # t \<Rightarrow> if put_fits (put_of_bytes x n t) then Inr (put_of_bytes x n t) else Inl codec_error
       | _ \<Rightarrow> Inl codec_error) \<rparr>"

lemma codec_ok_demo [simp]: "codec_ok demo_codec"
proof -
  have "decode_put_req demo_codec b = Inr q" if "encode_put_req demo_codec q = Inr b" for q b
  proof -
    have q: "put_fits q"
      and b: "b = (if pr_expires_at_micros q = None then 0 else 1) # of_nat (length (pr_key q)) # into_bytes (pr_key q) @ into_bytes (pr_value q)"
      using that by (auto simp: demo_codec_def split: if_splits)
    have "unat (of_nat (length (pr_key q)) :: u8) = length (pr_key q)"
      using q by (simp add: unat_of_nat put_fits_def)
    then have "put_of_bytes (if pr_expires_at_micros q = None then 0 else 1) (of_nat (length (pr_key q))) (into_bytes (pr_key q) @ into_bytes (pr_value q)) = q"
      using q by (cases q) (auto simp: put_of_bytes_def put_fits_def)
    then show ?thesis using q b by (simp add: demo_codec_def)
  qed
  moreover have "map_sum id (map tuple_item) (map_sum id (map item_tuple) r) = r" for r :: cfg_get_res
    by (cases r) (simp_all add: comp_def)
  then have "decode_get_res demo_codec b = Inr r" if "encode_get_res demo_codec r = Inr b" for r b
    using that by (auto simp: demo_codec_def)
  ultimately show ?thesis by (simp add: codec_ok_def)
qed

lemma demo_codec_total: "\<exists>bs. encode_get_res demo_codec r = Inr bs"
  by (simp add: demo_codec_def)

end
