(* ===== verification/Back_Store.thy ===== *)
theory Back_Store
  imports Entry_Store Micros Addr_Text Api
begin

section \<open>The backend's use of the database\<close>

text \<open>
  \<open>upsert_value\<close>, \<open>announce_addrs\<close> and \<open>read_all\<close> of \<open>rs/v-m-io-back/src/lib.rs\<close>. The state is what
  the handlers share: the database and the timestamp counter. Every call of the database and every
  reading of the clock takes the next of a sequence \<open>envs\<close> of environments (\<open>bk_tick\<close> counts them), so
  each has a clock and faults of its own.
\<close>

definition CFG_CLASS :: string where "CFG_CLASS = ''cfg''"
definition CFG_API_KEY_PREFIX :: string where "CFG_API_KEY_PREFIX = ''cfg-api-key~''"
definition CFG_ADDR_PREFIX :: string where "CFG_ADDR_PREFIX = ''cfg-addr~''"

definition CFG_ADDR_TTL_MICROS :: int where
  "CFG_ADDR_TTL_MICROS = 120 * 1000000"

definition CFG_VALUE_MAX :: nat where "CFG_VALUE_MAX = 4096"
definition CFG_KEY_MAX :: nat where "CFG_KEY_MAX = 1024"

record back_state =
  bk_store :: store
  bk_counter :: int
  bk_tick :: nat

type_synonym envs = "nat \<Rightarrow> db_env"

subsection \<open>The calls\<close>

definition back_upsert ::
  "envs \<Rightarrow> string \<Rightarrow> int \<Rightarrow> int option \<Rightarrow> bytes \<Rightarrow> back_state \<Rightarrow> bool res \<times> back_state" where
  "back_upsert envs key modified expires metadata b =
     (case db_upsert (envs (bk_tick b)) CFG_CLASS key modified expires (Some metadata) (bk_store b) of
        (r, s') \<Rightarrow> (r, b\<lparr>bk_store := s', bk_tick := Suc (bk_tick b)\<rparr>))"

definition take_micros :: "envs \<Rightarrow> back_state \<Rightarrow> int \<times> back_state" where
  "take_micros envs b =
     (case next_micros (ev_now (envs (bk_tick b))) (bk_counter b) of
        (m, c) \<Rightarrow> (m, b\<lparr>bk_counter := c, bk_tick := Suc (bk_tick b)\<rparr>))"

text \<open>The loop \<open>for _ in 0..64\<close>, with the number of attempts that are left.\<close>

fun upsert_attempts ::
  "envs \<Rightarrow> nat \<Rightarrow> io_error option \<Rightarrow> string \<Rightarrow> bytes \<Rightarrow> int option \<Rightarrow> back_state \<Rightarrow> unit res \<times> back_state" where
  "upsert_attempts envs 0 last_err key metadata expires b =
     (Inl (case last_err of Some e \<Rightarrow> e | None \<Rightarrow> io_other ''failed to allocate a unique timestamp''), b)"
| "upsert_attempts envs (Suc n) last_err key metadata expires b =
     (let (modified, b1) = take_micros envs b in
      case back_upsert envs key modified expires metadata b1 of
        (Inr applied, b2) \<Rightarrow> (Inr (), b2)
      | (Inl err, b2) \<Rightarrow> upsert_attempts envs n (Some err) key metadata expires b2)"

definition upsert_value ::
  "envs \<Rightarrow> string \<Rightarrow> string \<Rightarrow> int option \<Rightarrow> int option \<Rightarrow> back_state \<Rightarrow> unit res \<times> back_state" where
  "upsert_value envs key value modified expires b =
     (if length key > CFG_KEY_MAX then (Inl (io_invalid ''config key cannot be > 1024 bytes''), b)
      else
        (let metadata = into_bytes value in
         if length metadata > CFG_VALUE_MAX then
           (Inl (io_invalid ''config value cannot be > 4096 bytes''), b)
         else (case modified of
             Some m \<Rightarrow>
               then_st (back_upsert envs key m expires metadata (b\<lparr>bk_counter := fetch_max m (bk_counter b)\<rparr>))
                 (\<lambda>applied b2. (Inr (), b2))
           | None \<Rightarrow> upsert_attempts envs 64 None key metadata expires b)))"

text \<open>\<open>announce_addrs\<close>: one expiry for all addresses; the first error ends the loop.\<close>

definition addr_key :: "socket_addr \<Rightarrow> string" where
  "addr_key addr = CFG_ADDR_PREFIX @ addr_text addr"

fun announce_loop :: "envs \<Rightarrow> int \<Rightarrow> socket_addr list \<Rightarrow> back_state \<Rightarrow> unit res \<times> back_state" where
  "announce_loop envs expires [] b = (Inr (), b)"
| "announce_loop envs expires (addr # addrs) b =
     then_st (upsert_value envs (addr_key addr) [] None (Some expires) b)
       (\<lambda>_ b1. announce_loop envs expires addrs b1)"

definition announce_addrs :: "envs \<Rightarrow> socket_addr list \<Rightarrow> back_state \<Rightarrow> unit res \<times> back_state" where
  "announce_addrs envs addrs b =
     (let expires = saturating_add_i64 (unix_micros (ev_now (envs (bk_tick b)))) CFG_ADDR_TTL_MICROS
      in announce_loop envs expires addrs (b\<lparr>bk_tick := Suc (bk_tick b)\<rparr>))"

text \<open>\<open>read_all\<close>: the entries by key, each value as text.\<close>

fun read_items :: "db_entry list \<Rightarrow> (cfg_get_item list) res" where
  "read_items [] = Inr []"
| "read_items (entry # rest) =
     and_then (case d_metadata entry of
         Some metadata \<Rightarrow> (case from_utf8 metadata of
             Some value \<Rightarrow> Inr value
           | None \<Rightarrow> Inl (io_other ''config value is not valid utf-8''))
       | None \<Rightarrow> Inr []) (\<lambda>value.
     and_then (read_items rest) (\<lambda>out.
     Inr (\<lparr>gi_key = d_key entry, gi_value = value, gi_modified_at_micros = d_modified_at_micros entry,
            gi_expires_at_micros = d_expires_at_micros entry\<rparr> # out)))"

definition read_all :: "envs \<Rightarrow> back_state \<Rightarrow> (cfg_get_item list) res \<times> back_state" where
  "read_all envs b =
     (and_then (db_list (envs (bk_tick b)) CFG_CLASS FilterAll KeyAsc i64_max (bk_store b)) read_items,
      b\<lparr>bk_tick := Suc (bk_tick b)\<rparr>)"

subsection \<open>What a write does\<close>

text \<open>The entry under a config key, and the row a write stores.\<close>

definition cfg_entry :: "string \<Rightarrow> back_state \<Rightarrow> entry_row option" where
  "cfg_entry key b = q_entry (CFG_CLASS, key) (st_sql (bk_store b))"

definition cfg_row :: "string \<Rightarrow> int \<Rightarrow> int option \<Rightarrow> string \<Rightarrow> entry_row" where
  "cfg_row key m x value = row_of CFG_CLASS key m x (Some (into_bytes value))"

definition back_wf :: "back_state \<Rightarrow> bool" where
  "back_wf b \<longleftrightarrow> tables_wf (st_sql (bk_store b))"

lemma e_modified_cfg_row [simp]: "e_modified (cfg_row k m x v) = m"
  by (simp add: cfg_row_def)

lemma back_upsert_Inl: "back_upsert envs k m x d b = (Inl e, b') \<Longrightarrow>
    b' = b\<lparr>bk_tick := Suc (bk_tick b)\<rparr>"
  by (auto simp: back_upsert_def split: prod.splits dest: upsert_error)

lemma back_upsert_counter: "back_upsert envs k m x d b = (r, b') \<Longrightarrow> bk_counter b' = bk_counter b"
  by (auto simp: back_upsert_def split: prod.splits)

text \<open>What one applied attempt leaves: the tables of the statement, everything else as it was.\<close>

lemma back_upsert_Inr:
  assumes "back_upsert envs k m x d b = (Inr a, b')" "back_wf b"
  shows "back_wf b'"
    and "q_entry pk (st_sql (bk_store b')) =
      (if pk = (CFG_CLASS, k) then newest (row_of CFG_CLASS k m x (Some d)) (q_entry pk (st_sql (bk_store b)))
       else q_entry pk (st_sql (bk_store b)))"
    and "st_fs (bk_store b') = st_fs (bk_store b)"
    and "chunks (st_sql (bk_store b')) = chunks (st_sql (bk_store b))"
proof -
  let ?row = "row_of CFG_CLASS k m x (Some d)"
  have up: "db_upsert (envs (bk_tick b)) CFG_CLASS k m x (Some d) (bk_store b) = (Inr a, bk_store b')"
    using assms(1) by (auto simp: back_upsert_def split: prod.splits)
  obtain n where n: "exec_upsert ?row (st_sql (bk_store b)) = Inr (n, st_sql (bk_store b'))"
    using upsert_limits [OF up] by (auto simp: sql_upsert_Inr row_of_def)
  have wf: "tables_wf (st_sql (bk_store b))" using assms(2) by (simp add: back_wf_def)
  show "back_wf b'" using tables_wf_upsert [OF wf n] by (simp add: back_wf_def)
  show "q_entry pk (st_sql (bk_store b')) =
      (if pk = (CFG_CLASS, k) then newest ?row (q_entry pk (st_sql (bk_store b)))
       else q_entry pk (st_sql (bk_store b)))"
    using q_entry_newest [OF wf n, of pk] by simp
  show "st_fs (bk_store b') = st_fs (bk_store b)" using upsert_limits [OF up] by simp
  show "chunks (st_sql (bk_store b')) = chunks (st_sql (bk_store b))" by (rule chunks_exec_upsert [OF n])
qed

definition written :: "string \<Rightarrow> int \<Rightarrow> int option \<Rightarrow> bytes \<Rightarrow> back_state \<Rightarrow> back_state \<Rightarrow> bool" where
  "written k m x d b b' \<longleftrightarrow> back_wf b' \<and>
     (\<forall>pk. q_entry pk (st_sql (bk_store b')) =
       (if pk = (CFG_CLASS, k) then newest (row_of CFG_CLASS k m x (Some d)) (q_entry pk (st_sql (bk_store b)))
        else q_entry pk (st_sql (bk_store b)))) \<and>
     st_fs (bk_store b') = st_fs (bk_store b) \<and>
     chunks (st_sql (bk_store b')) = chunks (st_sql (bk_store b))"

lemma back_upsert_written: "back_upsert envs k m x d b = (Inr a, b') \<Longrightarrow> back_wf b \<Longrightarrow> written k m x d b b'"
  unfolding written_def by (intro conjI allI) (rule back_upsert_Inr; assumption)+

lemma written_store:
  assumes "written k m x d b b'" "bk_store b = bk_store c"
  shows "written k m x d c b'"
  using assms by (simp add: written_def)

lemma take_micros_store:
  "take_micros envs b = (m, b1) \<Longrightarrow> bk_store b1 = bk_store b \<and> bk_counter b1 = m"
  by (auto simp: take_micros_def next_micros_def Let_def)

lemma upsert_attempts_result:
  assumes "upsert_attempts envs n last_err k d x b = (r, b')" "back_wf b"
  shows "case r of
      Inl e \<Rightarrow> bk_store b' = bk_store b
    | Inr u \<Rightarrow> written k (bk_counter b') x d b b'"
  using assms
proof (induction n arbitrary: last_err b)
  case 0
  then show ?case by auto
next
  case (Suc n)
  obtain m b1 where m: "take_micros envs b = (m, b1)" by force
  note b1 = take_micros_store [OF m]
  obtain r2 b2 where up: "back_upsert envs k m x d b1 = (r2, b2)" by force
  have wf: "back_wf b1" using Suc.prems(2) b1 by (simp add: back_wf_def)
  show ?case
  proof (cases r2)
    case (Inr applied)
    then have "r = Inr ()" "b' = b2" using Suc.prems(1) m up by simp_all
    moreover have "written k m x d b1 b2" using back_upsert_written up Inr wf by blast
    ultimately show ?thesis using b1 back_upsert_counter [OF up] written_store by auto
  next
    case (Inl err)
    then have next_try: "upsert_attempts envs n (Some err) k d x b2 = (r, b')"
      using Suc.prems(1) m up by simp
    have b2: "bk_store b2 = bk_store b" using back_upsert_Inl up Inl b1 by fastforce
    then have "back_wf b2" using Suc.prems(2) by (simp add: back_wf_def)
    from Suc.IH [OF next_try this] b2 show ?thesis
      by (cases r) (auto intro: written_store)
  qed
qed

lemma upsert_value_result:
  assumes "upsert_value envs k v modified x b = (r, b')" "back_wf b"
  shows "case r of
      Inl e \<Rightarrow> bk_store b' = bk_store b
    | Inr u \<Rightarrow> length k \<le> CFG_KEY_MAX \<and> length v \<le> CFG_VALUE_MAX \<and>
        written k (case modified of Some m \<Rightarrow> m | None \<Rightarrow> bk_counter b') x (into_bytes v) b b'"
proof (cases "length k > CFG_KEY_MAX \<or> length v > CFG_VALUE_MAX")
  case True
  then have "\<exists>e. r = Inl e" "b' = b" using assms(1) by (auto simp: upsert_value_def Let_def split: if_splits)
  then show ?thesis by auto
next
  case False
  show ?thesis
  proof (cases modified)
    case None
    then have "upsert_attempts envs 64 None k (into_bytes v) x b = (r, b')"
      using assms(1) False by (simp add: upsert_value_def)
    from upsert_attempts_result [OF this assms(2)] False None show ?thesis by (cases r) auto
  next
    case (Some m)
    let ?b = "b\<lparr>bk_counter := fetch_max m (bk_counter b)\<rparr>"
    obtain r2 b2 where up: "back_upsert envs k m x (into_bytes v) ?b = (r2, b2)" by force
    have run: "r = (case r2 of Inl e \<Rightarrow> Inl e | Inr a \<Rightarrow> Inr ())" "b' = b2"
      using assms(1) False Some up by (cases r2; simp add: upsert_value_def)+
    have wf: "back_wf ?b" using assms(2) by (simp add: back_wf_def)
    show ?thesis
    proof (cases r2)
      case (Inl e)
      then show ?thesis using run back_upsert_Inl [of envs k m x "into_bytes v" ?b e b2] up by simp
    next
      case (Inr a)
      then have "written k m x (into_bytes v) ?b b2" using back_upsert_written up wf by blast
      then have "written k m x (into_bytes v) b b2" by (rule written_store) simp
      then show ?thesis using run Inr False Some by simp
    qed
  qed
qed

lemma upsert_value_wf:
  "upsert_value envs k v modified x b = (r, b') \<Longrightarrow> back_wf b \<Longrightarrow> back_wf b'"
  using upsert_value_result [of envs k v modified x b r b'] by (cases r) (auto simp: written_def back_wf_def)

lemma written_cfg_entry:
  "written k m x (into_bytes v) b b' \<Longrightarrow>
   cfg_entry k' b' = (if k' = k then newest (cfg_row k m x v) (cfg_entry k b) else cfg_entry k' b)"
  by (simp add: written_def cfg_entry_def cfg_row_def)

text \<open>The backend's write with a given timestamp keeps the contract of an entry store too.\<close>

interpretation cfg_puts: entry_store
  "\<lambda>envs k m x v b. upsert_value envs k v (Some m) x b" cfg_entry cfg_row back_wf
proof unfold_locales
  fix envs k m x v b r b' err y k'
  show "e_modified (cfg_row k m x v) = m" by simp
  show "back_wf b'" if "upsert_value envs k v (Some m) x b = (r, b')" "back_wf b"
    by (rule upsert_value_wf [OF that])
  show "cfg_entry k' b' = cfg_entry k' b"
    if "upsert_value envs k v (Some m) x b = (Inl err, b')" "back_wf b"
    using upsert_value_result [OF that] by (simp add: cfg_entry_def)
  show "cfg_entry k' b' = (if k' = k then newest (cfg_row k m x v) (cfg_entry k b) else cfg_entry k' b)"
    if "upsert_value envs k v (Some m) x b = (Inr y, b')" "back_wf b"
    using upsert_value_result [OF that] written_cfg_entry [of k m x v b b' k'] by simp
qed

end
