(* ===== verification/Back_Props.thy ===== *)
theory Back_Props
  imports Back_Store
begin

section \<open>What the backend's store promises\<close>

text \<open>
  The properties of \<open>upsert_value\<close>, \<open>announce_addrs\<close> and \<open>read_all\<close>: atomic writes where the newer
  wins, server timestamps that are newer than everything as long as the counter has seen every
  timestamp stored, convergence of servers that were given the same writes, and a read of exactly
  the stored values.
\<close>

subsection \<open>When a write fails\<close>

lemma db_upsert_isl:
  assumes "tables_wf (st_sql s)" "ev_sql ev = sql_ok"
  shows "isl (fst (db_upsert ev cls key m x md s)) \<longleftrightarrow>
      256 < length cls \<or> 1024 < length key \<or> (\<exists>d. md = Some d \<and> 4096 < length d) \<or>
      isl (exec_upsert (row_of cls key m x md) (st_sql s))"
  using assms(2)
  by (auto simp: db_upsert_def sql_upsert_def run_tx_def row_of_def and_then_def of_sql_def
      split: if_splits option.splits sum.splits)

definition stamps :: "back_state \<Rightarrow> int set" where
  "stamps b = e_modified ` set (entries (st_sql (bk_store b)))"

text \<open>Without faults of sqlite, an attempt fails only on a timestamp that some entry has.\<close>

lemma back_upsert_fails:
  assumes "back_wf b" "ev_sql (envs (bk_tick b)) = sql_ok" "length k \<le> CFG_KEY_MAX" "length d \<le> CFG_VALUE_MAX"
    and "back_upsert envs k m x d b = (r, b')" "m \<notin> stamps b"
  shows "\<exists>a. r = Inr a"
proof -
  let ?row = "row_of CFG_CLASS k m x (Some d)"
  have "\<not> isl (exec_upsert ?row (st_sql (bk_store b)))"
    using assms(6) by (auto simp: exec_upsert_def stamps_def split: option.split)
  then have "\<not> isl (fst (db_upsert (envs (bk_tick b)) CFG_CLASS k m x (Some d) (bk_store b)))"
    using assms(1,3,4) db_upsert_isl [of "bk_store b" "envs (bk_tick b)" CFG_CLASS k m x "Some d"] assms(2)
    by (simp add: back_wf_def CFG_KEY_MAX_def CFG_VALUE_MAX_def CFG_CLASS_def)
  then show ?thesis using assms(5) by (cases r) (auto simp: back_upsert_def split: prod.splits)
qed

text \<open>Timestamps of the entries are those that lookups can find.\<close>

lemma stamps_q_entry: "back_wf b \<Longrightarrow> stamps b = {e_modified r |r pk. q_entry pk (st_sql (bk_store b)) = Some r}"
  by (auto simp: stamps_def back_wf_def q_entry_Some)

lemma stamps_written: "written k m x d b b' \<Longrightarrow> back_wf b \<Longrightarrow> stamps b' \<subseteq> insert m (stamps b)"
proof
  fix n
  assume w: "written k m x d b b'" and wf: "back_wf b" and "n \<in> stamps b'"
  then obtain r pk where r: "q_entry pk (st_sql (bk_store b')) = Some r" "n = e_modified r"
    by (auto simp: stamps_q_entry written_def)
  then have "q_entry pk (st_sql (bk_store b)) = Some r \<or> r = row_of CFG_CLASS k m x (Some d)"
  proof -
    have "q_entry pk (st_sql (bk_store b')) =
        (if pk = (CFG_CLASS, k) then newest (row_of CFG_CLASS k m x (Some d)) (q_entry pk (st_sql (bk_store b)))
         else q_entry pk (st_sql (bk_store b)))" using w unfolding written_def by blast
    then show ?thesis using r(1) by (auto simp: newest_def split: if_splits option.splits)
  qed
  then show "n \<in> insert m (stamps b)"
  proof
    assume "q_entry pk (st_sql (bk_store b)) = Some r"
    then have "e_modified r \<in> stamps b" unfolding stamps_q_entry [OF wf] by blast
    then show ?thesis using r(2) by simp
  qed (use r(2) in simp)
qed

subsection \<open>The counter ahead of the store\<close>

text \<open>
  A stored timestamp is behind when the counter has seen it, or when every later reading of the clock is
  above it, as after a restart with a clock that did not go back.
\<close>

definition behind :: "envs \<Rightarrow> back_state \<Rightarrow> int \<Rightarrow> bool" where
  "behind envs b m \<longleftrightarrow> m \<le> bk_counter b \<or> (\<forall>n \<ge> bk_tick b. m < unix_micros (ev_now (envs n)))"

definition counter_ahead :: "envs \<Rightarrow> back_state \<Rightarrow> bool" where
  "counter_ahead envs b \<longleftrightarrow> back_wf b \<and> is_i64 (bk_counter b) \<and> (\<forall>m \<in> stamps b. behind envs b m)"

lemma counter_aheadD:
  assumes "counter_ahead envs b"
  shows "back_wf b" "is_i64 (bk_counter b)" "m \<in> stamps b \<Longrightarrow> behind envs b m"
  using assms by (auto simp: counter_ahead_def)

lemma behind_later:
  "behind envs b m \<Longrightarrow> bk_counter b \<le> bk_counter b' \<Longrightarrow> bk_tick b \<le> bk_tick b' \<Longrightarrow> behind envs b' m"
  by (auto simp: behind_def)

lemma behind_bump:
  assumes "behind envs b m" "is_i64 (bk_counter b)" "bk_counter b < i64_max"
  shows "m < bump (unix_micros (ev_now (envs (bk_tick b)))) (bk_counter b)"
  using assms(1) bump_greater [OF assms(2,3), of "unix_micros (ev_now (envs (bk_tick b)))"]
    bump_ge_now [OF assms(2,3), of "unix_micros (ev_now (envs (bk_tick b)))"]
  by (auto simp: behind_def)

lemma first_attempt:
  "take_micros envs b = (m, b1) \<Longrightarrow> back_upsert envs k m x d b1 = (Inr a, b2) \<Longrightarrow> 0 < n \<Longrightarrow>
   upsert_attempts envs n last_err k d x b = (Inr (), b2)"
  by (cases n) simp_all

text \<open>The first attempt is applied.\<close>

lemma attempt_ahead:
  assumes "counter_ahead envs b" "bk_counter b < i64_max"
    and "ev_sql (envs (Suc (bk_tick b))) = sql_ok" "length k \<le> CFG_KEY_MAX" "length v \<le> CFG_VALUE_MAX"
    and "upsert_value envs k v None x b = (r, b')"
  shows "r = Inr () \<and> cfg_entry k b' = Some (cfg_row k (bk_counter b') x v) \<and> bk_counter b < bk_counter b' \<and>
    (\<forall>n \<in> stamps b. n < bk_counter b') \<and>
    written k (bk_counter b') x (into_bytes v) b b' \<and> counter_ahead envs b'"
proof -
  obtain m b1 where m: "take_micros envs b = (m, b1)" by force
  note b1 = take_micros_store [OF m]
  have bump: "bk_counter b < m" "is_i64 m" "bk_tick b1 = Suc (bk_tick b)"
    using m counter_aheadD(2) [OF assms(1)] assms(2) bump_greater [of "bk_counter b"]
    by (auto simp: take_micros_def next_micros_def Let_def)
  have above: "n < m" if "n \<in> stamps b" for n
    using behind_bump [OF counter_aheadD(3) [OF assms(1) that] counter_aheadD(2) [OF assms(1)] assms(2)] m
    by (auto simp: take_micros_def next_micros_def Let_def)
  obtain r2 b2 where up: "back_upsert envs k m x (into_bytes v) b1 = (r2, b2)" by force
  have wf1: "back_wf b1" and stamps1: "stamps b1 = stamps b"
    using b1 counter_aheadD(1) [OF assms(1)] by (simp_all add: back_wf_def stamps_def)
  have fresh: "m \<notin> stamps b1" using above [of m] stamps1 by auto
  then obtain a where "r2 = Inr a"
    using back_upsert_fails [OF wf1, of envs k "into_bytes v" m x r2 b2] up assms(3-5) bump(3) by auto
  then have "upsert_attempts envs 64 None k (into_bytes v) x b = (Inr (), b2)"
    using first_attempt m up by simp
  then have run: "r = Inr ()" "b' = b2" using assms(4-6) by (simp_all add: upsert_value_def)
  have counter: "bk_counter b' = m" using run(2) back_upsert_counter [OF up] b1 by simp
  have w1: "written k m x (into_bytes v) b1 b'"
    using back_upsert_written up wf1 run(2) \<open>r2 = Inr a\<close> by blast
  then have w: "written k m x (into_bytes v) b b'" by (rule written_store) (use b1 in simp)
  have "e_modified q < m" if "cfg_entry k b = Some q" for q
  proof -
    have "e_modified q \<in> stamps b"
      using that counter_aheadD(1) [OF assms(1)] by (auto simp: stamps_q_entry cfg_entry_def)
    then show ?thesis by (rule above)
  qed
  then have "cfg_entry k b' = Some (cfg_row k m x v)"
    using written_cfg_entry [OF w, of k] by (auto simp: newest_def split: option.split)
  moreover have "counter_ahead envs b'"
  proof -
    have "n \<le> m" if "n \<in> stamps b'" for n
      using that stamps_written [OF w counter_aheadD(1) [OF assms(1)]] above [of n] by auto
    then show ?thesis using w bump(2) counter by (auto simp: counter_ahead_def written_def behind_def)
  qed
  ultimately show ?thesis using run w counter bump(1) above by simp
qed

subsection \<open>Properties of writes\<close>

definition empty_back :: back_state where
  "empty_back = \<lparr>bk_store = \<lparr>st_sql = empty_tables, st_fs = []\<rparr>, bk_counter = 0, bk_tick = 0\<rparr>"

lemma back_wf_empty [simp]: "back_wf empty_back"
  by (simp add: back_wf_def empty_back_def)

lemma counter_ahead_empty [simp]: "counter_ahead envs empty_back"
  by (simp add: counter_ahead_def stamps_def) (simp add: empty_back_def empty_tables_def i64_defs)

lemma cfg_entry_empty [simp]: "cfg_entry k empty_back = None"
  by (simp add: cfg_entry_def empty_back_def empty_tables_def q_entry_def)

lemma upsert_value_entries:
  assumes "upsert_value envs k v modified x b = (r, b')" "back_wf b"
  shows "case r of
      Inl e \<Rightarrow> bk_store b' = bk_store b
    | Inr u \<Rightarrow> length k \<le> 1024 \<and> length v \<le> 4096 \<and> back_wf b' \<and>
        (\<exists>m. m = (case modified of Some t \<Rightarrow> t | None \<Rightarrow> bk_counter b') \<and>
           (\<forall>key. cfg_entry key b' =
             (if key = k then newest (cfg_row k m x v) (cfg_entry k b) else cfg_entry key b))) \<and>
        (\<forall>cls key. cls \<noteq> CFG_CLASS \<longrightarrow>
           q_entry (cls, key) (st_sql (bk_store b')) = q_entry (cls, key) (st_sql (bk_store b))) \<and>
        chunks (st_sql (bk_store b')) = chunks (st_sql (bk_store b)) \<and>
        st_fs (bk_store b') = st_fs (bk_store b)"
proof (cases r)
  case (Inl e)
  then show ?thesis using upsert_value_result [OF assms] by simp
next
  case (Inr u)
  let ?m = "case modified of Some t \<Rightarrow> t | None \<Rightarrow> bk_counter b'"
  have limits: "length k \<le> CFG_KEY_MAX" "length v \<le> CFG_VALUE_MAX" and w: "written k ?m x (into_bytes v) b b'"
    using upsert_value_result [OF assms] Inr by simp_all
  have "\<forall>key. cfg_entry key b' = (if key = k then newest (cfg_row k ?m x v) (cfg_entry k b) else cfg_entry key b)"
    using written_cfg_entry [OF w] by blast
  moreover have "\<forall>cls key. cls \<noteq> CFG_CLASS \<longrightarrow>
      q_entry (cls, key) (st_sql (bk_store b')) = q_entry (cls, key) (st_sql (bk_store b))"
    using w by (simp add: written_def)
  ultimately show ?thesis using limits w Inr by (simp add: CFG_KEY_MAX_def CFG_VALUE_MAX_def written_def)
qed

text \<open>
  C18. A config write is atomic and newer wins, whatever sqlite and the clock do, and whichever of the
  64 attempts succeeds: after an error the database is as before; after a success the key and the
  value were within the limits, the entry of this key is the newer of the old one and the new row (at
  the explicit timestamp, or the one taken from the counter), and no other entry, chunk or file changed.
\<close>

theorem upsert_value_correct:
  assumes "back_wf b" "upsert_value envs k v modified x b = (r, b')"
  shows "case r of
      Inl e \<Rightarrow> bk_store b' = bk_store b
    | Inr u \<Rightarrow> length k \<le> 1024 \<and> length v \<le> 4096 \<and> back_wf b' \<and>
        (\<exists>m. m = (case modified of Some t \<Rightarrow> t | None \<Rightarrow> bk_counter b') \<and>
           (\<forall>key. cfg_entry key b' =
             (if key = k then newest (cfg_row k m x v) (cfg_entry k b) else cfg_entry key b))) \<and>
        (\<forall>cls key. cls \<noteq> CFG_CLASS \<longrightarrow>
           q_entry (cls, key) (st_sql (bk_store b')) = q_entry (cls, key) (st_sql (bk_store b))) \<and>
        chunks (st_sql (bk_store b')) = chunks (st_sql (bk_store b)) \<and>
        st_fs (bk_store b') = st_fs (bk_store b)"
  using assms(2,1) by (rule upsert_value_entries)

theorem upsert_value_correct_witness:
  "\<exists>r b'. upsert_value (\<lambda>_. ok_env) ''k'' ''v'' (Some 5) None empty_back = (r, b') \<and>
     (r = Inr () \<longrightarrow> cfg_entry ''k'' b' = Some (cfg_row ''k'' 5 None ''v''))"
proof -
  obtain r b' where run: "upsert_value (\<lambda>_. ok_env) ''k'' ''v'' (Some 5) None empty_back = (r, b')" by force
  then show ?thesis using upsert_value_correct [OF back_wf_empty run] by (auto simp: newest_def)
qed

text \<open>
  A write without a timestamp is applied, at once: while every stored timestamp is behind the counter
  or the clock, and the counter below the largest \<open>i64\<close>, a write within the limits that meets no fault of
  sqlite takes effect at its first attempt, with a timestamp above all others, and leaves the counter at
  it, so the same holds for the next write.
\<close>

lemma server_stamped_put_wins:
  assumes "counter_ahead envs b" "bk_counter b < i64_max"
    and "ev_sql (envs (Suc (bk_tick b))) = sql_ok" "length k \<le> CFG_KEY_MAX" "length v \<le> CFG_VALUE_MAX"
    and "upsert_value envs k v None x b = (r, b')"
  shows "r = Inr () \<and> cfg_entry k b' = Some (cfg_row k (bk_counter b') x v) \<and>
    (\<forall>m \<in> stamps b. m < bk_counter b') \<and> counter_ahead envs b'"
  using attempt_ahead [OF assms] by blast

lemma server_stamped_put_wins_witness:
  "\<exists>b' m. upsert_value (\<lambda>_. ok_env) ''k'' ''v'' None None empty_back = (Inr (), b') \<and>
     cfg_entry ''k'' b' = Some (cfg_row ''k'' m None ''v'')"
proof -
  obtain r b' where run: "upsert_value (\<lambda>_. ok_env) ''k'' ''v'' None None empty_back = (r, b')" by force
  have "bk_counter empty_back < i64_max" by (simp add: empty_back_def i64_max_def)
  then show ?thesis
    using server_stamped_put_wins [OF counter_ahead_empty _ _ _ _ run] run
    by (auto simp: ok_env_def CFG_KEY_MAX_def CFG_VALUE_MAX_def)
qed

text \<open>
  C36. The same write is silently lost where the counter starts behind the store, as it does after a
  restart: an entry whose timestamp is not below what the clock and the counter give is kept, and the
  write reports success.
\<close>

theorem future_entry_not_overwritten:
  assumes "back_wf b" "cfg_entry k b = Some old" "ev_sql (envs (Suc (bk_tick b))) = sql_ok"
    and "length k \<le> CFG_KEY_MAX" "length v \<le> CFG_VALUE_MAX"
    and "bump (unix_micros (ev_now (envs (bk_tick b)))) (bk_counter b) \<le> e_modified old"
    and "upsert_value envs k v None x b = (r, b')"
  shows "r = Inr () \<and> bk_store b' = bk_store b"
proof -
  obtain m b1 where m: "take_micros envs b = (m, b1)" by force
  note b1 = take_micros_store [OF m]
  have tick: "bk_tick b1 = Suc (bk_tick b)" "m \<le> e_modified old"
    using m assms(6) by (auto simp: take_micros_def next_micros_def Let_def)
  let ?row = "row_of CFG_CLASS k m x (Some (into_bytes v))"
  have "find_row e_pk (CFG_CLASS, k) (entries (st_sql (bk_store b))) = Some old"
    using assms(2) by (simp add: cfg_entry_def q_entry_def)
  then have "exec_upsert ?row (st_sql (bk_store b1)) = Inr (0, st_sql (bk_store b1))"
    using b1 tick(2) by (simp add: exec_upsert_def)
  then have "db_upsert (envs (bk_tick b1)) CFG_CLASS k m x (Some (into_bytes v)) (bk_store b1) = (Inr False, bk_store b1)"
    using assms(3-5) tick(1)
    by (simp add: db_upsert_def sql_upsert_def row_of_def CFG_KEY_MAX_def CFG_VALUE_MAX_def) (simp add: CFG_CLASS_def)
  then have "back_upsert envs k m x (into_bytes v) b1 = (Inr False, b1\<lparr>bk_tick := Suc (bk_tick b1)\<rparr>)"
    by (simp add: back_upsert_def)
  from first_attempt [OF m this] have "upsert_attempts envs 64 None k (into_bytes v) x b = (Inr (), b1\<lparr>bk_tick := Suc (bk_tick b1)\<rparr>)"
    by simp
  then show ?thesis using assms(4,5,7) b1 by (auto simp: upsert_value_def)
qed

definition restarted :: back_state where
  "restarted = \<lparr>bk_store = \<lparr>st_sql = \<lparr>entries = [cfg_row ''k'' 5 None ''old''], chunks = []\<rparr>, st_fs = []\<rparr>,
     bk_counter = 0, bk_tick = 0\<rparr>"

lemma restarted_simps [simp]: "back_wf restarted" "cfg_entry ''k'' restarted = Some (cfg_row ''k'' 5 None ''old'')"
  by (simp_all add: restarted_def back_wf_def tables_wf_def cfg_entry_def q_entry_def cfg_row_def)

theorem future_entry_not_overwritten_witness:
  "\<exists>b'. upsert_value (\<lambda>_. ok_env) ''k'' ''new'' None None restarted = (Inr (), b') \<and>
     cfg_entry ''k'' b' = Some (cfg_row ''k'' 5 None ''old'')"
proof -
  obtain r b' where run: "upsert_value (\<lambda>_. ok_env) ''k'' ''new'' None None restarted = (r, b')" by force
  have "bump (unix_micros (ev_now ok_env)) (bk_counter restarted) \<le> 5"
    by (simp add: restarted_def ok_env_def unix_micros_def micros_since_epoch_def bump_def i64_defs)
  then have "r = Inr () \<and> bk_store b' = bk_store restarted"
    by (intro future_entry_not_overwritten [OF restarted_simps _ _ _ _ run])
      (simp_all add: ok_env_def CFG_KEY_MAX_def CFG_VALUE_MAX_def)
  then show ?thesis using run restarted_simps(2) by (auto simp: cfg_entry_def)
qed

subsection \<open>Servers that exchange writes\<close>

text \<open>Every entry comes from one of the puts \<open>W\<close>.\<close>

definition only_from :: "(string \<times> int \<times> int option \<times> string) set \<Rightarrow> back_state \<Rightarrow> bool" where
  "only_from W b \<longleftrightarrow> back_wf b \<and> (\<forall>pk r. q_entry pk (st_sql (bk_store b)) = Some r \<longrightarrow>
     (\<exists>k m x v. (k, m, x, v) \<in> W \<and> pk = (CFG_CLASS, k) \<and> r = cfg_row k m x v))"

lemma only_from_step:
  assumes "only_from W b" "(k, m, x, v) \<in> W" "upsert_value envs k v (Some m) x b = (r, b')"
  shows "only_from W b'"
proof -
  have wf: "back_wf b" using assms(1) by (simp add: only_from_def)
  show ?thesis
  proof (cases r)
    case (Inl e)
    then have "bk_store b' = bk_store b" using upsert_value_result [OF assms(3) wf] by simp
    then show ?thesis using assms(1) by (simp add: only_from_def back_wf_def)
  next
    case (Inr u)
    then have w: "written k m x (into_bytes v) b b'" using upsert_value_result [OF assms(3) wf] by simp
    have "\<exists>k m x v. (k, m, x, v) \<in> W \<and> pk = (CFG_CLASS, k) \<and> q = cfg_row k m x v"
      if q: "q_entry pk (st_sql (bk_store b')) = Some q" for pk q
    proof -
      have "q_entry pk (st_sql (bk_store b')) =
          (if pk = (CFG_CLASS, k) then newest (cfg_row k m x v) (q_entry pk (st_sql (bk_store b)))
           else q_entry pk (st_sql (bk_store b)))" using w unfolding written_def cfg_row_def by blast
      then have "q_entry pk (st_sql (bk_store b)) = Some q \<or> pk = (CFG_CLASS, k) \<and> q = cfg_row k m x v"
        using q by (auto simp: newest_def split: if_splits option.splits)
      then show ?thesis using assms(1,2) unfolding only_from_def by blast
    qed
    then show ?thesis using w by (auto simp: only_from_def written_def)
  qed
qed

lemma only_from_succeeds:
  assumes "only_from W b" "(k, m, x, v) \<in> W" "inj_on (\<lambda>(k, m, x, v). m) W"
    and "ev_sql (envs (bk_tick b)) = sql_ok" "length k \<le> CFG_KEY_MAX" "length v \<le> CFG_VALUE_MAX"
    and "upsert_value envs k v (Some m) x b = (r, b')"
  shows "r = Inr ()"
proof -
  let ?b = "b\<lparr>bk_counter := fetch_max m (bk_counter b)\<rparr>"
  let ?row = "row_of CFG_CLASS k m x (Some (into_bytes v))"
  have wf: "tables_wf (st_sql (bk_store b))" using assms(1) by (simp add: only_from_def back_wf_def)
  have "\<not> (\<exists>pk q. pk \<noteq> e_pk ?row \<and> q_entry pk (st_sql (bk_store b)) = Some q \<and> e_modified q = e_modified ?row)"
  proof
    assume "\<exists>pk q. pk \<noteq> e_pk ?row \<and> q_entry pk (st_sql (bk_store b)) = Some q \<and> e_modified q = e_modified ?row"
    then obtain k' x' v' where "k' \<noteq> k" "(k', m, x', v') \<in> W"
      using assms(1) unfolding only_from_def by fastforce
    then show False using inj_onD [OF assms(3), of "(k', m, x', v')" "(k, m, x, v)"] assms(2) by simp
  qed
  then have "\<not> isl (exec_upsert ?row (st_sql (bk_store b)))"
    using exec_upsert_isl [OF wf, of ?row] by blast
  then have "\<not> isl (fst (db_upsert (envs (bk_tick b)) CFG_CLASS k m x (Some (into_bytes v)) (bk_store b)))"
    using db_upsert_isl [OF wf assms(4)] assms(5,6)
    by (simp add: CFG_KEY_MAX_def CFG_VALUE_MAX_def CFG_CLASS_def)
  then obtain a s' where "db_upsert (envs (bk_tick b)) CFG_CLASS k m x (Some (into_bytes v)) (bk_store b) = (Inr a, s')"
    by (metis isl_def prod.collapse sum.exhaust)
  then obtain b2 where "back_upsert envs k m x (into_bytes v) ?b = (Inr a, b2)"
    by (simp add: back_upsert_def)
  then show ?thesis using assms(5-7) by (auto simp: upsert_value_def)
qed

definition cfg_put_op :: "envs \<Rightarrow> string \<Rightarrow> int \<Rightarrow> int option \<Rightarrow> string \<Rightarrow> back_state \<Rightarrow> unit res \<times> back_state" where
  "cfg_put_op = (\<lambda>envs k m x v b. upsert_value envs k v (Some m) x b)"

text \<open>A put that no fault and no limit stands in the way of.\<close>

definition clean_put :: "(envs, string) put \<Rightarrow> bool" where
  "clean_put w = (case w of (envs, k, m, x, v) \<Rightarrow>
     (\<forall>n. ev_sql (envs n) = sql_ok) \<and> length k \<le> CFG_KEY_MAX \<and> length v \<le> CFG_VALUE_MAX)"

lemma puts_succeed:
  assumes "only_from W b" "inj_on (\<lambda>(k, m, x, v). m) W" "snd ` set ws \<subseteq> W" "\<forall>w \<in> set ws. clean_put w"
  shows "\<exists>t. puts cfg_put_op ws b = Some t"
  using assms(1,3,4)
proof (induction ws arbitrary: b)
  case (Cons w ws)
  obtain envs k m x v where w: "w = (envs, k, m, x, v)" by (metis surj_pair)
  obtain r b' where run: "upsert_value envs k v (Some m) x b = (r, b')" by force
  have inW: "(k, m, x, v) \<in> W" using Cons.prems(2) w by simp
  have "r = Inr ()"
    using only_from_succeeds [OF Cons.prems(1) inW assms(2) _ _ _ run] Cons.prems(3) w by (simp add: clean_put_def)
  moreover have "only_from W b'" by (rule only_from_step [OF Cons.prems(1) inW run])
  ultimately show ?case using Cons.IH [of b'] Cons.prems(2,3) run w by (simp add: cfg_put_op_def)
qed simp

text \<open>
  C17. Servers that accept the same writes converge: two servers whose config is the same, each given the same
  writes with explicit timestamps in its own order, any number of times and under any faults, have the same
  config after each of them was acknowledged, where no two different writes of one key have the same
  timestamp (of two such writes the first one stays, so servers that get them in different orders
  differ: \<open>ties_diverge\<close>). And they do acknowledge all of them, if they start with an empty database, no two
  different writes have one timestamp, and none meets a fault of sqlite or breaks a limit.
\<close>

theorem servers_converge:
  assumes "snd ` set ws1 = snd ` set ws2" "back_wf b1" "back_wf b2"
    and "\<forall>key. cfg_entry key b1 = cfg_entry key b2"
    and "inj_on (\<lambda>(k, m, x, v). (k, m)) (snd ` set ws1)"
  shows "(\<forall>t1 t2. puts cfg_put_op ws1 b1 = Some t1 \<and> puts cfg_put_op ws2 b2 = Some t2 \<longrightarrow>
      (\<forall>key. cfg_entry key t1 = cfg_entry key t2)) \<and>
    (entries (st_sql (bk_store b1)) = [] \<and> entries (st_sql (bk_store b2)) = [] \<and>
      inj_on (\<lambda>(k, m, x, v). m) (snd ` set ws1) \<and> (\<forall>w \<in> set ws1 \<union> set ws2. clean_put w) \<longrightarrow>
      (\<exists>t1 t2. puts cfg_put_op ws1 b1 = Some t1 \<and> puts cfg_put_op ws2 b2 = Some t2))"
proof (intro conjI allI impI)
  fix t1 t2 key
  assume "puts cfg_put_op ws1 b1 = Some t1 \<and> puts cfg_put_op ws2 b2 = Some t2"
  then show "cfg_entry key t1 = cfg_entry key t2"
    using cfg_puts.puts_converge [of ws1 b1 t1 ws2 b2 t2 key] assms unfolding cfg_put_op_def by blast
next
  assume h: "entries (st_sql (bk_store b1)) = [] \<and> entries (st_sql (bk_store b2)) = [] \<and>
      inj_on (\<lambda>(k, m, x, v). m) (snd ` set ws1) \<and> (\<forall>w \<in> set ws1 \<union> set ws2. clean_put w)"
  let ?W = "snd ` set ws1"
  have from_none: "only_from ?W b" if "entries (st_sql (bk_store b)) = []" "back_wf b" for b
    using that by (simp add: only_from_def q_entry_def)
  have inj: "inj_on (\<lambda>(k, m, x, v). m) ?W" using h by blast
  obtain t1 where "puts cfg_put_op ws1 b1 = Some t1"
    using puts_succeed [OF from_none [OF _ assms(2)] inj, of ws1] h by auto
  moreover obtain t2 where "puts cfg_put_op ws2 b2 = Some t2"
    using puts_succeed [OF from_none [OF _ assms(3)] inj, of ws2] h assms(1) by auto
  ultimately show "\<exists>t1 t2. puts cfg_put_op ws1 b1 = Some t1 \<and> puts cfg_put_op ws2 b2 = Some t2" by blast
qed

lemma ties_diverge:
  assumes "puts cfg_put_op [(e, k, m, x, v), (e', k, m, x', v')] b1 = Some t1"
    and "puts cfg_put_op [(f, k, m, x', v'), (f', k, m, x, v)] b2 = Some t2"
    and "back_wf b1" "back_wf b2" "cfg_entry k b1 = None" "cfg_entry k b2 = None"
  shows "cfg_entry k t1 = Some (cfg_row k m x v) \<and> cfg_entry k t2 = Some (cfg_row k m x' v')"
  using assms cfg_puts.first_of_tie unfolding cfg_put_op_def by blast

theorem servers_converge_witness:
  "\<exists>t1 t2. puts cfg_put_op [((\<lambda>_. ok_env), ''k'', 1, None, ''a''), ((\<lambda>_. ok_env), ''k'', 2, None, ''b'')] empty_back = Some t1 \<and>
     puts cfg_put_op [((\<lambda>_. ok_env), ''k'', 2, None, ''b''), ((\<lambda>_. ok_env), ''k'', 1, None, ''a'')] empty_back = Some t2 \<and>
     cfg_entry ''k'' t1 = cfg_entry ''k'' t2"
proof -
  let ?x = "((\<lambda>_. ok_env), ''k'', 1 :: int, None :: int option, ''a'')" and ?y = "((\<lambda>_. ok_env), ''k'', 2 :: int, None :: int option, ''b'')"
  have "snd ` set [?x, ?y] = snd ` set [?y, ?x]" by auto
  moreover have "inj_on (\<lambda>(k, m, x, v). (k, m)) (snd ` set [?x, ?y])" "inj_on (\<lambda>(k, m, x, v). m) (snd ` set [?x, ?y])"
    by (simp_all add: inj_on_def)
  moreover have "\<forall>w \<in> set [?x, ?y] \<union> set [?y, ?x]. clean_put w"
    by (simp add: clean_put_def ok_env_def CFG_KEY_MAX_def CFG_VALUE_MAX_def)
  moreover have "entries (st_sql (bk_store empty_back)) = []" by (simp add: empty_back_def empty_tables_def)
  moreover have "back_wf empty_back" by simp
  ultimately show ?thesis
    using servers_converge [of "[?x, ?y]" "[?y, ?x]" empty_back empty_back] by blast
qed

end
