(* ===== verification/Back_Read.thy ===== *)
theory Back_Read
  imports Back_Props
begin

section \<open>Reading the config and advertising addresses\<close>

text \<open>
  What \<open>read_all\<close> returns, that values stay text, and what a pass of \<open>announce_addrs\<close> leaves.
\<close>

subsection \<open>Reading\<close>

text \<open>The item of a row: its metadata as text, no text where there is none.\<close>

definition item_of :: "entry_row \<Rightarrow> cfg_get_item" where
  "item_of r = \<lparr>gi_key = e_key r,
     gi_value = (case e_metadata r of Some d \<Rightarrow> of_utf8_bytes d | None \<Rightarrow> []),
     gi_modified_at_micros = e_modified r, gi_expires_at_micros = e_expires r\<rparr>"

definition row_text :: "entry_row \<Rightarrow> bool" where
  "row_text r \<longleftrightarrow> (case e_metadata r of Some d \<Rightarrow> utf8_valid (of_utf8_bytes d) | None \<Rightarrow> True)"

definition values_text :: "back_state \<Rightarrow> bool" where
  "values_text b \<longleftrightarrow> (\<forall>key r. cfg_entry key b = Some r \<longrightarrow> row_text r)"

lemma item_of_cfg_row [simp]: "item_of (cfg_row k m x v) =
    \<lparr>gi_key = k, gi_value = v, gi_modified_at_micros = m, gi_expires_at_micros = x\<rparr>"
  by (simp add: item_of_def cfg_row_def row_of_def)

lemma row_text_cfg_row [simp]: "row_text (cfg_row k m x v) \<longleftrightarrow> utf8_valid v"
  by (simp add: row_text_def cfg_row_def)

lemma read_items_rows:
  "read_items (map (db_entry_of t CFG_CLASS) rows) =
     (if list_all row_text rows then Inr (map item_of rows)
      else Inl (io_other ''config value is not valid utf-8''))"
proof (induction rows)
  case (Cons r rows)
  then show ?case
    by (cases "e_metadata r") (auto simp: db_entry_of_def row_text_def item_of_def from_utf8_def Let_def)
qed simp

definition cfg_rows :: "back_state \<Rightarrow> entry_row list" where
  "cfg_rows b = order_rows (list_order KeyAsc) (selected CFG_CLASS FilterAll (st_sql (bk_store b)))"

lemma set_cfg_rows: "back_wf b \<Longrightarrow> set (cfg_rows b) = {r. \<exists>key. cfg_entry key b = Some r}"
  by (auto simp: cfg_rows_def set_selected cfg_entry_def back_wf_def q_entry_Some e_pk_def)

text \<open>A row limit that no table can reach.\<close>

definition listable :: "back_state \<Rightarrow> bool" where
  "listable b \<longleftrightarrow> int (length (entries (st_sql (bk_store b)))) \<le> i64_max"

lemma all_rows:
  assumes "listable b"
  shows "sql_limit i64_max (cfg_rows b) = cfg_rows b"
proof (rule sql_limit_all)
  have "length (order_rows ord rows) = length rows" for ord rows by (cases ord) simp_all
  then have "length (cfg_rows b) \<le> length (entries (st_sql (bk_store b)))"
    by (simp add: cfg_rows_def selected_def)
  then have "length (cfg_rows b) \<le> nat i64_max"
    using assms by (simp add: listable_def le_nat_iff i64_max_def)
  then show "length (cfg_rows b) \<le> nat i64_max \<or> i64_max < 0" by blast
qed

lemma filter_ok_All [simp]: "filter_ok FilterAll"
  by (simp add: filter_ok_def)

lemma read_all_Inr:
  assumes "read_all envs b = (Inr items, b')" "listable b"
  shows "items = map item_of (cfg_rows b) \<and> bk_store b' = bk_store b \<and> bk_counter b' = bk_counter b"
proof -
  obtain out where out: "sql_list (ev_sql (envs (bk_tick b))) CFG_CLASS FilterAll KeyAsc i64_max (st_sql (bk_store b)) = Inr out"
    and items: "read_items out = Inr items"
    and b': "b' = b\<lparr>bk_tick := Suc (bk_tick b)\<rparr>"
    using assms(1) by (auto simp: read_all_def db_list_def and_then_eq_Inr)
  have "out = map (db_entry_of (st_sql (bk_store b)) CFG_CLASS) (cfg_rows b)"
    using sql_list_Inr [OF out] all_rows [OF assms(2)] by (simp add: run_list_query_eq cfg_rows_def)
  then show ?thesis using items b' by (auto simp: read_items_rows split: if_splits)
qed

lemma read_all_ok:
  assumes "back_wf b" "listable b" "values_text b" "ev_sql (envs (bk_tick b)) = sql_ok"
  shows "read_all envs b = (Inr (map item_of (cfg_rows b)), b\<lparr>bk_tick := Suc (bk_tick b)\<rparr>)"
proof -
  have "list_all row_text (cfg_rows b)"
    using assms(3) by (auto simp: list_all_iff set_cfg_rows [OF assms(1)] values_text_def)
  moreover have "sql_limit i64_max (order_rows (list_order KeyAsc) (selected CFG_CLASS FilterAll (st_sql (bk_store b))))
      = cfg_rows b"
    using all_rows [OF assms(2)] by (simp add: cfg_rows_def)
  ultimately show ?thesis
    using assms(4) by (simp add: read_all_def db_list_def sql_list_ok read_items_rows del: order_rows.simps list_order.simps)
qed

lemma sorted_cfg_rows: "back_wf b \<Longrightarrow> sorted_wrt (<) (map gi_key (map item_of (cfg_rows b)))"
proof -
  assume "back_wf b"
  then have "sorted_wrt (precedes KeyAsc) (cfg_rows b)"
    unfolding cfg_rows_def back_wf_def by (rule sorted_selected)
  moreover have "precedes KeyAsc = (\<lambda>p q. e_key p < e_key q)" by (simp add: fun_eq_iff)
  ultimately show ?thesis by (simp add: sorted_wrt_map item_of_def)
qed

text \<open>Values stay text: only a write stores a value, and a Rust string is valid UTF-8.\<close>

lemma values_text_upsert:
  assumes "upsert_value envs k v modified x b = (r, b')" "back_wf b" "values_text b" "utf8_valid v"
  shows "values_text b'"
proof (cases r)
  case (Inl e)
  then have "bk_store b' = bk_store b" using upsert_value_result [OF assms(1,2)] by simp
  then show ?thesis using assms(3) by (simp add: values_text_def cfg_entry_def)
next
  case (Inr u)
  then obtain m where "written k m x (into_bytes v) b b'"
    using upsert_value_result [OF assms(1,2)] by auto
  then have "cfg_entry key b' = (if key = k then newest (cfg_row k m x v) (cfg_entry k b) else cfg_entry key b)" for key
    by (rule written_cfg_entry)
  then show ?thesis
    using assms(3,4) by (auto simp: values_text_def newest_def split: if_splits option.splits)
qed

subsection \<open>Advertising\<close>

text \<open>
  A pass with the counter ahead of the store: one new entry per address, with the same expiry, the
  other entries stay.
\<close>

lemma length_addr_key:
  assumes "is_ipv4 (sa_ip addr)"
  shows "length (addr_key addr) \<le> CFG_KEY_MAX"
proof -
  have small: "length (dec_digits n) \<le> 5" if "n < 100000" for n
  proof -
    have "length (dec_digits n) \<le> Suc k" if "n < 10 ^ Suc k" for n k
      using that
    proof (induction k arbitrary: n)
      case 0
      then show ?case by (simp add: dec_digits.simps [of n])
    next
      case (Suc k)
      then have "n div 10 < 10 ^ Suc k" by (simp add: less_mult_imp_div_less mult.commute)
      from Suc.IH [OF this] show ?case by (simp add: dec_digits.simps [of n])
    qed
    from this [of n 4] that show ?thesis by simp
  qed
  have byte: "length (dec_digits (unat x)) \<le> 5" for x :: u8
  proof (rule small)
    have "unat x < 256" using unsigned_less [of x, where 'a = nat] by simp
    then show "unat x < 100000" by linarith
  qed
  have port: "length (dec_digits (unat p)) \<le> 5" for p :: "16 word"
  proof (rule small)
    have "unat p < 65536" using unsigned_less [of p, where 'a = nat] by simp
    then show "unat p < 100000" by linarith
  qed
  obtain a b c d where "sa_ip addr = V4 a b c d" using assms by (cases "sa_ip addr") auto
  then show ?thesis
    using byte [of a] byte [of b] byte [of c] byte [of d] port [of "sa_port addr"]
    by (simp add: addr_key_def CFG_ADDR_PREFIX_def CFG_KEY_MAX_def addr_text_def v4_text_def)
qed

lemma announce_loop_result:
  assumes "announce_loop envs x addrs b = (Inr u, b')" "back_wf b"
  shows "back_wf b' \<and>
    (\<forall>key. (key \<notin> addr_key ` set addrs \<longrightarrow> cfg_entry key b' = cfg_entry key b) \<and>
       (key \<in> addr_key ` set addrs \<longrightarrow>
          cfg_entry key b' \<noteq> None \<and>
          (cfg_entry key b' = cfg_entry key b \<or> (\<exists>m. cfg_entry key b' = Some (cfg_row key m (Some x) [])))))"
  using assms
proof (induction addrs arbitrary: b)
  case (Cons addr addrs)
  obtain b1 where up: "upsert_value envs (addr_key addr) [] None (Some x) b = (Inr (), b1)"
    and run: "announce_loop envs x addrs b1 = (Inr u, b')"
    using Cons.prems(1) by (auto simp: then_st_Inr)
  have wf: "back_wf b1" by (rule upsert_value_wf [OF up Cons.prems(2)])
  obtain m where "written (addr_key addr) m (Some x) (into_bytes []) b b1"
    using upsert_value_result [OF up Cons.prems(2)] by auto
  then have e: "cfg_entry key b1 = (if key = addr_key addr
      then newest (cfg_row (addr_key addr) m (Some x) []) (cfg_entry (addr_key addr) b) else cfg_entry key b)" for key
    by (rule written_cfg_entry)
  note IH = Cons.IH [OF run wf]
  have mine: "cfg_entry (addr_key addr) b1 \<noteq> None \<and> (cfg_entry (addr_key addr) b1 = cfg_entry (addr_key addr) b \<or>
      (\<exists>m. cfg_entry (addr_key addr) b1 = Some (cfg_row (addr_key addr) m (Some x) [])))"
    using e [of "addr_key addr"] by (auto simp: newest_def split: option.splits)
  show ?case
  proof (intro conjI allI)
    show "back_wf b'" using IH by simp
  next
    fix key
    show "key \<notin> addr_key ` set (addr # addrs) \<longrightarrow> cfg_entry key b' = cfg_entry key b"
      using IH e [of key] by auto
  next
    fix key
    show "key \<in> addr_key ` set (addr # addrs) \<longrightarrow> cfg_entry key b' \<noteq> None \<and>
        (cfg_entry key b' = cfg_entry key b \<or> (\<exists>m. cfg_entry key b' = Some (cfg_row key m (Some x) [])))"
      using IH e [of key] mine by (cases "key = addr_key addr"; cases "key \<in> addr_key ` set addrs") (auto; metis)+
  qed
qed simp

subsection \<open>Properties\<close>

text \<open>
  Reading the config returns the config: a read that succeeds gives one item for every entry of
  the config class and no other, with its key, value, timestamp and expiry, strictly sorted by key, and
  changes nothing; and it does succeed where every stored value is text and sqlite meets no fault.
\<close>

lemma read_all_correct:
  assumes "back_wf b" "listable b" "read_all envs b = (r, b')"
  shows "bk_store b' = bk_store b \<and>
    (\<forall>items. r = Inr items \<longrightarrow> sorted_wrt (<) (map gi_key items) \<and>
       set items = {item_of q |q key. cfg_entry key b = Some q}) \<and>
    (values_text b \<and> ev_sql (envs (bk_tick b)) = sql_ok \<longrightarrow> (\<exists>items. r = Inr items))"
proof (intro conjI allI impI)
  show "bk_store b' = bk_store b" using assms(3) by (auto simp: read_all_def)
next
  fix items
  assume "r = Inr items"
  then have items: "items = map item_of (cfg_rows b)" using read_all_Inr assms(2,3) by blast
  then show "sorted_wrt (<) (map gi_key items)" using sorted_cfg_rows [OF assms(1)] by simp
  show "set items = {item_of q |q key. cfg_entry key b = Some q}"
    using items set_cfg_rows [OF assms(1)] by auto
next
  assume "values_text b \<and> ev_sql (envs (bk_tick b)) = sql_ok"
  then show "\<exists>items. r = Inr items" using read_all_ok [OF assms(1,2)] assms(3) by auto
qed

lemma read_all_correct_witness:
  "\<exists>items b'. read_all (\<lambda>_. ok_env) restarted = (Inr items, b') \<and>
     set items = {\<lparr>gi_key = ''k'', gi_value = ''old'', gi_modified_at_micros = 5, gi_expires_at_micros = None\<rparr>}"
proof -
  obtain r b' where run: "read_all (\<lambda>_. ok_env) restarted = (r, b')" by force
  have entry: "cfg_entry key restarted = (if key = ''k'' then Some (cfg_row ''k'' 5 None ''old'') else None)" for key
    by (simp add: restarted_def cfg_entry_def q_entry_def cfg_row_def)
  have "listable restarted" by (simp add: listable_def restarted_def i64_max_def)
  moreover have "values_text restarted" by (simp add: values_text_def entry Let_def)
  ultimately obtain items where "r = Inr items" "set items = {item_of q |q key. cfg_entry key restarted = Some q}"
    using read_all_correct [OF restarted_simps(1) _ run] by (auto simp: ok_env_def)
  then show ?thesis using run by (auto simp: entry)
qed

text \<open>
  A pass of the advertiser that succeeds leaves for every bound address an entry under its own key:
  the new one, without a value and expiring 120 seconds from the start of the pass (saturating), or the
  one that was there; every other entry stays. Different IPv4 addresses have different keys, and a key
  never exceeds the limit.
\<close>

lemma announce_correct:
  assumes "back_wf b" "announce_addrs envs addrs b = (Inr u, b')"
  shows "(\<forall>addr \<in> set addrs. cfg_entry (addr_key addr) b' \<noteq> None \<and>
      (cfg_entry (addr_key addr) b' = cfg_entry (addr_key addr) b \<or>
       (\<exists>m. cfg_entry (addr_key addr) b' = Some (cfg_row (addr_key addr) m
          (Some (min i64_max (max i64_min (unix_micros (ev_now (envs (bk_tick b))) + 120000000)))) [])))) \<and>
    (\<forall>key. key \<notin> addr_key ` set addrs \<longrightarrow> cfg_entry key b' = cfg_entry key b) \<and>
    (\<forall>x y. is_ipv4 (sa_ip x) \<and> is_ipv4 (sa_ip y) \<longrightarrow>
       (addr_key x = addr_key y \<longleftrightarrow> x = y) \<and> length (addr_key x) \<le> CFG_KEY_MAX)"
proof -
  let ?b = "b\<lparr>bk_tick := Suc (bk_tick b)\<rparr>"
  let ?x = "saturating_add_i64 (unix_micros (ev_now (envs (bk_tick b)))) CFG_ADDR_TTL_MICROS"
  have x: "?x = min i64_max (max i64_min (unix_micros (ev_now (envs (bk_tick b))) + 120000000))"
    by (simp add: saturating_add_i64_def CFG_ADDR_TTL_MICROS_def i64_max_def i64_min_def max_def min_def)
  have loop: "announce_loop envs ?x addrs ?b = (Inr u, b')"
    using assms(2) by (simp add: announce_addrs_def Let_def)
  have wf: "back_wf ?b" using assms(1) by (simp add: back_wf_def)
  have same: "cfg_entry key ?b = cfg_entry key b" for key by (simp add: cfg_entry_def)
  have "addr_key p = addr_key q \<longleftrightarrow> p = q" if "is_ipv4 (sa_ip p)" "is_ipv4 (sa_ip q)" for p q
    using addr_text_v4_inject [OF that] by (simp add: addr_key_def)
  then show ?thesis
    using announce_loop_result [OF loop wf] length_addr_key unfolding same x by blast
qed

lemma announce_correct_witness:
  "\<exists>r b'. announce_addrs (\<lambda>_. ok_env) [\<lparr>sa_ip = V4 10 0 0 7, sa_port = 22002\<rparr>] empty_back = (r, b') \<and>
     (r = Inr () \<longrightarrow> cfg_entry (addr_key \<lparr>sa_ip = V4 10 0 0 7, sa_port = 22002\<rparr>) b' \<noteq> None)"
proof -
  obtain r b' where "announce_addrs (\<lambda>_. ok_env) [\<lparr>sa_ip = V4 10 0 0 7, sa_port = 22002\<rparr>] empty_back = (r, b')"
    by force
  then show ?thesis using announce_correct [OF back_wf_empty] by fastforce
qed

end
