(* ===== verification/Chan.thy ===== *)
theory Chan
  imports Http Net
begin

section \<open>The channel server\<close>

text \<open>
  \<open>rs/v-m-io-chan/src/lib.rs\<close>: authorization, routing, body limits and dispatch of a request,
  the construction of the handler map and of the server. Handlers and the authorization callback
  act on a state \<open>'s\<close>, which is whatever they share (the backend's database); a \<open>HashMap\<close> is a
  map.
\<close>

record 's handler =
  h_req :: string
  h_handle :: "bytes \<Rightarrow> 's \<Rightarrow> bytes res \<times> 's"

record 's srv_inner =
  si_auth_cb :: "string \<Rightarrow> 's \<Rightarrow> status res \<times> 's"
  si_handlers :: "string \<Rightarrow> 's handler option"

definition HEALTH_REQ :: string where
  "HEALTH_REQ = ''__health''"

definition MAX_BODY :: nat where
  "MAX_BODY = 16 * 1024 * 1024"

text \<open>\<open>HealthHandler\<close>.\<close>

definition health_handle :: "bytes \<Rightarrow> 's \<Rightarrow> bytes res \<times> 's" where
  "health_handle req s =
     (if req = [] then (Inr [], s)
      else (Inl (io_invalid ''health check does not accept a body''), s))"

definition health_handler :: "'s handler" where
  "health_handler = \<lparr>h_req = HEALTH_REQ, h_handle = health_handle\<rparr>"

definition resp :: "status \<Rightarrow> bytes \<Rightarrow> http_response" where
  "resp code body =
     \<lparr>rs_status = code, rs_content_type = None, rs_retry_after = None, rs_body = body\<rparr>"

definition resp_text :: "status \<Rightarrow> string \<Rightarrow> http_response" where
  "resp_text code body =
     (resp code (into_bytes body))\<lparr>rs_content_type := Some ''text/plain; charset=utf-8''\<rparr>"

subsection \<open>A request\<close>

text \<open>Exactly one non-empty path segment selects the handler.\<close>

definition route_name :: "string \<Rightarrow> string option" where
  "route_name path =
     (if path = ''/'' then None
      else (let name = (case strip_prefix ''/'' path of Some n \<Rightarrow> n | None \<Rightarrow> path) in
        if name = [] \<or> str_contains name (CHR ''/'') then None else Some name))"

text \<open>The declared length, where there is one that parses.\<close>

definition declared_length :: "'b http_lib \<Rightarrow> 'b http_request \<Rightarrow> nat option" where
  "declared_length hl req =
     Option.bind (Option.bind (rq_content_length req) (hl_to_str hl)) parse_u64"

text \<open>
  The four stages of \<open>handle_request\<close>, in the order of the code: authorization, routing, body,
  dispatch. The first three end with a response or let the request through.
\<close>

definition authorize ::
  "'b http_lib \<Rightarrow> 's srv_inner \<Rightarrow> 'b http_request \<Rightarrow> 's \<Rightarrow> (http_response + unit) \<times> 's" where
  "authorize hl inner req s =
     (case Option.bind (rq_authorization req) (hl_to_str hl) of
        None \<Rightarrow> (Inl (resp_text UNAUTHORIZED ''missing or invalid authorization''), s)
      | Some auth_val \<Rightarrow>
          (case si_auth_cb inner auth_val s of
             (Inl err, s1) \<Rightarrow> (Inl (resp_text INTERNAL_SERVER_ERROR (err_to_string err)), s1)
           | (Inr code, s1) \<Rightarrow>
               (if code = OK then Inr ()
                else Inl (resp_text code (case hl_reason hl code of Some r \<Rightarrow> r | None \<Rightarrow> [])), s1)))"

definition route :: "'s srv_inner \<Rightarrow> 'b http_request \<Rightarrow> http_response + 's handler" where
  "route inner req =
     (case Option.bind (route_name (rq_path req)) (si_handlers inner) of
        Some h \<Rightarrow> Inr h | None \<Rightarrow> Inl (resp_text NOT_FOUND ''not found''))"

definition too_large :: http_response where
  "too_large = resp_text PAYLOAD_TOO_LARGE ''payload exceeds maximum size limit''"

definition read_body :: "'b http_lib \<Rightarrow> 'b http_request \<Rightarrow> http_response + bytes" where
  "read_body hl req =
     (if (case declared_length hl req of Some len \<Rightarrow> len > MAX_BODY | None \<Rightarrow> False) then Inl too_large
      else (case hl_collect hl MAX_BODY (rq_body req) of
         Collected body \<Rightarrow> Inr body
       | LengthLimit \<Rightarrow> Inl too_large
       | ReadError \<Rightarrow> Inl (resp_text BAD_REQUEST ''failed to read stream or malformed payload'')))"

definition dispatch :: "'s handler \<Rightarrow> bytes \<Rightarrow> 's \<Rightarrow> http_response \<times> 's" where
  "dispatch h body s = (case h_handle h body s of
      (Inr out, s2) \<Rightarrow> (resp OK out, s2)
    | (Inl err, s2) \<Rightarrow> (resp_text INTERNAL_SERVER_ERROR (err_to_string err), s2))"

definition handle_request ::
  "'b http_lib \<Rightarrow> 's srv_inner \<Rightarrow> 'b http_request \<Rightarrow> 's \<Rightarrow> http_response \<times> 's" where
  "handle_request hl inner req s =
     (case authorize hl inner req s of
        (Inl res, s1) \<Rightarrow> (res, s1)
      | (Inr _, s1) \<Rightarrow>
          (case route inner req of
             Inl res \<Rightarrow> (res, s1)
           | Inr h \<Rightarrow>
               (case read_body hl req of
                  Inl res \<Rightarrow> (res, s1)
                | Inr body \<Rightarrow> dispatch h body s1)))"

subsection \<open>The server\<close>

record 's chan_srv_config =
  sc_auth_cb :: "string \<Rightarrow> 's \<Rightarrow> status res \<times> 's"
  sc_handlers :: "'s handler list"
  sc_bind :: "socket_addr list"

record 's chan_srv =
  cs_local_addrs :: "socket_addr list"
  cs_inner :: "'s srv_inner"

text \<open>The loop over \<open>config.handlers\<close>: a name that was there already is an error.\<close>

fun insert_handlers :: "'s handler list \<Rightarrow> (string \<Rightarrow> 's handler option) \<Rightarrow> (string \<Rightarrow> 's handler option) res" where
  "insert_handlers [] m = Inr m"
| "insert_handlers (h # hs) m =
     (if m (h_req h) \<noteq> None then Inl (io_invalid (''duplicate handler req: '' @ h_req h))
      else insert_handlers hs (m(h_req h \<mapsto> h)))"

text \<open>\<open>collect::<Result<Vec<_>>>\<close> and \<open>try_join_all\<close>: all the values, or an error.\<close>

fun collect_res :: "('a \<Rightarrow> 'b res) \<Rightarrow> 'a list \<Rightarrow> ('b list) res" where
  "collect_res f [] = Inr []"
| "collect_res f (x # xs) = and_then (f x) (\<lambda>y. and_then (collect_res f xs) (\<lambda>ys. Inr (y # ys)))"

text \<open>
  \<open>ChanSrv::new\<close>. The interface list, the binding of a listener (\<open>'l\<close>) and its local address are
  the operating system's.
\<close>

definition chan_srv_new ::
  "(iface list) res \<Rightarrow> (socket_addr \<Rightarrow> 'l res) \<Rightarrow> ('l \<Rightarrow> socket_addr res) \<Rightarrow> 's chan_srv_config \<Rightarrow> 's chan_srv res" where
  "chan_srv_new show_ifaces bind_listener local_addr config =
     and_then (insert_handlers (sc_handlers config) [HEALTH_REQ \<mapsto> health_handler]) (\<lambda>handlers.
     and_then (resolve_bind_addrs show_ifaces (sc_bind config)) (\<lambda>bind.
     and_then (collect_res bind_listener bind) (\<lambda>listeners.
     and_then (collect_res local_addr listeners) (\<lambda>local_addrs.
     Inr \<lparr>cs_local_addrs = local_addrs,
          cs_inner = \<lparr>si_auth_cb = sc_auth_cb config, si_handlers = handlers\<rparr>\<rparr>))))"

subsection \<open>Lemmas\<close>

lemma status_resp [simp]: "rs_status (resp c b) = c" "rs_status (resp_text c t) = c"
  by (simp_all add: resp_def resp_text_def)

lemma body_resp [simp]: "rs_body (resp c b) = b" "rs_body (resp_text c t) = into_bytes t"
  by (simp_all add: resp_def resp_text_def)

lemma route_name_Some:
  "route_name path = Some n \<longleftrightarrow> n \<noteq> [] \<and> CHR ''/'' \<notin> set n \<and> (path = CHR ''/'' # n \<or> path = n)"
proof (cases path)
  case Nil
  then show ?thesis by (auto simp: route_name_def strip_prefix_def)
next
  case (Cons c p)
  then show ?thesis
    by (cases "c = CHR ''/''") (auto simp: route_name_def strip_prefix_def str_contains_def Let_def)
qed

text \<open>When a request reaches its handler: the handler, the collected body, the state it starts in.\<close>

definition admitted ::
  "'b http_lib \<Rightarrow> 's srv_inner \<Rightarrow> 'b http_request \<Rightarrow> 's \<Rightarrow> 's handler \<Rightarrow> bytes \<Rightarrow> 's \<Rightarrow> bool" where
  "admitted hl inner req s h body s1 \<longleftrightarrow>
     (\<exists>v auth_val name. rq_authorization req = Some v \<and> hl_to_str hl v = Some auth_val \<and>
        si_auth_cb inner auth_val s = (Inr OK, s1) \<and>
        route_name (rq_path req) = Some name \<and> si_handlers inner name = Some h) \<and>
     (\<forall>len. declared_length hl req = Some len \<longrightarrow> len \<le> MAX_BODY) \<and>
     hl_collect hl MAX_BODY (rq_body req) = Collected body"

text \<open>The state is the one before, or the one the callback left.\<close>

definition auth_left :: "'s srv_inner \<Rightarrow> 's \<Rightarrow> 's \<Rightarrow> bool" where
  "auth_left inner s s' \<longleftrightarrow> s' = s \<or> (\<exists>auth_val. s' = snd (si_auth_cb inner auth_val s))"

lemma authorize_Inl:
  assumes "authorize hl inner req s = (Inl res, s1)"
  shows "rs_status res \<noteq> OK \<and> auth_left inner s s1"
proof (cases "Option.bind (rq_authorization req) (hl_to_str hl)")
  case None
  with assms show ?thesis by (auto simp: authorize_def status_defs auth_left_def)
next
  case (Some auth_val)
  obtain r s2 where auth: "si_auth_cb inner auth_val s = (r, s2)" by force
  then have "s1 = s2" "rs_status res \<noteq> OK"
    using assms Some by (cases r; auto simp: authorize_def status_defs split: if_splits)+
  with auth show ?thesis by (metis auth_left_def snd_conv)
qed

lemma authorize_Inr: "authorize hl inner req s = (Inr u, s1) \<longleftrightarrow>
    (\<exists>v auth_val. rq_authorization req = Some v \<and> hl_to_str hl v = Some auth_val \<and>
       si_auth_cb inner auth_val s = (Inr OK, s1))"
  by (cases "rq_authorization req"; cases "Option.bind (rq_authorization req) (hl_to_str hl)")
    (auto simp: authorize_def split: prod.splits sum.splits if_splits)

lemma route_Inl: "route inner req = Inl res \<Longrightarrow> rs_status res \<noteq> OK"
  by (auto simp: route_def status_defs split: option.splits)

lemma route_Inr: "route inner req = Inr h \<longleftrightarrow>
    (\<exists>name. route_name (rq_path req) = Some name \<and> si_handlers inner name = Some h)"
  by (auto simp: route_def bind_eq_Some_conv split: option.splits)

lemma read_body_Inl: "read_body hl req = Inl res \<Longrightarrow> rs_status res \<noteq> OK"
  by (auto simp: read_body_def too_large_def status_defs split: option.splits if_splits body_result.splits)

lemma read_body_Inr: "read_body hl req = Inr body \<longleftrightarrow>
    (\<forall>len. declared_length hl req = Some len \<longrightarrow> len \<le> MAX_BODY) \<and>
    hl_collect hl MAX_BODY (rq_body req) = Collected body"
  by (auto simp: read_body_def split: option.splits if_splits body_result.splits)

lemma admitted_stages:
  "admitted hl inner req s h body s1 \<longleftrightarrow>
     authorize hl inner req s = (Inr (), s1) \<and> route inner req = Inr h \<and> read_body hl req = Inr body"
  unfolding admitted_def authorize_Inr route_Inr read_body_Inr by blast

lemma handle_admitted:
  "admitted hl inner req s h body s1 \<Longrightarrow> handle_request hl inner req s = dispatch h body s1"
  by (simp add: admitted_stages handle_request_def)

lemma handle_rejected:
  assumes "\<And>h body s1. \<not> admitted hl inner req s h body s1" "handle_request hl inner req s = (res, s')"
  shows "rs_status res \<noteq> OK \<and> auth_left inner s s'"
proof -
  obtain r s1 where auth: "authorize hl inner req s = (r, s1)" by force
  show ?thesis
  proof (cases r)
    case (Inl res1)
    then have "res = res1" "s' = s1" using auth assms(2) by (simp_all add: handle_request_def)
    then show ?thesis using authorize_Inl [of hl inner req s res1 s1] auth Inl by simp
  next
    case (Inr u)
    then obtain auth_val where "si_auth_cb inner auth_val s = (Inr OK, s1)"
      using auth authorize_Inr [of hl inner req s u s1] by blast
    then have left: "auth_left inner s s1" by (metis auth_left_def snd_conv)
    have "(\<exists>r. route inner req = Inl r) \<or> (\<exists>r. read_body hl req = Inl r)"
      using assms(1) auth Inr by (cases "route inner req"; cases "read_body hl req") (auto simp: admitted_stages)
    then have "s' = s1 \<and> (route inner req = Inl res \<or> read_body hl req = Inl res)"
      using assms(2) auth Inr
      by (cases "route inner req"; cases "read_body hl req") (auto simp: handle_request_def)
    then have "s' = s1" "rs_status res \<noteq> OK"
      using route_Inl [of inner req res] read_body_Inl [of hl req res] by blast+
    with left show ?thesis by simp
  qed
qed

text \<open>The handler map.\<close>

lemma insert_handlers_Inr:
  "insert_handlers hs m = Inr m' \<longleftrightarrow>
     distinct (map h_req hs) \<and> (\<forall>h \<in> set hs. m (h_req h) = None) \<and>
     m' = (\<lambda>n. case find (\<lambda>h. h_req h = n) hs of Some h \<Rightarrow> Some h | None \<Rightarrow> m n)"
proof (induction hs arbitrary: m)
  case Nil
  then show ?case by auto
next
  case (Cons h hs)
  show ?case
  proof (cases "m (h_req h)")
    case None
    have fresh: "(\<forall>x \<in> set hs. (m(h_req h \<mapsto> h)) (h_req x) = None) \<longleftrightarrow>
        h_req h \<notin> h_req ` set hs \<and> (\<forall>x \<in> set hs. m (h_req x) = None)"
      by (auto simp: image_iff split: if_splits)
    have map_eq: "(\<lambda>n. case find (\<lambda>x. h_req x = n) hs of Some x \<Rightarrow> Some x | None \<Rightarrow> (m(h_req h \<mapsto> h)) n)
        = (\<lambda>n. case find (\<lambda>x. h_req x = n) (h # hs) of Some x \<Rightarrow> Some x | None \<Rightarrow> m n)"
      if "h_req h \<notin> h_req ` set hs"
    proof -
      have "find (\<lambda>x. h_req x = h_req h) hs = None"
        using that unfolding find_None_iff by (metis imageI)
      then show ?thesis by (auto simp: fun_eq_iff split: option.split)
    qed
    have "insert_handlers (h # hs) m = Inr m' \<longleftrightarrow> insert_handlers hs (m(h_req h \<mapsto> h)) = Inr m'"
      using None by simp
    also have "\<dots> \<longleftrightarrow> distinct (map h_req (h # hs)) \<and> (\<forall>x \<in> set (h # hs). m (h_req x) = None) \<and>
        m' = (\<lambda>n. case find (\<lambda>x. h_req x = n) (h # hs) of Some x \<Rightarrow> Some x | None \<Rightarrow> m n)"
    proof (cases "h_req h \<in> h_req ` set hs")
      case True
      then show ?thesis unfolding Cons.IH fresh by simp
    next
      case False
      show ?thesis unfolding Cons.IH fresh map_eq [OF False] using None False by simp
    qed
    finally show ?thesis .
  qed simp
qed

lemma collect_res_Inr: "collect_res f xs = Inr ys \<longleftrightarrow> list_all2 (\<lambda>x y. f x = Inr y) xs ys"
  by (induction xs arbitrary: ys) (auto simp: and_then_eq_Inr list_all2_Cons1)

subsection \<open>Properties\<close>

text \<open>
  C19. The gate in front of the handlers: a response is 200 exactly when the request carried a
  readable authorization value that the callback answered with 200, named an existing handler in a
  single non-empty path segment, declared and had a body within the limit, and that handler
  succeeded on the body (at most 16 MiB); then the response is the handler's output. A request that
  does not get that far runs no handler: the state is what the callback, if consulted, left.
\<close>

theorem handle_request_gate:
  assumes "http_ok hl" "handle_request hl inner req s = (res, s')"
  shows "(rs_status res = OK \<longleftrightarrow>
      (\<exists>h body s1 out. admitted hl inner req s h body s1 \<and> length body \<le> MAX_BODY \<and>
         h_handle h body s1 = (Inr out, s') \<and> res = resp OK out)) \<and>
    ((\<exists>h body s1. admitted hl inner req s h body s1 \<and> s' = snd (h_handle h body s1)) \<or> auth_left inner s s')"
proof (cases "\<exists>h body s1. admitted hl inner req s h body s1")
  case True
  then obtain h body s1 where adm: "admitted hl inner req s h body s1" by blast
  have run: "dispatch h body s1 = (res, s')" using handle_admitted [OF adm] assms(2) by simp
  have len: "length body \<le> MAX_BODY" using adm assms(1) by (auto simp: admitted_def http_ok_def)
  have unique: "h' = h \<and> body' = body \<and> s1' = s1" if "admitted hl inner req s h' body' s1'" for h' body' s1'
    using adm that by (simp add: admitted_stages)
  have state: "s' = snd (h_handle h body s1)"
    using run by (auto simp: dispatch_def split: prod.splits sum.splits)
  have "rs_status res = OK \<longleftrightarrow> (\<exists>out. h_handle h body s1 = (Inr out, s') \<and> res = resp OK out)"
    using run by (auto simp: dispatch_def status_defs split: prod.splits sum.splits)
  then show ?thesis using adm unique len state by metis
next
  case False
  then have "rs_status res \<noteq> OK \<and> auth_left inner s s'"
    using handle_rejected [of hl inner req s res s'] assms(2) by metis
  then show ?thesis using False by metis
qed

definition demo_inner :: "nat srv_inner" where
  "demo_inner = \<lparr>si_auth_cb = (\<lambda>v s. (Inr (if v = ''Bearer test'' then OK else UNAUTHORIZED), s)),
     si_handlers = [HEALTH_REQ \<mapsto> health_handler]\<rparr>"

definition demo_request :: "string \<Rightarrow> string \<Rightarrow> bytes \<Rightarrow> bytes http_request" where
  "demo_request path auth body = \<lparr>rq_path = path, rq_authorization = Some (into_bytes auth),
     rq_content_length = None, rq_body = body\<rparr>"

theorem handle_request_gate_witness:
  "rs_status (fst (handle_request demo_http demo_inner (demo_request ''/__health'' ''Bearer bad'' []) 5)) \<noteq> OK"
proof -
  let ?req = "demo_request ''/__health'' ''Bearer bad'' []"
  obtain res s' where run: "handle_request demo_http demo_inner ?req 5 = (res, s')" by force
  have "\<not> admitted demo_http demo_inner ?req 5 h body s1" for h body s1
    by (simp add: admitted_def demo_request_def demo_inner_def demo_http_def status_defs)
  then show ?thesis using handle_request_gate [OF http_ok_demo run] run by auto
qed

lemma insert_handlers_Inl:
  "insert_handlers hs m = Inl e \<Longrightarrow>
     \<exists>h \<in> set hs. e = io_invalid (''duplicate handler req: '' @ h_req h)"
  by (induction hs arbitrary: m) (auto split: if_splits)

lemma find_h_req:
  assumes "distinct (map h_req hs)" "h \<in> set hs"
  shows "find (\<lambda>x. h_req x = h_req h) hs = Some h"
  using assms by (induction hs) (auto simp: rev_image_eqI)

lemma collect_res_length: "collect_res f xs = Inr ys \<Longrightarrow> length ys = length xs"
  by (metis collect_res_Inr list_all2_lengthD)

lemma chan_srv_new_result:
  "case chan_srv_new show_ifaces bind_listener local_addr config of
     Inr srv \<Rightarrow>
       distinct (HEALTH_REQ # map h_req (sc_handlers config)) \<and>
       si_handlers (cs_inner srv) = map_of ((HEALTH_REQ, health_handler) #
         map (\<lambda>h. (h_req h, h)) (sc_handlers config)) \<and>
       si_auth_cb (cs_inner srv) = sc_auth_cb config \<and>
       (\<exists>bind. resolve_bind_addrs show_ifaces (sc_bind config) = Inr bind \<and>
          length (cs_local_addrs srv) = length bind)
   | Inl e \<Rightarrow>
       distinct (HEALTH_REQ # map h_req (sc_handlers config)) \<or>
       (\<exists>h \<in> set (sc_handlers config). e = io_invalid (''duplicate handler req: '' @ h_req h))"
proof (cases "insert_handlers (sc_handlers config) [HEALTH_REQ \<mapsto> health_handler]")
  case (Inl e)
  then show ?thesis using insert_handlers_Inl [OF Inl] by (simp add: chan_srv_new_def)
next
  case (Inr handlers)
  let ?hs = "sc_handlers config"
  have names: "distinct (map h_req ?hs)" "\<forall>h \<in> set ?hs. h_req h \<noteq> HEALTH_REQ"
    and m: "handlers = (\<lambda>n. case find (\<lambda>h. h_req h = n) ?hs of Some h \<Rightarrow> Some h
      | None \<Rightarrow> [HEALTH_REQ \<mapsto> health_handler] n)"
    using Inr unfolding insert_handlers_Inr by (auto split: if_splits)
  have all: "distinct (HEALTH_REQ # map h_req ?hs)" using names by auto
  have "handlers = map_of ((HEALTH_REQ, health_handler) # map (\<lambda>h. (h_req h, h)) ?hs)"
  proof
    fix n
    have eq: "map_of (map (\<lambda>h. (h_req h, h)) hs) n = find (\<lambda>h. h_req h = n) hs" for hs :: "'a handler list"
      by (induction hs) auto
    have none: "find (\<lambda>h. h_req h = HEALTH_REQ) ?hs = None"
      unfolding find_None_iff using names(2) by blast
    show "handlers n = map_of ((HEALTH_REQ, health_handler) # map (\<lambda>h. (h_req h, h)) ?hs) n"
      using none by (cases "n = HEALTH_REQ"; cases "find (\<lambda>h. h_req h = n) ?hs") (simp_all add: m eq)
  qed
  then show ?thesis
    using Inr all
    by (auto simp: chan_srv_new_def and_then_eq_Inr dest!: collect_res_length split: sum.split)
qed

text \<open>
  A server that was built has a well-defined handler map: the health check and exactly the
  configured handlers, each under its own name, with the configured callback; the names are
  pairwise distinct and none is the health check's, else the construction fails with the name that
  is taken, whatever the network does (nothing was bound yet). There is one local address for every
  address bound.
\<close>

lemma chan_srv_new_correct:
  "case chan_srv_new show_ifaces bind_listener local_addr config of
     Inr srv \<Rightarrow>
       distinct (HEALTH_REQ # map h_req (sc_handlers config)) \<and>
       si_handlers (cs_inner srv) = map_of ((HEALTH_REQ, health_handler) #
         map (\<lambda>h. (h_req h, h)) (sc_handlers config)) \<and>
       si_auth_cb (cs_inner srv) = sc_auth_cb config \<and>
       (\<exists>bind. resolve_bind_addrs show_ifaces (sc_bind config) = Inr bind \<and>
          length (cs_local_addrs srv) = length bind)
   | Inl e \<Rightarrow>
       distinct (HEALTH_REQ # map h_req (sc_handlers config)) \<or>
       (\<exists>h \<in> set (sc_handlers config). e = io_invalid (''duplicate handler req: '' @ h_req h))"
  by (rule chan_srv_new_result)

definition demo_config :: "nat chan_srv_config" where
  "demo_config = \<lparr>sc_auth_cb = si_auth_cb demo_inner,
     sc_handlers = [\<lparr>h_req = ''a'', h_handle = health_handle\<rparr>, \<lparr>h_req = ''a'', h_handle = health_handle\<rparr>],
     sc_bind = []\<rparr>"

lemma chan_srv_new_correct_witness:
  "\<exists>e. chan_srv_new (Inr []) (\<lambda>a. Inr a) (\<lambda>a. Inr a) demo_config = Inl e \<and>
     e = io_invalid ''duplicate handler req: a''"
proof -
  obtain r where r: "chan_srv_new (Inr []) (\<lambda>a. Inr a) (\<lambda>a. Inr a) demo_config = r" by blast
  have "\<not> distinct (HEALTH_REQ # map h_req (sc_handlers demo_config))" by (simp add: demo_config_def)
  then show ?thesis
    using chan_srv_new_correct [where show_ifaces = "Inr []" and bind_listener = "\<lambda>a. Inr a" and
      local_addr = "\<lambda>a. Inr a" and config = demo_config] r
    by (cases r) (auto simp: demo_config_def)
qed

end
