(* ===== verification/Chan_Cli.thy ===== *)
theory Chan_Cli
  imports Chan Addr_Text Api
begin

section \<open>The channel client\<close>

text \<open>
  \<open>ChanCli\<close> of \<open>rs/v-m-io-chan/src/lib.rs\<close> and \<open>ChanCliCfgExt\<close> of \<open>rs/v-m-io-chan/src/cfg.rs\<close>.
  The crate \<open>reqwest\<close> is a parameter: building a client, and sending a request with its url,
  authorization value and body, which gives a status and a body that may fail to arrive. \<open>'s\<close> is the
  state of the world, that is, of the servers.
\<close>

record 's net =
  nt_build :: "unit res"
  nt_send :: "string \<Rightarrow> string \<Rightarrow> bytes \<Rightarrow> 's \<Rightarrow> (status \<times> bytes res) res \<times> 's"

record chan_cli =
  cc_base :: string
  cc_auth_header :: string

text \<open>What \<open>request\<close> makes of a status and a body.\<close>

definition reply :: "status \<Rightarrow> bytes \<Rightarrow> bytes res" where
  "reply status bs =
     (if is_success status then Inr bs
      else Inl (io_other (''request failed: '' @ dec_digits status @ '' '' @ from_utf8_lossy bs)))"

definition cli_request :: "'s net \<Rightarrow> chan_cli \<Rightarrow> string \<Rightarrow> bytes \<Rightarrow> 's \<Rightarrow> bytes res \<times> 's" where
  "cli_request net cli req body s =
     (if req = [] \<or> str_contains req (CHR ''/'') then
        (Inl (io_invalid ''req must be a single non-empty path segment''), s)
      else then_st (nt_send net (cc_base cli @ ''/'' @ req) (cc_auth_header cli) body s)
        (\<lambda>(status, arrived) s1. (and_then arrived (reply status), s1)))"

definition cli_connect :: "'s net \<Rightarrow> socket_addr \<Rightarrow> string \<Rightarrow> 's \<Rightarrow> chan_cli res \<times> 's" where
  "cli_connect net addr auth_header s =
     then_st (nt_build net, s) (\<lambda>_ s1.
       (let cli = \<lparr>cc_base = ''http://'' @ addr_text addr, cc_auth_header = auth_header\<rparr>
        in then_st (cli_request net cli HEALTH_REQ [] s1) (\<lambda>_ s2. (Inr cli, s2))))"

subsection \<open>Config requests\<close>

definition cli_cfg_get :: "codec \<Rightarrow> 's net \<Rightarrow> chan_cli \<Rightarrow> 's \<Rightarrow> cfg_get_res res \<times> 's" where
  "cli_cfg_get cd net cli s =
     then_st (cli_request net cli ''cfg-get'' [] s) (\<lambda>payload s1. (decode_get_res cd payload, s1))"

definition cli_cfg_put :: "codec \<Rightarrow> 's net \<Rightarrow> chan_cli \<Rightarrow> cfg_put_req \<Rightarrow> 's \<Rightarrow> unit res \<times> 's" where
  "cli_cfg_put cd net cli input s =
     then_st (encode_put_req cd input, s) (\<lambda>body s1.
     then_st (cli_request net cli ''cfg-put'' body s1) (\<lambda>payload s2.
       (if payload \<noteq> [] then Inl (io_other ''unexpected cfg_put result'') else Inr (), s2)))"

subsection \<open>A client talking to a server\<close>

text \<open>
  The client and the server put together. What lies between them is the crates' (url parsing,
  header values, the framing of bodies): a \<open>transport\<close>, whose contract \<open>transport_ok\<close> is that a
  plain name arrives as the path, a value of visible characters as itself, and the body's bytes
  under the limit, unless there are more.
\<close>

record 'b transport =
  tr_path :: "string \<Rightarrow> string"
  tr_header :: "string \<Rightarrow> bytes option"
  tr_body :: "bytes \<Rightarrow> 'b"

definition header_text :: "string \<Rightarrow> bool" where
  "header_text a \<longleftrightarrow> a \<noteq> [] \<and> (\<forall>c \<in> set a. 32 \<le> (of_char c :: nat) \<and> (of_char c :: nat) < 127) \<and>
     hd a \<noteq> CHR '' '' \<and> last a \<noteq> CHR '' ''"

text \<open>Lower case letters, digits, \<open>-\<close> and \<open>_\<close>.\<close>

definition plain_char :: "char \<Rightarrow> bool" where
  "plain_char c \<longleftrightarrow> (let n = (of_char c :: nat) in
     97 \<le> n \<and> n \<le> 122 \<or> 48 \<le> n \<and> n \<le> 57 \<or> n = 45 \<or> n = 95)"

definition plain_name :: "string \<Rightarrow> bool" where
  "plain_name n \<longleftrightarrow> n \<noteq> [] \<and> list_all plain_char n"

definition transport_ok :: "'b http_lib \<Rightarrow> 'b transport \<Rightarrow> bool" where
  "transport_ok hl tr \<longleftrightarrow>
     (\<forall>addr name. plain_name name \<longrightarrow> tr_path tr (''http://'' @ addr_text addr @ ''/'' @ name) = ''/'' @ name) \<and>
     (\<forall>a. header_text a \<longrightarrow> (\<exists>h. tr_header tr a = Some h \<and> hl_to_str hl h = Some a)) \<and>
     (\<forall>n b. hl_collect hl n (tr_body tr b) = (if length b \<le> n then Collected b else LengthLimit))"

definition sent_request :: "'b transport \<Rightarrow> string \<Rightarrow> bytes \<Rightarrow> bytes \<Rightarrow> 'b http_request" where
  "sent_request tr url h body = \<lparr>rq_path = tr_path tr url, rq_authorization = Some h,
     rq_content_length = tr_header tr (dec_digits (length body)), rq_body = tr_body tr body\<rparr>"

definition loopback :: "'b http_lib \<Rightarrow> 'b transport \<Rightarrow> 's srv_inner \<Rightarrow> 's net" where
  "loopback hl tr inner = \<lparr>nt_build = Inr (),
     nt_send = (\<lambda>url auth body s.
       (case tr_header tr auth of
          None \<Rightarrow> (Inl (io_other ''builder error''), s)
        | Some h \<Rightarrow>
            (case handle_request hl inner (sent_request tr url h body) s of
               (res, s') \<Rightarrow> (Inr (rs_status res, Inr (rs_body res)), s'))))\<rparr>"

text \<open>The same call made directly, without the network.\<close>

definition local_call ::
  "'b http_lib \<Rightarrow> 's srv_inner \<Rightarrow> string \<Rightarrow> string \<Rightarrow> bytes \<Rightarrow> 's \<Rightarrow> bytes res \<times> 's" where
  "local_call hl inner auth name body s =
     (case si_auth_cb inner auth s of
        (Inl e, s1) \<Rightarrow> (reply INTERNAL_SERVER_ERROR (into_bytes (err_to_string e)), s1)
      | (Inr code, s1) \<Rightarrow>
          if code \<noteq> OK then
            (reply code (into_bytes (case hl_reason hl code of Some r \<Rightarrow> r | None \<Rightarrow> [])), s1)
          else (case si_handlers inner name of
              None \<Rightarrow> (reply NOT_FOUND (into_bytes ''not found''), s1)
            | Some h \<Rightarrow>
                if length body > MAX_BODY then (reply PAYLOAD_TOO_LARGE (rs_body too_large), s1)
                else (case h_handle h body s1 of
                    (Inr out, s2) \<Rightarrow> (Inr out, s2)
                  | (Inl e, s2) \<Rightarrow> (reply INTERNAL_SERVER_ERROR (into_bytes (err_to_string e)), s2))))"

subsection \<open>Lemmas\<close>

lemma plain_name_slash: "plain_name name \<Longrightarrow> CHR ''/'' \<notin> set name"
  by (auto simp: plain_name_def list_all_iff plain_char_def)

lemma plain_name_segment: "plain_name name \<Longrightarrow> route_name (''/'' @ name) = Some name"
  using plain_name_slash [of name] by (auto simp: plain_name_def route_name_Some)

lemma plain_name_no_slash: "plain_name name \<Longrightarrow> name \<noteq> [] \<and> \<not> str_contains name (CHR ''/'')"
  using plain_name_slash [of name] by (auto simp: plain_name_def str_contains_def)

lemma plain_names [simp]: "plain_name HEALTH_REQ" "plain_name ''cfg-get''" "plain_name ''cfg-put''"
  by (simp_all add: plain_name_def HEALTH_REQ_def plain_char_def)

lemma header_text_digits: "header_text (dec_digits n)"
proof -
  have digit: "is_digit c" if "c \<in> set (dec_digits n)" for c by (rule set_dec_digits [OF that])
  have "32 \<le> (of_char c :: nat) \<and> (of_char c :: nat) < 127" if "c \<in> set (dec_digits n)" for c
    using digit [OF that] by (simp add: is_digit_def)
  moreover have "\<not> is_digit (CHR '' '')" by (simp add: is_digit_def)
  ultimately show ?thesis
    using digit [OF hd_in_set] digit [OF last_in_set] by (auto simp: header_text_def)
qed

text \<open>The digits are read back by \<open>parse::<u64>\<close>.\<close>

lemma digit_val_digit: "is_digit c \<Longrightarrow> digit_val c = Some (of_char c - 48)"
  by (auto simp: is_digit_def digit_val_def Let_def)

lemma parse_digits_snoc:
  "parse_digits acc (s @ [c]) = (case parse_digits acc s of None \<Rightarrow> None | Some n \<Rightarrow> parse_digits n [c])"
  by (induction acc s rule: parse_digits.induct) (auto split: option.splits)

lemma parse_dec_digits: "n < 2 ^ 64 \<Longrightarrow> parse_digits 0 (dec_digits n) = Some n"
proof (induction n rule: dec_digits.induct)
  case (1 n)
  have digit: "digit_val (char_of (48 + m)) = Some m" if "m < 10" for m :: nat
    using that by (simp add: digit_val_def of_char_digit Let_def)
  show ?case
  proof (cases "n < 10")
    case True
    then show ?thesis using digit by (subst dec_digits.simps) simp
  next
    case False
    then have "parse_digits 0 (dec_digits (n div 10)) = Some (n div 10)" using 1 by simp
    then show ?thesis
      using False 1(2) digit [of "n mod 10"] dec_digits.simps [of n] by (simp add: parse_digits_snoc)
  qed
qed

lemma parse_u64_dec: "n < 2 ^ 64 \<Longrightarrow> parse_u64 (dec_digits n) = Some n"
proof -
  assume n: "n < 2 ^ 64"
  obtain c s where cs: "dec_digits n = c # s" by (meson dec_digits_ne list.exhaust)
  then have "is_digit c" using set_dec_digits [of c n] by simp
  then have "c \<noteq> CHR ''+''" by (auto simp: is_digit_def)
  then show ?thesis using cs parse_dec_digits [OF n] by (simp add: parse_u64_def)
qed

lemma read_body_sent:
  assumes "transport_ok hl tr" "length body < 2 ^ 64"
  shows "read_body hl (sent_request tr url h body) = (if MAX_BODY < length body then Inl too_large else Inr body)"
proof -
  obtain v where v: "tr_header tr (dec_digits (length body)) = Some v" "hl_to_str hl v = Some (dec_digits (length body))"
    using assms(1) header_text_digits [of "length body"] unfolding transport_ok_def by blast
  then have "declared_length hl (sent_request tr url h body) = Some (length body)"
    using parse_u64_dec [OF assms(2)] by (simp add: declared_length_def sent_request_def)
  moreover have "hl_collect hl MAX_BODY (tr_body tr body) =
      (if length body \<le> MAX_BODY then Collected body else LengthLimit)"
    using assms(1) by (simp add: transport_ok_def)
  ultimately show ?thesis
    by (simp add: read_body_def sent_request_def)
qed

lemma reply_simps [simp]: "reply OK bs = Inr bs"
  by (simp add: reply_def is_success_def OK_def)

lemma request_loopback:
  assumes "transport_ok hl tr" "plain_name name" "header_text auth" "length body < 2 ^ 64"
  shows "cli_request (loopback hl tr inner) \<lparr>cc_base = ''http://'' @ addr_text addr, cc_auth_header = auth\<rparr> name body s
    = local_call hl inner auth name body s"
proof -
  let ?url = "''http://'' @ addr_text addr @ ''/'' @ name"
  obtain h where h: "tr_header tr auth = Some h" "hl_to_str hl h = Some auth"
    using assms(1,3) unfolding transport_ok_def by blast
  define req where "req = sent_request tr ?url h body"
  have path: "rq_path req = ''/'' @ name"
    using assms(1,2) by (simp add: transport_ok_def sent_request_def req_def)
  have auth: "Option.bind (rq_authorization req) (hl_to_str hl) = Some auth"
    by (simp add: sent_request_def req_def h(2))
  have route: "route inner req =
      (case si_handlers inner name of Some h \<Rightarrow> Inr h | None \<Rightarrow> Inl (resp_text NOT_FOUND ''not found''))"
    by (simp only: route_def path plain_name_segment [OF assms(2)] Option.bind.bind_lunit)
  have body: "read_body hl req = (if MAX_BODY < length body then Inl too_large else Inr body)"
    unfolding req_def by (rule read_body_sent [OF assms(1,4)])
  have handled: "cli_request (loopback hl tr inner) \<lparr>cc_base = ''http://'' @ addr_text addr, cc_auth_header = auth\<rparr> name body s =
      (case handle_request hl inner req s of (res, s') \<Rightarrow> (reply (rs_status res) (rs_body res), s'))"
    using plain_name_no_slash [OF assms(2)] h(1)
    by (simp add: cli_request_def loopback_def then_st_def req_def split: prod.split)
  obtain r s1 where cb: "si_auth_cb inner auth s = (r, s1)" by force
  show ?thesis
  proof (cases r)
    case (Inl e)
    then show ?thesis using handled cb
      by (simp add: handle_request_def authorize_def auth local_call_def)
  next
    case (Inr code)
    show ?thesis
    proof (cases "code = OK")
      case False
      then show ?thesis using handled cb Inr
        by (simp add: handle_request_def authorize_def auth local_call_def)
    next
      case True
      then have "handle_request hl inner req s = (case route inner req of
            Inl res \<Rightarrow> (res, s1)
          | Inr h \<Rightarrow> (case read_body hl req of Inl res \<Rightarrow> (res, s1) | Inr body \<Rightarrow> dispatch h body s1))"
        using cb Inr by (simp add: handle_request_def authorize_def auth)
      then show ?thesis using handled cb Inr True
        by (cases "si_handlers inner name")
          (auto simp: route body local_call_def too_large_def dispatch_def split: sum.split prod.split)
    qed
  qed
qed

lemma connect_loopback:
  assumes "transport_ok hl tr" "header_text auth" "si_handlers inner HEALTH_REQ = Some health_handler"
  shows "cli_connect (loopback hl tr inner) addr auth s =
    (case local_call hl inner auth HEALTH_REQ [] s of
       (Inl e, s1) \<Rightarrow> (Inl e, s1)
     | (Inr _, s1) \<Rightarrow> (Inr \<lparr>cc_base = ''http://'' @ addr_text addr, cc_auth_header = auth\<rparr>, s1))"
proof -
  have "nt_build (loopback hl tr inner) = Inr ()" by (simp add: loopback_def)
  then show ?thesis
    using request_loopback [OF assms(1) plain_names(1) assms(2), of "[]" inner addr s]
    by (simp add: cli_connect_def Let_def then_st_def split: prod.split sum.split)
qed

text \<open>Health checks change nothing beyond the callback, and succeed exactly for callers it lets in.\<close>

lemma local_call_health:
  assumes "si_handlers inner HEALTH_REQ = Some health_handler"
  shows "local_call hl inner auth HEALTH_REQ [] s =
    (case si_auth_cb inner auth s of
       (Inl e, s1) \<Rightarrow> (reply INTERNAL_SERVER_ERROR (into_bytes (err_to_string e)), s1)
     | (Inr code, s1) \<Rightarrow>
         (if code = OK then Inr []
          else reply code (into_bytes (case hl_reason hl code of Some r \<Rightarrow> r | None \<Rightarrow> [])), s1))"
  using assms
  by (auto simp: local_call_def health_handler_def health_handle_def split: prod.split sum.split)

subsection \<open>Properties\<close>

text \<open>
  A request over the network is a call of the handler: through a transport that keeps its
  contract, the client gets exactly what calling the authorization callback and then the handler of
  that name gives, with the state they leave; the error paths (callback error or status, unknown
  name, body over the limit, handler error) come back as the statuses and texts of the server.
\<close>

lemma remote_call_is_local_call:
  assumes "transport_ok hl tr" "plain_name name" "header_text auth" "length body < 2 ^ 64"
  shows "cli_request (loopback hl tr inner) \<lparr>cc_base = ''http://'' @ addr_text addr, cc_auth_header = auth\<rparr> name body s
    = local_call hl inner auth name body s"
  using assms by (rule request_loopback)

definition demo_transport :: "bytes transport" where
  "demo_transport = \<lparr>tr_path = (\<lambda>u. ''/'' @ rev (takeWhile (\<lambda>c. c \<noteq> CHR ''/'') (rev u))),
     tr_header = (\<lambda>a. Some (into_bytes a)), tr_body = (\<lambda>b. b)\<rparr>"

lemma transport_ok_demo [simp]: "transport_ok demo_http demo_transport"
proof -
  have "rev (takeWhile (\<lambda>c. c \<noteq> CHR ''/'') (rev (x @ ''/'' @ name))) = name" if "plain_name name" for x name
  proof -
    have "takeWhile (\<lambda>c. c \<noteq> CHR ''/'') (rev name @ CHR ''/'' # rev x) = rev name"
      using plain_name_slash [OF that] by (subst takeWhile_append2) auto
    then show ?thesis by simp
  qed
  from this [of _ "''http://'' @ addr_text _"] show ?thesis
    by (simp add: transport_ok_def demo_transport_def demo_http_def)
qed

lemma remote_call_is_local_call_witness:
  "cli_request (loopback demo_http demo_transport demo_inner)
     \<lparr>cc_base = ''http://'' @ addr_text \<lparr>sa_ip = V4 127 0 0 1, sa_port = 22002\<rparr>, cc_auth_header = ''Bearer test''\<rparr>
     HEALTH_REQ [] 5 = (Inr [], 5)"
  by (subst remote_call_is_local_call [OF transport_ok_demo])
    (simp_all add: local_call_def header_text_def demo_inner_def health_handler_def health_handle_def MAX_BODY_def)

end
