(* ===== verification/Ring_Pool.thy ===== *)
theory Ring_Pool
  imports Prelude "HOL-Library.Multiset"
begin

section \<open>The pool of read connections\<close>

text \<open>
  \<open>RingPool\<close> and \<open>PoolGuard\<close> of \<open>sql.rs\<close>. The pool is a channel: \<open>get\<close> receives a connection
  and blocks while the channel is empty; dropping a guard sends its connection back. The
  machine below is the pool with any number of tasks that take and drop guards in any order.
\<close>

record 'c pool =
  queue :: "'c list"
    \<comment> \<open>the channel; the pool itself holds a sender, so it never disconnects\<close>

record 'c guard =
  item :: "'c option"

definition pool_new :: "'c \<Rightarrow> 'c \<Rightarrow> 'c \<Rightarrow> 'c pool" where
  "pool_new a b c = \<lparr>queue = [a, b, c]\<rparr>"

text \<open>\<open>get\<close>: \<open>None\<close> while \<open>recv\<close> blocks.\<close>

fun pool_get :: "'c pool \<Rightarrow> ('c guard \<times> 'c pool) option" where
  "pool_get p = (case queue p of
      [] \<Rightarrow> None
    | x # xs \<Rightarrow> Some (\<lparr>item = Some x\<rparr>, p\<lparr>queue := xs\<rparr>))"

text \<open>\<open>Drop for PoolGuard\<close>: \<open>take\<close> the item, send it back.\<close>

definition guard_drop :: "'c guard \<Rightarrow> 'c pool \<Rightarrow> 'c pool" where
  "guard_drop g p = (case item g of None \<Rightarrow> p | Some x \<Rightarrow> p\<lparr>queue := queue p @ [x]\<rparr>)"

text \<open>\<open>deref\<close>: \<open>item.as_ref().unwrap()\<close>, \<open>None\<close> for the panic.\<close>

definition guard_deref :: "'c guard \<Rightarrow> 'c option" where
  "guard_deref g = item g"

record 'c pool_sys =
  the_pool :: "'c pool"
  guards :: "'c guard list"

inductive pool_step :: "'c pool_sys \<Rightarrow> 'c pool_sys \<Rightarrow> bool" where
  take_guard: "pool_get (the_pool s) = Some (g, p) \<Longrightarrow>
     pool_step s (s\<lparr>the_pool := p, guards := g # guards s\<rparr>)"
| drop_guard: "guards s = gs @ g # gs' \<Longrightarrow>
     pool_step s (s\<lparr>the_pool := guard_drop g (the_pool s), guards := gs @ gs'\<rparr>)"

inductive_cases pool_stepE: "pool_step s t"

definition pool_init :: "'c \<Rightarrow> 'c \<Rightarrow> 'c \<Rightarrow> 'c pool_sys \<Rightarrow> bool" where
  "pool_init a b c s \<longleftrightarrow> s = \<lparr>the_pool = pool_new a b c, guards = []\<rparr>"

definition held :: "'c pool_sys \<Rightarrow> 'c multiset" where
  "held s = image_mset (\<lambda>g. the (item g)) (mset (guards s))"

text \<open>Every guard has its connection, and no connection is lost or duplicated.\<close>

definition pool_inv :: "'c \<Rightarrow> 'c \<Rightarrow> 'c \<Rightarrow> 'c pool_sys \<Rightarrow> bool" where
  "pool_inv a b c s \<longleftrightarrow> (\<forall>g \<in> set (guards s). item g \<noteq> None) \<and>
     mset (queue (the_pool s)) + held s = {#a, b, c#}"

lemma pool_inv_step: "pool_step s t \<Longrightarrow> pool_inv a b c s \<Longrightarrow> pool_inv a b c t"
proof (induction rule: pool_step.induct)
  case (take_guard s g p)
  then show ?case by (auto simp: pool_inv_def held_def split: list.splits)
next
  case (drop_guard s gs g gs')
  then obtain x where "item g = Some x" by (auto simp: pool_inv_def)
  with drop_guard show ?case by (auto simp: pool_inv_def held_def guard_drop_def ac_simps)
qed

interpretation pool: inductive_invariant "pool_init a b c" pool_step "pool_inv a b c"
  for a b c :: 'c
proof unfold_locales
  show "pool_init a b c s \<Longrightarrow> pool_inv a b c s" for s
    by (simp add: pool_init_def pool_inv_def pool_new_def held_def)
qed (rule pool_inv_step)

lemma pool_inv_size: "pool_inv a b c s \<Longrightarrow> length (queue (the_pool s)) + length (guards s) = 3"
proof -
  assume "pool_inv a b c s"
  then have "size (mset (queue (the_pool s)) + held s) = 3" by (simp add: pool_inv_def)
  then show ?thesis by (simp add: held_def)
qed

text \<open>
  C31. The pool hands a connection to one guard at a time: in every reachable state each guard
  dereferences without a panic, two guards hold different connections, at most three guards are
  out, and \<open>get\<close> blocks only while all three are.
\<close>

theorem pool_exclusive:
  assumes "a \<noteq> b" "a \<noteq> c" "b \<noteq> c" "reachable (pool_init a b c) pool_step s"
  shows "(\<forall>g \<in> set (guards s). guard_deref g \<noteq> None) \<and> distinct (map guard_deref (guards s)) \<and>
    length (guards s) \<le> 3 \<and> (pool_get (the_pool s) = None \<longrightarrow> length (guards s) = 3)"
proof (intro conjI impI)
  have inv: "pool_inv a b c s" by (rule pool.inv_reachable [OF assms(4)])
  show some: "\<forall>g \<in> set (guards s). guard_deref g \<noteq> None"
    using inv by (simp add: pool_inv_def guard_deref_def)
  have "held s \<subseteq># {#a, b, c#}" using inv by (metis pool_inv_def mset_subset_eq_add_right)
  moreover have "held s = mset (map (\<lambda>g. the (item g)) (guards s))" by (simp add: held_def)
  ultimately have "count (mset (map (\<lambda>g. the (item g)) (guards s))) x \<le> 1" for x
    using assms(1-3) mset_subset_eq_count [of "held s" "{#a, b, c#}" x] by (auto split: if_splits)
  then have "distinct (map (\<lambda>g. the (item g)) (guards s))"
    by (metis distinct_count_atmost_1 count_greater_eq_one_iff le_antisym not_in_iff count_mset_0_iff)
  then show "distinct (map guard_deref (guards s))"
    using some by (auto simp: distinct_map inj_on_def guard_deref_def)
  show "length (guards s) \<le> 3" using pool_inv_size [OF inv] by simp
  show "length (guards s) = 3" if "pool_get (the_pool s) = None"
    using pool_inv_size [OF inv] that by (simp split: list.splits)
qed

theorem pool_exclusive_witness:
  "length (guards \<lparr>the_pool = \<lparr>queue = [2, 3]\<rparr>, guards = [\<lparr>item = Some (1::nat)\<rparr>]\<rparr>) \<le> 3"
proof -
  let ?s0 = "\<lparr>the_pool = pool_new 1 2 3, guards = []\<rparr> :: nat pool_sys"
  let ?s1 = "\<lparr>the_pool = \<lparr>queue = [2, 3]\<rparr>, guards = [\<lparr>item = Some 1\<rparr>]\<rparr> :: nat pool_sys"
  have "pool_step ?s0 (?s0\<lparr>the_pool := \<lparr>queue = [2, 3]\<rparr>, guards := \<lparr>item = Some 1\<rparr> # guards ?s0\<rparr>)"
    by (rule take_guard) (simp add: pool_new_def)
  then have "reachable (pool_init 1 2 3) pool_step ?s1"
    by (intro reach_step [OF reach_init]) (simp_all add: pool_init_def)
  with pool_exclusive [of 1 2 3 ?s1] show ?thesis by simp
qed

end
