(* ===== verification/Sql_Open.thy ===== *)
theory Sql_Open
  imports Keys Ring_Pool Db
begin

section \<open>Opening the database\<close>

text \<open>
  \<open>Sql::new\<close> of \<open>sql.rs\<close> and \<open>VmIoDb::new\<close> of \<open>lib.rs\<close>. Opening a connection, the key pragma, the
  pragma batch and the schema batch are calls into sqlcipher: the plan says which of them fails,
  given the key text (a wrong key fails when the file is first read). A panic is the outer \<open>None\<close>.
\<close>

datatype open_point = OpenConn nat | KeyPragma nat | ExecPragma nat | ExecSchema

type_synonym open_plan = "string \<Rightarrow> open_point \<Rightarrow> string option"

definition open_at :: "open_plan \<Rightarrow> string \<Rightarrow> open_point \<Rightarrow> unit res" where
  "open_at pl hex_key p = (case pl hex_key p of None \<Rightarrow> Inr () | Some m \<Rightarrow> Inl (io_other m))"

text \<open>A read connection: open it, set the key, run the pragmas.\<close>

definition open_read :: "open_plan \<Rightarrow> string \<Rightarrow> nat \<Rightarrow> nat res" where
  "open_read pl hex_key n =
     and_then (open_at pl hex_key (OpenConn n)) (\<lambda>_.
     and_then (open_at pl hex_key (KeyPragma n)) (\<lambda>_.
     and_then (open_at pl hex_key (ExecPragma n)) (\<lambda>_. Inr n)))"

record sql_conns =
  c_write :: nat
  c_read_pool :: "nat pool"
  c_hex_key :: string
    \<comment> \<open>the key the connections were opened with\<close>

definition sql_new :: "open_plan \<Rightarrow> bytes \<Rightarrow> (sql_conns res) option" where
  "sql_new pl sqlite_key =
     (case open_at pl [] (OpenConn 0) of
        Inl e \<Rightarrow> Some (Inl e)
      | Inr _ \<Rightarrow>
          (case from_utf8 (key_literal sqlite_key) of
             None \<Rightarrow> None
           | Some hex_key \<Rightarrow> Some (
               and_then (open_at pl hex_key (KeyPragma 0)) (\<lambda>_.
               and_then (open_at pl hex_key (ExecPragma 0)) (\<lambda>_.
               and_then (open_at pl hex_key ExecSchema) (\<lambda>_.
               and_then (open_read pl hex_key 1) (\<lambda>r1.
               and_then (open_read pl hex_key 2) (\<lambda>r2.
               and_then (open_read pl hex_key 3) (\<lambda>r3.
               Inr \<lparr>c_write = 0, c_read_pool = pool_new r1 r2 r3, c_hex_key = hex_key\<rparr>)))))))))"

definition db_new ::
  "crates \<Rightarrow> fs_plan \<Rightarrow> system_time \<Rightarrow> open_plan \<Rightarrow> path \<Rightarrow> bytes \<Rightarrow> fs \<Rightarrow>
   ((vm_io_db \<times> sql_conns) res) option \<times> fs" where
  "db_new cr pl now opl root encryption_key fs =
     (case create_dir_all pl now root fs of
        (Inl e, fs1) \<Rightarrow> (Some (Inl e), fs1)
      | (Inr _, fs1) \<Rightarrow>
          (let keys = derive_root_keys cr encryption_key in
           (case sql_new opl (rk_sqlite keys) of
              None \<Rightarrow> None
            | Some (Inl e) \<Rightarrow> Some (Inl e)
            | Some (Inr conns) \<Rightarrow> Some (Inr (\<lparr>root_dir = root, blob_key = rk_blob keys\<rparr>, conns)), fs1)))"

subsection \<open>The key text\<close>

definition key_text :: "bytes \<Rightarrow> string" where
  "key_text secret = [CHR ''x'', CHR 0x27] @ of_utf8_bytes (hex_pairs secret) @ [CHR 0x27]"

lemma HEX_CHARS_ascii: "b \<in> set HEX_CHARS \<Longrightarrow> (of_char (char_of_byte b) :: nat) < 0x80"
proof -
  have "\<forall>b \<in> set HEX_CHARS. (of_char (char_of_byte b) :: nat) < 0x80"
    by (simp add: HEX_CHARS_def into_bytes_def)
  then show "b \<in> set HEX_CHARS \<Longrightarrow> (of_char (char_of_byte b) :: nat) < 0x80" by blast
qed

lemma key_literal_text:
  assumes "length secret = 32"
  shows "from_utf8 (key_literal secret) = Some (key_text secret)"
proof -
  have "of_utf8_bytes (key_literal secret) = key_text secret"
    by (simp add: key_literal_eq [OF assms] key_text_def of_utf8_bytes_def into_bytes_def)
  moreover have "utf8_valid (key_text secret)"
  proof (rule utf8_valid_ascii)
    show "(of_char c :: nat) < 0x80" if "c \<in> set (key_text secret)" for c
      using that set_hex_pairs [of secret] HEX_CHARS_ascii
      by (auto simp: key_text_def of_utf8_bytes_def)
  qed
  ultimately show ?thesis by (simp add: from_utf8_def Let_def)
qed

lemma key_text_inject: "key_text a = key_text b \<longleftrightarrow> a = b"
  by (metis key_text_def append_same_eq same_append_eq hex_pairs_inject into_of_utf8_bytes)

subsection \<open>Properties\<close>

text \<open>
  The raw key literal: for a 32 byte key the 67 byte buffer is \<open>x'\<close>, the 64 lower case hex digits
  of the key, and \<open>'\<close>, is valid UTF-8, and determines the key; so no byte of the buffer stays zero and
  no two keys open the same database.
\<close>

lemma key_literal_correct:
  assumes "length a = 32" "length b = 32"
  shows "(\<exists>h. from_utf8 (key_literal a) = Some ([CHR ''x'', CHR 0x27] @ h @ [CHR 0x27]) \<and>
      length h = 64 \<and> set h \<subseteq> set ''0123456789abcdef'') \<and>
    length (key_literal a) = 67 \<and> (key_literal a = key_literal b \<longleftrightarrow> a = b)"
proof (intro conjI exI [of _ "of_utf8_bytes (hex_pairs a)"])
  show "from_utf8 (key_literal a) = Some ([CHR ''x'', CHR 0x27] @ of_utf8_bytes (hex_pairs a) @ [CHR 0x27])"
    using key_literal_text [OF assms(1)] by (simp add: key_text_def)
  show "length (of_utf8_bytes (hex_pairs a)) = 64"
    using assms(1) by (simp add: of_utf8_bytes_def)
  have "char_of_byte ` set HEX_CHARS \<subseteq> set ''0123456789abcdef''"
    by (simp add: HEX_CHARS_def into_bytes_def)
  then show "set (of_utf8_bytes (hex_pairs a)) \<subseteq> set ''0123456789abcdef''"
    using set_hex_pairs [of a] by (fastforce simp: of_utf8_bytes_def)
  show "length (key_literal a) = 67" using assms(1) by (simp add: key_literal_eq)
  show "key_literal a = key_literal b \<longleftrightarrow> a = b"
    using assms by (simp add: key_literal_eq hex_pairs_inject)
qed

lemma key_literal_correct_witness:
  "key_literal (replicate 32 1) \<noteq> key_literal (replicate 32 2)"
  using key_literal_correct [of "replicate 32 1" "replicate 32 2"] by (simp add: replicate_eq_replicate)

text \<open>
  Opening never panics, and keeps the keys apart: \<open>VmIoDb::new\<close> returns for every fault; when it
  succeeds the root directory exists, the blobs are keyed with the blob sub key, sqlite was given the
  text of the sqlite sub key (neither is the master key handed over directly), and the pool holds
  three different read connections that are not the writer.
\<close>

lemma db_new_total:
  assumes "crypto_ok cr" "db_new cr pl now opl root master fs = (r, fs')"
  shows "r \<noteq> None \<and>
    (\<forall>db conns. r = Some (Inr (db, conns)) \<longrightarrow>
       is_dir fs' root \<and> root_dir db = root \<and>
       blob_key db = hkdf cr None master INFO_BLOB \<and>
       c_hex_key conns = key_text (hkdf cr None master INFO_SQLITE) \<and>
       distinct (c_write conns # queue (c_read_pool conns)) \<and> length (queue (c_read_pool conns)) = 3)"
proof -
  let ?key = "rk_sqlite (derive_root_keys cr master)"
  have lit: "from_utf8 (key_literal ?key) = Some (key_text ?key)"
    using assms(1) by (intro key_literal_text) (simp add: derive_root_keys_def)
  have new: "sql_new opl ?key \<noteq> None"
    by (simp add: sql_new_def lit split: sum.split)
  have ok: "c_hex_key conns = key_text ?key \<and> distinct (c_write conns # queue (c_read_pool conns)) \<and>
      length (queue (c_read_pool conns)) = 3" if "sql_new opl ?key = Some (Inr conns)" for conns
    using that by (auto simp: sql_new_def lit and_then_eq_Inr open_read_def pool_new_def split: sum.splits)
  show ?thesis
    using assms(2) new ok
    by (auto simp: db_new_def Let_def derive_root_keys_def split: prod.splits sum.splits option.splits
        dest: create_dir_all_is_dir)
qed

lemma db_new_total_witness:
  "\<exists>r fs'. db_new demo_crates no_faults 0 (\<lambda>_ _. None) [''r''] (replicate 32 0) [] = (r, fs') \<and> r \<noteq> None"
proof -
  obtain r fs' where run: "db_new demo_crates no_faults 0 (\<lambda>_ _. None) [''r''] (replicate 32 0) [] = (r, fs')"
    by force
  then show ?thesis using db_new_total [OF crypto_ok_demo run] by blast
qed

end
