(* ===== verification/Back_Srv.thy ===== *)
theory Back_Srv
  imports Back_Read Chan_Cli Sql_Open
begin

section \<open>The backend server\<close>

text \<open>
  \<open>rs/v-m-io-back/src/lib.rs\<close>: the handlers of \<open>cfg-get\<close> and \<open>cfg-put\<close>, the authorization
  callback, the configuration with its test defaults, the initialization of a database and the start of
  a server. The crates \<open>base64\<close>, \<open>serde_json\<close> and \<open>rand\<close>, the codec and the operating system's network
  are the fields of a \<open>platform\<close>; a json object of strings is a \<open>BTreeMap\<close>, an association list in the
  order of its keys. Logging is left out.
\<close>

subsection \<open>Handlers\<close>

definition CFG_GET_REQ :: string where "CFG_GET_REQ = ''cfg-get''"
definition CFG_PUT_REQ :: string where "CFG_PUT_REQ = ''cfg-put''"

definition cfg_get_handle :: "codec \<Rightarrow> envs \<Rightarrow> bytes \<Rightarrow> back_state \<Rightarrow> bytes res \<times> back_state" where
  "cfg_get_handle cd envs req b =
     (case read_all envs b of
        (r, b1) \<Rightarrow>
          (encode_get_res cd (case r of Inr values \<Rightarrow> Inr values | Inl err \<Rightarrow> Inl (err_to_string err)), b1))"

definition cfg_put_handle :: "codec \<Rightarrow> envs \<Rightarrow> bytes \<Rightarrow> back_state \<Rightarrow> bytes res \<times> back_state" where
  "cfg_put_handle cd envs req b =
     then_st (decode_put_req cd req, b) (\<lambda>put b1.
     then_st (upsert_value envs (pr_key put) (pr_value put) (pr_modified_at_micros put) (pr_expires_at_micros put) b1)
       (\<lambda>_ b2. (Inr [], b2)))"

definition cfg_get_handler :: "codec \<Rightarrow> envs \<Rightarrow> back_state handler" where
  "cfg_get_handler cd envs = \<lparr>h_req = CFG_GET_REQ, h_handle = cfg_get_handle cd envs\<rparr>"

definition cfg_put_handler :: "codec \<Rightarrow> envs \<Rightarrow> back_state handler" where
  "cfg_put_handler cd envs = \<lparr>h_req = CFG_PUT_REQ, h_handle = cfg_put_handle cd envs\<rparr>"

subsection \<open>Authorization\<close>

definition token_of :: "string \<Rightarrow> string" where
  "token_of auth = str_trim (case strip_prefix ''Bearer '' auth of Some t \<Rightarrow> t | None \<Rightarrow> auth)"

definition make_auth_cb :: "envs \<Rightarrow> string \<Rightarrow> back_state \<Rightarrow> status res \<times> back_state" where
  "make_auth_cb envs auth b =
     (let token = token_of auth in
      if token = [] then (Inr UNAUTHORIZED, b)
      else
        (case db_get (envs (bk_tick b)) CFG_CLASS (CFG_API_KEY_PREFIX @ token) (bk_store b) of
           Inr (Some _) \<Rightarrow> Inr OK
         | Inr None \<Rightarrow> Inr UNAUTHORIZED
         | Inl err \<Rightarrow> Inr INTERNAL_SERVER_ERROR,
         b\<lparr>bk_tick := Suc (bk_tick b)\<rparr>))"

subsection \<open>Configuration\<close>

record config =
  cf_db_root_dir :: path
  cf_addr :: "socket_addr list"
  cf_init :: "string option"
  cf_encryption_key :: "string option"
  cf_test :: bool

type_synonym json_object = "(string \<times> string) list"

record platform =
  pf_crates :: crates
  pf_open :: open_plan
  pf_codec :: codec
  pf_base64_decode :: "string \<Rightarrow> string + bytes"
  pf_base64_encode :: "bytes \<Rightarrow> string"
  pf_from_json :: "string \<Rightarrow> string + json_object"
  pf_to_json :: "json_object \<Rightarrow> string + string"
  pf_random_key :: "nat \<Rightarrow> bytes"
    \<comment> \<open>the \<open>n\<close>-th random key\<close>
  pf_ifaces :: "(iface list) res"
  pf_bind :: "socket_addr \<Rightarrow> socket_addr res"
    \<comment> \<open>a listener is what it was bound to\<close>
  pf_local_addr :: "socket_addr \<Rightarrow> socket_addr res"

definition DEFAULT_BIND_ADDR :: socket_addr where
  "DEFAULT_BIND_ADDR = \<lparr>sa_ip = V4 0 0 0 0, sa_port = 22002\<rparr>"

definition TEST_BIND_ADDR :: socket_addr where
  "TEST_BIND_ADDR = \<lparr>sa_ip = V4 127 0 0 1, sa_port = 22002\<rparr>"

definition TEST_API_KEY :: string where "TEST_API_KEY = ''test''"

lemma addr_constants: "addr_text DEFAULT_BIND_ADDR = ''0.0.0.0:22002''" "addr_text TEST_BIND_ADDR = ''127.0.0.1:22002''"
  by (simp_all add: addr_text_def DEFAULT_BIND_ADDR_def TEST_BIND_ADDR_def v4_text_def dec_digits.simps char_of_def bit_0)

definition parse_encryption_key :: "platform \<Rightarrow> string \<Rightarrow> bytes res" where
  "parse_encryption_key pf key =
     (case pf_base64_decode pf (str_trim key) of
        Inl err \<Rightarrow> Inl (io_invalid (''encryption key is not valid base64: '' @ err))
      | Inr bs \<Rightarrow>
          if length bs = 32 then Inr bs
          else Inl (io_invalid ''encryption key must decode to exactly 32 bytes''))"

text \<open>\<open>encode_encryption_key(&random_encryption_key())\<close> for the \<open>n\<close>-th random key.\<close>

definition encode_encryption_key :: "platform \<Rightarrow> bytes \<Rightarrow> string" where
  "encode_encryption_key pf key = pf_base64_encode pf key"

definition random_encryption_key :: "platform \<Rightarrow> nat \<Rightarrow> bytes" where
  "random_encryption_key pf n = pf_random_key pf n"

definition resolve_encryption_key :: "platform \<Rightarrow> nat \<Rightarrow> config \<Rightarrow> bytes res" where
  "resolve_encryption_key pf n config =
     (case cf_encryption_key config of
        Some key \<Rightarrow> if key \<noteq> [] then parse_encryption_key pf key else Inr (random_encryption_key pf n)
      | None \<Rightarrow> Inr (random_encryption_key pf n))"

text \<open>\<open>BTreeMap::insert\<close>.\<close>

fun bt_insert :: "string \<Rightarrow> 'v \<Rightarrow> (string \<times> 'v) list \<Rightarrow> (string \<times> 'v) list" where
  "bt_insert k v [] = [(k, v)]"
| "bt_insert k v ((k', v') # m) =
     (if k = k' then (k, v) # m else if k < k' then (k, v) # (k', v') # m else (k', v') # bt_insert k v m)"

definition invalid_init :: "string \<Rightarrow> io_error" where
  "invalid_init err = io_invalid (''invalid --init json: '' @ err)"

text \<open>\<open>apply_test_defaults\<close> changes the configuration in place; an error leaves the fields set before it.\<close>

definition test_addr :: "path \<Rightarrow> config \<Rightarrow> config" where
  "test_addr root config =
     (let c = config\<lparr>cf_db_root_dir := root\<rparr>
      in if cf_addr c = [] then c\<lparr>cf_addr := [TEST_BIND_ADDR]\<rparr> else c)"

definition test_init :: "platform \<Rightarrow> config \<Rightarrow> string res" where
  "test_init pf config =
     and_then (case cf_init config of
         Some init \<Rightarrow> (case pf_from_json pf init of Inl err \<Rightarrow> Inl (invalid_init err) | Inr m \<Rightarrow> Inr m)
       | None \<Rightarrow> Inr []) (\<lambda>init.
     (case pf_to_json pf (bt_insert (CFG_API_KEY_PREFIX @ TEST_API_KEY) [] init) of
        Inl err \<Rightarrow> Inl (io_invalid (''failed to encode init json: '' @ err))
      | Inr text \<Rightarrow> Inr text))"

definition apply_test_defaults :: "platform \<Rightarrow> nat \<Rightarrow> path \<Rightarrow> config \<Rightarrow> unit res \<times> config" where
  "apply_test_defaults pf n root config =
     then_st (test_init pf config, test_addr root config) (\<lambda>text c1.
       (let c2 = c1\<lparr>cf_init := Some text\<rparr>
        in (Inr (),
            if (case cf_encryption_key c2 of None \<Rightarrow> True | Some key \<Rightarrow> key = [])
            then c2\<lparr>cf_encryption_key := Some (encode_encryption_key pf (random_encryption_key pf n))\<rparr>
            else c2)))"

subsection \<open>Initialization and start\<close>

text \<open>
  \<open>VmIoDb::new\<close> on the stored database: the environment \<open>envs 0\<close> is the opening's. The outer option is
  a panic; an error or a panic leaves the directories made so far.
\<close>

definition open_db :: "platform \<Rightarrow> envs \<Rightarrow> path \<Rightarrow> bytes \<Rightarrow> store \<Rightarrow> ((vm_io_db \<times> back_state) res) option \<times> store" where
  "open_db pf envs root key s =
     (case db_new (pf_crates pf) (ev_fs (envs 0)) (ev_now (envs 0)) (pf_open pf) root key (st_fs s) of
        (None, fs1) \<Rightarrow> (None, s\<lparr>st_fs := fs1\<rparr>)
      | (Some (Inl e), fs1) \<Rightarrow> (Some (Inl e), s\<lparr>st_fs := fs1\<rparr>)
      | (Some (Inr (db, conns)), fs1) \<Rightarrow>
          (Some (Inr (db, \<lparr>bk_store = s\<lparr>st_fs := fs1\<rparr>, bk_counter = 0, bk_tick = 1\<rparr>)), s\<lparr>st_fs := fs1\<rparr>))"

fun init_values :: "envs \<Rightarrow> json_object \<Rightarrow> back_state \<Rightarrow> unit res \<times> back_state" where
  "init_values envs [] b = (Inr (), b)"
| "init_values envs ((key, value) # values) b =
     then_st (upsert_value envs key value None None b) (\<lambda>_ b1. init_values envs values b1)"

definition config_init :: "platform \<Rightarrow> envs \<Rightarrow> nat \<Rightarrow> config \<Rightarrow> store \<Rightarrow> (unit res) option \<times> store" where
  "config_init pf envs n config s =
     (case pf_from_json pf (case cf_init config of Some init \<Rightarrow> init | None \<Rightarrow> ''{}'') of
        Inl err \<Rightarrow> (Some (Inl (invalid_init err)), s)
      | Inr values \<Rightarrow>
          (case resolve_encryption_key pf n config of
             Inl e \<Rightarrow> (Some (Inl e), s)
           | Inr key \<Rightarrow>
               (case open_db pf envs (cf_db_root_dir config) key s of
                  (None, s1) \<Rightarrow> (None, s1)
                | (Some (Inl e), s1) \<Rightarrow> (Some (Inl e), s1)
                | (Some (Inr (db, b)), s1) \<Rightarrow>
                    (case init_values envs values b of (r, b1) \<Rightarrow> (Some r, bk_store b1)))))"

record back_srv_rec =
  bs_srv :: "back_state chan_srv"
  bs_db :: vm_io_db

definition back_bind :: "config \<Rightarrow> socket_addr list" where
  "back_bind config = (if cf_addr config = [] then [DEFAULT_BIND_ADDR] else cf_addr config)"

definition back_chan :: "platform \<Rightarrow> envs \<Rightarrow> config \<Rightarrow> back_state chan_srv_config" where
  "back_chan pf envs config = \<lparr>sc_auth_cb = make_auth_cb envs,
     sc_handlers = [cfg_get_handler (pf_codec pf) envs, cfg_put_handler (pf_codec pf) envs],
     sc_bind = back_bind config\<rparr>"

text \<open>\<open>back_srv\<close>: a running server and its state, or an error.\<close>

definition back_srv ::
  "platform \<Rightarrow> envs \<Rightarrow> nat \<Rightarrow> config \<Rightarrow> store \<Rightarrow> ((back_srv_rec \<times> back_state) res) option \<times> store" where
  "back_srv pf envs n config s =
     (case resolve_encryption_key pf n config of
        Inl e \<Rightarrow> (Some (Inl e), s)
      | Inr key \<Rightarrow>
          (case open_db pf envs (cf_db_root_dir config) key s of
             (None, s1) \<Rightarrow> (None, s1)
           | (Some (Inl e), s1) \<Rightarrow> (Some (Inl e), s1)
           | (Some (Inr (db, b)), s1) \<Rightarrow>
               (Some (and_then (chan_srv_new (pf_ifaces pf) (pf_bind pf) (pf_local_addr pf) (back_chan pf envs config))
                  (\<lambda>srv. Inr (\<lparr>bs_srv = srv, bs_db = db\<rparr>, b))), s1)))"

text \<open>The first \<open>n\<close> passes of \<open>announce_addrs_task\<close>; an error of a pass is logged.\<close>

fun announce_addrs_task :: "envs \<Rightarrow> socket_addr list \<Rightarrow> nat \<Rightarrow> back_state \<Rightarrow> back_state" where
  "announce_addrs_task envs addrs 0 b = b"
| "announce_addrs_task envs addrs (Suc n) b =
     (case announce_addrs envs addrs b of (r, b1) \<Rightarrow> announce_addrs_task envs addrs n b1)"

subsection \<open>Running\<close>

text \<open>\<open>back_run_test\<close> up to the wait for a shutdown: the temporary directory, the defaults, the initialization, the start.\<close>

definition back_run_test ::
  "platform \<Rightarrow> envs \<Rightarrow> envs \<Rightarrow> path res \<Rightarrow> config \<Rightarrow> store \<Rightarrow> ((back_srv_rec \<times> back_state) res) option \<times> store" where
  "back_run_test pf envs_init envs_srv tmp config s =
     (case tmp of
        Inl e \<Rightarrow> (Some (Inl e), s)
      | Inr root \<Rightarrow>
          (case apply_test_defaults pf 0 root config of
             (Inl e, c) \<Rightarrow> (Some (Inl e), s)
           | (Inr _, c) \<Rightarrow>
               (case config_init pf envs_init 1 c s of
                  (None, s1) \<Rightarrow> (None, s1)
                | (Some (Inl e), s1) \<Rightarrow> (Some (Inl e), s1)
                | (Some (Inr _), s1) \<Rightarrow> back_srv pf envs_srv 2 (c\<lparr>cf_init := None\<rparr>) s1)))"

text \<open>\<open>back_run\<close> ends after an initialization, or serves.\<close>

datatype run = Finished | Serve back_srv_rec back_state

definition back_run ::
  "platform \<Rightarrow> envs \<Rightarrow> envs \<Rightarrow> path res \<Rightarrow> config \<Rightarrow> store \<Rightarrow> (run res) option \<times> store" where
  "back_run pf envs_init envs_srv tmp config s =
     (if cf_test config then
        map_prod (map_option (\<lambda>r. and_then r (\<lambda>(srv, b). Inr (Serve srv b)))) id
          (back_run_test pf envs_init envs_srv tmp config s)
      else if cf_init config \<noteq> None then
        map_prod (map_option (\<lambda>r. and_then r (\<lambda>_. Inr Finished))) id (config_init pf envs_init 1 config s)
      else
        map_prod (map_option (\<lambda>r. and_then r (\<lambda>(srv, b). Inr (Serve srv b)))) id
          (back_srv pf envs_srv 2 config s))"

end
