(* ===== verification/Back_Auth.thy ===== *)
theory Back_Auth
  imports Back_Srv
begin

section \<open>Who is let in\<close>

text \<open>
  The authorization callback of the backend: exactly the tokens with an entry under
  \<open>cfg-api-key~\<close>; a tombstone, and an expiry that the pruning task has not acted on yet, do not
  revoke a key.
\<close>

subsection \<open>Tokens\<close>

definition printable :: "char \<Rightarrow> bool" where
  "printable c \<longleftrightarrow> 33 \<le> (of_char c :: nat) \<and> (of_char c :: nat) < 127"

text \<open>Trimming keeps a text that begins and ends with a printable character.\<close>

lemma white_space_ends:
  assumes "w \<in> set white_space"
  shows "w \<noteq> [] \<and> \<not> printable (hd w) \<and> \<not> printable (last w)"
proof -
  have "list_all (\<lambda>w. w \<noteq> [] \<and> \<not> printable (hd w) \<and> \<not> printable (last w)) white_space"
    by (simp add: white_space_def printable_def)
  then show ?thesis using assms by (simp add: list_all_iff)
qed

lemma trim_front_id:
  assumes "\<And>w. w \<in> set ws \<Longrightarrow> w \<noteq> [] \<and> \<not> printable (hd w)" "s \<noteq> [] \<Longrightarrow> printable (hd s)"
  shows "trim_front ws s = s"
proof -
  have "find (\<lambda>w. w \<noteq> [] \<and> prefix w s) ws = None"
    unfolding find_None_iff
  proof
    assume "\<exists>w. w \<in> set ws \<and> w \<noteq> [] \<and> prefix w s"
    then obtain w where w: "w \<in> set ws" "w \<noteq> []" "prefix w s" by blast
    then have "hd w = hd s" "s \<noteq> []" by (auto simp: prefix_def)
    then show False using assms(1) [OF w(1)] assms(2) by simp
  qed
  then show ?thesis by (subst trim_front.simps) simp
qed

lemma str_trim_id:
  assumes "s \<noteq> []" "printable (hd s)" "printable (last s)"
  shows "str_trim s = s"
proof -
  have "trim_front white_space s = s"
    using assms white_space_ends by (intro trim_front_id) auto
  moreover have "trim_front (map rev white_space) (rev s) = rev s"
    using assms white_space_ends by (intro trim_front_id) (auto simp: hd_rev)
  ultimately show ?thesis by (simp add: str_trim_def)
qed

text \<open>An api key as the client sends it.\<close>

definition plain_key :: "string \<Rightarrow> bool" where
  "plain_key k \<longleftrightarrow> k \<noteq> [] \<and> list_all printable k"

lemma token_of_bearer:
  assumes "plain_key k"
  shows "token_of (''Bearer '' @ k) = k"
proof -
  have "printable (hd k)" "printable (last k)" "k \<noteq> []"
    using assms by (auto simp: plain_key_def list_all_iff)
  then show ?thesis by (simp add: token_of_def str_trim_id del: append_Cons append_Nil)
qed

lemma header_text_bearer:
  assumes "plain_key k"
  shows "header_text (''Bearer '' @ k)"
proof -
  have k: "k \<noteq> []" "printable (last k)" "\<And>c. c \<in> set k \<Longrightarrow> printable c"
    using assms by (auto simp: plain_key_def list_all_iff)
  have "last k \<noteq> CHR '' ''" using k(2) by (auto simp: printable_def)
  moreover have "32 \<le> (of_char c :: nat) \<and> (of_char c :: nat) < 127" if "c \<in> set k" for c
    using k(3) [OF that] by (simp add: printable_def)
  ultimately show ?thesis using k(1) by (auto simp: header_text_def)
qed

subsection \<open>The callback\<close>

definition key_entry :: "string \<Rightarrow> string" where
  "key_entry token = CFG_API_KEY_PREFIX @ token"

lemma make_auth_cb_eq:
  "make_auth_cb envs auth b =
     (if token_of auth = [] then (Inr UNAUTHORIZED, b)
      else (Inr (if isl (and_then (fail_at (ev_sql (envs (bk_tick b))) AtBegin)
                         (\<lambda>_. fail_at (ev_sql (envs (bk_tick b))) AtQuery)) then INTERNAL_SERVER_ERROR
                 else if cfg_entry (key_entry (token_of auth)) b = None then UNAUTHORIZED else OK),
            b\<lparr>bk_tick := Suc (bk_tick b)\<rparr>))"
  by (cases "fail_at (ev_sql (envs (bk_tick b))) AtBegin"; cases "fail_at (ev_sql (envs (bk_tick b))) AtQuery";
      cases "cfg_entry (key_entry (token_of auth)) b")
    (auto simp: make_auth_cb_def Let_def db_get_def sql_get_def cfg_entry_def key_entry_def)

subsection \<open>Properties\<close>

text \<open>
  C21. The callback lets in exactly the holders of a stored key: it always answers with a status, 200
  only for a non-empty token with an entry \<open>cfg-api-key~<token>\<close>, 401 when there is no token or no
  entry, 500 when the lookup itself failed; it changes nothing. A header \<open>Bearer <key>\<close> of a printable
  key presents that key.
\<close>

theorem auth_exact:
  "(\<exists>code b'. make_auth_cb envs auth b = (Inr code, b') \<and> bk_store b' = bk_store b \<and> bk_counter b' = bk_counter b \<and>
     code \<in> {OK, UNAUTHORIZED, INTERNAL_SERVER_ERROR} \<and>
     (code = OK \<longrightarrow> token_of auth \<noteq> [] \<and> cfg_entry (CFG_API_KEY_PREFIX @ token_of auth) b \<noteq> None) \<and>
     (ev_sql (envs (bk_tick b)) = sql_ok \<longrightarrow>
        code = (if token_of auth \<noteq> [] \<and> cfg_entry (CFG_API_KEY_PREFIX @ token_of auth) b \<noteq> None
                then OK else UNAUTHORIZED))) \<and>
   (plain_key k \<longrightarrow> token_of (''Bearer '' @ k) = k)"
proof
  show "plain_key k \<longrightarrow> token_of (''Bearer '' @ k) = k" using token_of_bearer by blast
  show "\<exists>code b'. make_auth_cb envs auth b = (Inr code, b') \<and> bk_store b' = bk_store b \<and> bk_counter b' = bk_counter b \<and>
     code \<in> {OK, UNAUTHORIZED, INTERNAL_SERVER_ERROR} \<and>
     (code = OK \<longrightarrow> token_of auth \<noteq> [] \<and> cfg_entry (CFG_API_KEY_PREFIX @ token_of auth) b \<noteq> None) \<and>
     (ev_sql (envs (bk_tick b)) = sql_ok \<longrightarrow>
        code = (if token_of auth \<noteq> [] \<and> cfg_entry (CFG_API_KEY_PREFIX @ token_of auth) b \<noteq> None
                then OK else UNAUTHORIZED))"
    by (auto simp: make_auth_cb_eq key_entry_def status_defs)
qed

theorem auth_exact_witness:
  "fst (make_auth_cb (\<lambda>_. ok_env) ''Bearer xyz'' empty_back) = Inr UNAUTHORIZED"
proof -
  have "ev_sql ok_env = sql_ok" by (simp add: ok_env_def)
  then show ?thesis
    using auth_exact [of "\<lambda>_. ok_env" "''Bearer xyz''" empty_back "''xyz''"] by force
qed

text \<open>
  C37. A removed key still opens the server: after a write that replaces the entry of an api key by the
  tombstone (what the client's \<open>cfg-rm\<close> sends), with whatever expiry, the callback still answers 200 to
  that key, as long as the entry has not been pruned.
\<close>

theorem tombstoned_key_still_authorizes:
  assumes "back_wf b" "plain_key k"
    and "upsert_value envs (CFG_API_KEY_PREFIX @ k) CONFIG_TOMBSTONE m x b = (Inr u, b')"
    and "ev_sql (envs (bk_tick b')) = sql_ok"
  shows "fst (make_auth_cb envs (''Bearer '' @ k) b') = Inr OK"
proof -
  obtain t where "written (CFG_API_KEY_PREFIX @ k) t x (into_bytes CONFIG_TOMBSTONE) b b'"
    using upsert_value_result [OF assms(3,1)] by auto
  from written_cfg_entry [OF this, of "CFG_API_KEY_PREFIX @ k"]
  have "cfg_entry (key_entry k) b' \<noteq> None" by (simp add: key_entry_def)
  moreover have "k \<noteq> []" using assms(2) by (simp add: plain_key_def)
  ultimately show ?thesis using assms(4) token_of_bearer [OF assms(2)] by (auto simp: make_auth_cb_eq simp del: append_Cons)
qed

theorem tombstoned_key_still_authorizes_witness:
  "\<exists>b'. upsert_value (\<lambda>_. ok_env) (CFG_API_KEY_PREFIX @ ''old'') CONFIG_TOMBSTONE (Some 9) (Some 10) empty_back = (Inr (), b') \<and>
     fst (make_auth_cb (\<lambda>_. ok_env) (''Bearer '' @ ''old'') b') = Inr OK"
proof -
  obtain r b' where run: "upsert_value (\<lambda>_. ok_env) (CFG_API_KEY_PREFIX @ ''old'') CONFIG_TOMBSTONE (Some 9) (Some 10) empty_back = (r, b')"
    by force
  have "plain_key ''old''" by (simp add: plain_key_def printable_def)
  moreover have "only_from {(CFG_API_KEY_PREFIX @ ''old'', 9, Some 10, CONFIG_TOMBSTONE)} empty_back"
    by (simp add: only_from_def) (simp add: empty_back_def empty_tables_def q_entry_def)
  then have "r = Inr ()"
    by (rule only_from_succeeds [OF _ _ _ _ _ _ run])
      (simp_all add: ok_env_def CFG_API_KEY_PREFIX_def CONFIG_TOMBSTONE_def CFG_KEY_MAX_def CFG_VALUE_MAX_def)
  moreover have "ev_sql ok_env = sql_ok" by (simp add: ok_env_def)
  ultimately show ?thesis using tombstoned_key_still_authorizes [OF back_wf_empty] run by blast
qed

end
