(* ===== verification/Back_Start.thy ===== *)
theory Back_Start
  imports Back_Auth
begin

section \<open>Starting the backend\<close>

text \<open>
  What the test defaults, an initialization and a start leave, under the contract of the platform:
  json and base64 read back what they print, a json object is in the order of its keys.
\<close>

definition platform_ok :: "platform \<Rightarrow> bool" where
  "platform_ok pf \<longleftrightarrow> crypto_ok (pf_crates pf) \<and>
     (\<forall>t m. pf_from_json pf t = Inr m \<longrightarrow> sorted_wrt (<) (map fst m) \<and> (\<forall>v \<in> snd ` set m. utf8_valid v)) \<and>
     (\<forall>m t. sorted_wrt (<) (map fst m) \<and> (\<forall>v \<in> snd ` set m. utf8_valid v) \<and> pf_to_json pf m = Inr t \<longrightarrow>
        pf_from_json pf t = Inr m) \<and>
     (\<forall>key. length key = 32 \<longrightarrow> pf_base64_encode pf key \<noteq> [] \<and>
        pf_base64_decode pf (str_trim (pf_base64_encode pf key)) = Inr key) \<and>
     (\<forall>n. length (pf_random_key pf n) = 32)"

lemma platform_okD:
  assumes "platform_ok pf"
  shows "crypto_ok (pf_crates pf)"
    and "pf_from_json pf t = Inr m \<Longrightarrow> sorted_wrt (<) (map fst m)"
    and "pf_from_json pf t = Inr m \<Longrightarrow> v \<in> snd ` set m \<Longrightarrow> utf8_valid v"
    and "sorted_wrt (<) (map fst m) \<Longrightarrow> (\<And>v. v \<in> snd ` set m \<Longrightarrow> utf8_valid v) \<Longrightarrow> pf_to_json pf m = Inr t \<Longrightarrow>
      pf_from_json pf t = Inr m"
    and "length key = 32 \<Longrightarrow> pf_base64_encode pf key \<noteq> []"
    and "length key = 32 \<Longrightarrow> pf_base64_decode pf (str_trim (pf_base64_encode pf key)) = Inr key"
    and "length (pf_random_key pf n) = 32"
  using assms unfolding platform_ok_def by blast+

subsection \<open>The ordered map\<close>

lemma set_bt_insert: "set (map fst (bt_insert k v m)) = insert k (set (map fst m))"
  by (induction k v m rule: bt_insert.induct) auto

lemma sorted_bt_insert: "sorted_wrt (<) (map fst m) \<Longrightarrow> sorted_wrt (<) (map fst (bt_insert k v m))"
proof (induction k v m rule: bt_insert.induct)
  case (2 k v k' v' m)
  have below: "\<forall>x \<in> set (map fst m). k' < x" using 2(2) by simp
  consider "k = k'" | "k \<noteq> k'" "k < k'" | "k \<noteq> k'" "\<not> k < k'" "k' < k" by fastforce
  then show ?case
  proof cases
    case 1
    then show ?thesis using 2(2) by simp
  next
    case 2
    then show ?thesis using below \<open>sorted_wrt (<) (map fst ((k', v') # m))\<close> by auto
  next
    case 3
    then have "sorted_wrt (<) (map fst (bt_insert k v m))" using 2 by simp
    moreover have "\<forall>x \<in> set (map fst (bt_insert k v m)). k' < x"
      unfolding set_bt_insert using below 3 by simp
    ultimately show ?thesis using 3 by simp
  qed
qed simp

lemma map_of_bt_insert:
  "sorted_wrt (<) (map fst m) \<Longrightarrow> map_of (bt_insert k v m) = (map_of m)(k \<mapsto> v)"
  by (induction k v m rule: bt_insert.induct) (auto simp: fun_eq_iff)

lemma snd_bt_insert: "x \<in> snd ` set (bt_insert k v m) \<Longrightarrow> x = v \<or> x \<in> snd ` set m"
  by (induction k v m rule: bt_insert.induct) (auto split: if_splits)

subsection \<open>Opening\<close>

lemma db_new_not_panic:
  assumes "crypto_ok cr" "db_new cr pl now opl root master fs = (r, fs')"
  shows "r \<noteq> None"
proof -
  have "from_utf8 (key_literal (rk_sqlite (derive_root_keys cr master))) \<noteq> None"
    using key_literal_text assms(1) by (simp add: derive_root_keys_def)
  then have "sql_new opl (rk_sqlite (derive_root_keys cr master)) \<noteq> None"
    by (auto simp: sql_new_def split: sum.split)
  then show ?thesis using assms(2) by (auto simp: db_new_def Let_def split: prod.splits sum.splits option.splits)
qed

text \<open>Opening leaves the tables; the state it gives is that of the store, with a counter of 0.\<close>

lemma open_db_result:
  assumes "open_db pf envs root key s = (r, s')"
  shows "st_sql s' = st_sql s \<and> (crypto_ok (pf_crates pf) \<longrightarrow> r \<noteq> None) \<and>
    (\<forall>db b. r = Some (Inr (db, b)) \<longrightarrow> bk_store b = s' \<and> bk_counter b = 0 \<and> bk_tick b = 1)"
proof -
  obtain r0 fs1 where "db_new (pf_crates pf) (ev_fs (envs 0)) (ev_now (envs 0)) (pf_open pf) root key (st_fs s) = (r0, fs1)"
    by force
  then show ?thesis
    using assms db_new_not_panic [of "pf_crates pf" "ev_fs (envs 0)" "ev_now (envs 0)" "pf_open pf" root key "st_fs s" r0 fs1]
    by (auto simp: open_db_def split: option.splits sum.splits prod.splits)
qed

subsection \<open>Initial vals\<close>

definition store_entry :: "string \<Rightarrow> store \<Rightarrow> entry_row option" where
  "store_entry key s = q_entry (CFG_CLASS, key) (st_sql s)"

lemma cfg_entry_store: "cfg_entry key b = store_entry key (bk_store b)"
  by (simp add: cfg_entry_def store_entry_def)

text \<open>Every value was stored or beaten by a newer entry; what was not given stays.\<close>

lemma init_values_result:
  assumes "init_values envs vals b = (Inr u, b')" "back_wf b" "distinct (map fst vals)"
  shows "back_wf b' \<and>
    (\<forall>key. case map_of vals key of
        None \<Rightarrow> cfg_entry key b' = cfg_entry key b
      | Some v \<Rightarrow> \<exists>m. cfg_entry key b' = newest (cfg_row key m None v) (cfg_entry key b))"
  using assms
proof (induction vals arbitrary: b)
  case (Cons kv vals)
  obtain k v where kv: "kv = (k, v)" by force
  obtain b1 where up: "upsert_value envs k v None None b = (Inr (), b1)" and run: "init_values envs vals b1 = (Inr u, b')"
    using Cons.prems(1) kv by (auto simp: then_st_Inr)
  have wf: "back_wf b1" by (rule upsert_value_wf [OF up Cons.prems(2)])
  obtain m where "written k m None (into_bytes v) b b1"
    using upsert_value_result [OF up Cons.prems(2)] by auto
  then have e: "cfg_entry key b1 = (if key = k then newest (cfg_row k m None v) (cfg_entry k b) else cfg_entry key b)" for key
    by (rule written_cfg_entry)
  have fresh: "map_of vals k = None" "distinct (map fst vals)"
    using Cons.prems(3) kv by (auto simp: map_of_eq_None_iff)
  note IH = Cons.IH [OF run wf fresh(2)]
  have "case map_of (kv # vals) key of
        None \<Rightarrow> cfg_entry key b' = cfg_entry key b
      | Some v \<Rightarrow> \<exists>m. cfg_entry key b' = newest (cfg_row key m None v) (cfg_entry key b)" for key
  proof (cases "key = k")
    case True
    then have "cfg_entry k b' = cfg_entry k b1" using IH fresh(1) by (auto dest: spec [of _ k])
    then show ?thesis using True e [of k] kv by auto
  next
    case False
    then show ?thesis using IH e [of key] kv by (auto dest: spec [of _ key] split: option.splits)
  qed
  then show ?case using IH by blast
qed simp

lemma config_init_run:
  assumes "config_init pf envs n config s = (Some (Inr u), s')" "tables_wf (st_sql s)"
    and "platform_ok pf"
  shows "\<exists>vals. pf_from_json pf (case cf_init config of Some init \<Rightarrow> init | None \<Rightarrow> ''{}'') = Inr vals \<and>
    tables_wf (st_sql s') \<and>
    (\<forall>key. case map_of vals key of
        None \<Rightarrow> store_entry key s' = store_entry key s
      | Some v \<Rightarrow> \<exists>m. store_entry key s' = newest (cfg_row key m None v) (store_entry key s))"
proof -
  obtain vals where v: "pf_from_json pf (case cf_init config of Some init \<Rightarrow> init | None \<Rightarrow> ''{}'') = Inr vals"
    using assms(1) by (cases "pf_from_json pf (case cf_init config of Some init \<Rightarrow> init | None \<Rightarrow> ''{}'')")
      (auto simp: config_init_def)
  then obtain key where key: "resolve_encryption_key pf n config = Inr key"
    using assms(1) by (cases "resolve_encryption_key pf n config") (auto simp: config_init_def)
  obtain r s1 where op: "open_db pf envs (cf_db_root_dir config) key s = (r, s1)" by force
  obtain db b where r: "r = Some (Inr (db, b))"
    using assms(1) v key op by (auto simp: config_init_def split: option.splits sum.splits)
  obtain r2 b1 where run: "init_values envs vals b = (r2, b1)" by force
  have r2: "r2 = Inr u" "s' = bk_store b1"
    using assms(1) v key op r run by (auto simp: config_init_def)
  have b: "bk_store b = s1" "st_sql s1 = st_sql s"
    using open_db_result [OF op] r by auto
  have wf: "back_wf b" using assms(2) b by (simp add: back_wf_def)
  have "sorted_wrt (<) (map fst vals)" by (rule platform_okD(2) [OF assms(3) v])
  then have "distinct (map fst vals)" using strict_sorted_iff by blast
  from init_values_result [OF run [unfolded r2(1)] wf this]
  have "tables_wf (st_sql s') \<and> (\<forall>key. case map_of vals key of
        None \<Rightarrow> store_entry key s' = store_entry key s
      | Some v \<Rightarrow> \<exists>m. store_entry key s' = newest (cfg_row key m None v) (store_entry key s))"
    unfolding cfg_entry_store store_entry_def r2(2) b back_wf_def .
  with v show ?thesis by blast
qed

lemma test_init_result:
  assumes "platform_ok pf" "test_init pf config = Inr text"
  shows "\<exists>old new. (case cf_init config of Some init \<Rightarrow> pf_from_json pf init | None \<Rightarrow> Inr []) = Inr old \<and>
    pf_from_json pf text = Inr new \<and> map_of new = (map_of old)(''cfg-api-key~test'' \<mapsto> [])"
proof -
  have key: "CFG_API_KEY_PREFIX @ TEST_API_KEY = ''cfg-api-key~test''"
    by (simp add: CFG_API_KEY_PREFIX_def TEST_API_KEY_def)
  obtain old where old: "(case cf_init config of Some init \<Rightarrow> pf_from_json pf init | None \<Rightarrow> Inr []) = Inr old"
    and js: "pf_to_json pf (bt_insert ''cfg-api-key~test'' [] old) = Inr text"
    using assms(2) unfolding test_init_def key
    by (cases "cf_init config") (auto simp: and_then_eq_Inr split: sum.splits)
  have sorted: "sorted_wrt (<) (map fst old)"
    using old platform_okD(2) [OF assms(1)] by (cases "cf_init config") auto
  have text_vals: "utf8_valid v" if "v \<in> snd ` set old" for v
    using old platform_okD(3) [OF assms(1)] that by (cases "cf_init config") auto
  let ?new = "bt_insert ''cfg-api-key~test'' [] old"
  have "pf_from_json pf text = Inr ?new"
  proof (rule platform_okD(4) [OF assms(1) _ _ js])
    show "sorted_wrt (<) (map fst ?new)" by (rule sorted_bt_insert [OF sorted])
    show "utf8_valid v" if "v \<in> snd ` set ?new" for v
      using snd_bt_insert [OF that] text_vals by auto
  qed
  then show ?thesis using old map_of_bt_insert [OF sorted] by blast
qed

lemma apply_test_defaults_Inr:
  "apply_test_defaults pf n root config = (Inr u, c) \<longleftrightarrow>
     (\<exists>text. test_init pf config = Inr text \<and>
       c = (test_addr root config)\<lparr>cf_init := Some text,
         cf_encryption_key := (if cf_encryption_key config = None \<or> cf_encryption_key config = Some []
           then Some (encode_encryption_key pf (random_encryption_key pf n)) else cf_encryption_key config)\<rparr>)"
proof -
  have "cf_encryption_key (test_addr root config) = cf_encryption_key config"
    by (simp add: test_addr_def Let_def)
  then show ?thesis
    by (cases "test_init pf config"; cases "cf_encryption_key config")
      (auto simp: apply_test_defaults_def Let_def)
qed

lemma test_key_pinned:
  assumes "platform_ok pf" "apply_test_defaults pf n root config = (Inr u, c)"
  shows "resolve_encryption_key pf m c =
    (case cf_encryption_key config of
       Some key \<Rightarrow> if key \<noteq> [] then parse_encryption_key pf key else Inr (pf_random_key pf n)
     | None \<Rightarrow> Inr (pf_random_key pf n))"
proof -
  note len = platform_okD(7) [OF assms(1), of n]
  have "parse_encryption_key pf (pf_base64_encode pf (pf_random_key pf n)) = Inr (pf_random_key pf n)"
    using platform_okD(6) [OF assms(1) len] len by (simp add: parse_encryption_key_def)
  then show ?thesis
    using assms(2) platform_okD(5) [OF assms(1) len]
    by (cases "cf_encryption_key config")
      (auto simp: apply_test_defaults_Inr resolve_encryption_key_def encode_encryption_key_def random_encryption_key_def)
qed

lemma back_srv_result:
  assumes "back_srv pf envs n config s = (Some (Inr (srv, b)), s')"
  shows "bk_store b = s' \<and> st_sql s' = st_sql s \<and> bk_counter b = 0 \<and> bk_tick b = 1 \<and>
    si_auth_cb (cs_inner (bs_srv srv)) = make_auth_cb envs \<and>
    si_handlers (cs_inner (bs_srv srv)) = [HEALTH_REQ \<mapsto> health_handler,
      CFG_GET_REQ \<mapsto> cfg_get_handler (pf_codec pf) envs, CFG_PUT_REQ \<mapsto> cfg_put_handler (pf_codec pf) envs]"
proof -
  obtain key where key: "resolve_encryption_key pf n config = Inr key"
    using assms by (cases "resolve_encryption_key pf n config") (auto simp: back_srv_def)
  obtain r s1 where opened: "open_db pf envs (cf_db_root_dir config) key s = (r, s1)" by force
  obtain db b1 where r: "r = Some (Inr (db, b1))"
    using assms key opened by (auto simp: back_srv_def split: option.splits sum.splits)
  let ?new = "chan_srv_new (pf_ifaces pf) (pf_bind pf) (pf_local_addr pf) (back_chan pf envs config)"
  have new: "and_then ?new (\<lambda>srv. Inr (\<lparr>bs_srv = srv, bs_db = db\<rparr>, b1)) = Inr (srv, b)" and s': "s' = s1"
    using assms key opened r by (simp_all add: back_srv_def)
  then have b: "b1 = b" and srv: "?new = Inr (bs_srv srv)" by (auto simp: and_then_eq_Inr)
  have chan: "si_handlers (cs_inner (bs_srv srv)) = map_of ((HEALTH_REQ, health_handler) #
        map (\<lambda>h. (h_req h, h)) (sc_handlers (back_chan pf envs config)))"
    "si_auth_cb (cs_inner (bs_srv srv)) = sc_auth_cb (back_chan pf envs config)"
    using chan_srv_new_result [where show_ifaces = "pf_ifaces pf" and bind_listener = "pf_bind pf" and
        local_addr = "pf_local_addr pf" and config = "back_chan pf envs config"] srv by simp_all
  have "map_of ((HEALTH_REQ, health_handler) # map (\<lambda>h. (h_req h, h)) (sc_handlers (back_chan pf envs config))) =
      [HEALTH_REQ \<mapsto> health_handler, CFG_GET_REQ \<mapsto> cfg_get_handler (pf_codec pf) envs,
       CFG_PUT_REQ \<mapsto> cfg_put_handler (pf_codec pf) envs]"
    by (auto simp: back_chan_def cfg_get_handler_def cfg_put_handler_def CFG_GET_REQ_def CFG_PUT_REQ_def HEALTH_REQ_def fun_eq_iff)
  then show ?thesis
    using chan open_db_result [OF opened] r b s' by (simp add: back_chan_def)
qed

text \<open>A test run that gets to serving has stored the defaults in the database it serves from.\<close>

lemma back_run_test_seeds:
  assumes "platform_ok pf" "tables_wf (st_sql s)"
    and "back_run_test pf envs_init envs_srv tmp config s = (Some (Inr (srv, b)), s')"
  obtains c s1 old where "back_srv pf envs_srv 2 c s1 = (Some (Inr (srv, b)), s')" "tables_wf (st_sql s1)"
    and "(case cf_init config of Some init \<Rightarrow> pf_from_json pf init | None \<Rightarrow> Inr []) = Inr old"
    and "\<And>key. case ((map_of old)(''cfg-api-key~test'' \<mapsto> [])) key of
        None \<Rightarrow> store_entry key s1 = store_entry key s
      | Some v \<Rightarrow> \<exists>m. store_entry key s1 = newest (cfg_row key m None v) (store_entry key s)"
proof -
  obtain root where root: "tmp = Inr root"
    using assms(3) by (cases tmp) (auto simp: back_run_test_def)
  obtain r c where d: "apply_test_defaults pf 0 root config = (r, c)" by force
  obtain u where u: "r = Inr u"
    using assms(3) root d by (cases r) (auto simp: back_run_test_def)
  obtain r1 s1 where init: "config_init pf envs_init 1 c s = (r1, s1)" by force
  obtain u1 where u1: "r1 = Some (Inr u1)"
    and srv: "back_srv pf envs_srv 2 (c\<lparr>cf_init := None\<rparr>) s1 = (Some (Inr (srv, b)), s')"
    using assms(3) root d u init by (auto simp: back_run_test_def split: option.splits sum.splits)
  obtain js where js: "test_init pf config = Inr js" and ci: "cf_init c = Some js"
    using d u by (auto simp: apply_test_defaults_Inr)
  obtain old new where old: "(case cf_init config of Some init \<Rightarrow> pf_from_json pf init | None \<Rightarrow> Inr []) = Inr old"
    and new: "pf_from_json pf js = Inr new" "map_of new = (map_of old)(''cfg-api-key~test'' \<mapsto> [])"
    using test_init_result [OF assms(1) js] by auto
  obtain vals where vals: "pf_from_json pf js = Inr vals" "tables_wf (st_sql s1)"
    and stored: "\<forall>key. case map_of vals key of
        None \<Rightarrow> store_entry key s1 = store_entry key s
      | Some v \<Rightarrow> \<exists>m. store_entry key s1 = newest (cfg_row key m None v) (store_entry key s)"
    using config_init_run [OF init [unfolded u1] assms(2,1)] ci by auto
  have "map_of vals = (map_of old)(''cfg-api-key~test'' \<mapsto> [])" using vals(1) new by simp
  then show ?thesis using that [OF srv vals(2) old] stored by simp
qed

lemma back_run_test_result:
  assumes "platform_ok pf" "tables_wf (st_sql s)"
    and "back_run_test pf envs_init envs_srv tmp config s = (Some (Inr (srv, b)), s')"
  shows "bk_store b = s' \<and> bk_counter b = 0 \<and> bk_tick b = 1 \<and> back_wf b \<and>
    si_auth_cb (cs_inner (bs_srv srv)) = make_auth_cb envs_srv \<and>
    si_handlers (cs_inner (bs_srv srv)) = [HEALTH_REQ \<mapsto> health_handler,
      CFG_GET_REQ \<mapsto> cfg_get_handler (pf_codec pf) envs_srv, CFG_PUT_REQ \<mapsto> cfg_put_handler (pf_codec pf) envs_srv] \<and>
    cfg_entry ''cfg-api-key~test'' b \<noteq> None"
proof (rule back_run_test_seeds [OF assms])
  fix c s1 old
  assume srv: "back_srv pf envs_srv 2 c s1 = (Some (Inr (srv, b)), s')" and wf: "tables_wf (st_sql s1)"
    and stored: "\<And>key. case ((map_of old)(''cfg-api-key~test'' \<mapsto> [])) key of
        None \<Rightarrow> store_entry key s1 = store_entry key s
      | Some v \<Rightarrow> \<exists>m. store_entry key s1 = newest (cfg_row key m None v) (store_entry key s)"
  note res = back_srv_result [OF srv]
  have "store_entry ''cfg-api-key~test'' s1 \<noteq> None" using stored [of "''cfg-api-key~test''"] by auto
  then show ?thesis using res wf by (simp add: cfg_entry_store store_entry_def back_wf_def)
qed

lemma back_run_serves:
  "cf_test config \<Longrightarrow> back_run pf envs_init envs_srv tmp config s = (Some (Inr (Serve srv b)), s') \<longleftrightarrow>
     back_run_test pf envs_init envs_srv tmp config s = (Some (Inr (srv, b)), s')"
  by (cases "back_run_test pf envs_init envs_srv tmp config s") (auto simp: back_run_def and_then_eq_Inr split: option.splits)

lemma back_run_not_panic:
  assumes "platform_ok pf"
  shows "fst (back_run pf envs_init envs_srv tmp config s) \<noteq> None"
proof -
  have opened: "fst (open_db pf envs root key s) \<noteq> None" for envs root key s
    using open_db_result [of pf envs root key s] platform_okD(1) [OF assms] by (metis prod.collapse)
  have init: "fst (config_init pf envs n c s) \<noteq> None" for envs n c s
  proof (cases "pf_from_json pf (case cf_init c of Some init \<Rightarrow> init | None \<Rightarrow> ''{}'')")
    case (Inr vals)
    show ?thesis
    proof (cases "resolve_encryption_key pf n c")
      case (Inr key)
      obtain r s1 where "open_db pf envs (cf_db_root_dir c) key s = (Some r, s1)"
        using opened [of envs "cf_db_root_dir c" key s] by (metis not_None_eq prod.collapse)
      then show ?thesis using Inr \<open>pf_from_json pf _ = Inr vals\<close>
        by (cases r) (auto simp: config_init_def split: prod.split)
    qed (use Inr in \<open>simp add: config_init_def\<close>)
  qed (simp add: config_init_def)
  have srv: "fst (back_srv pf envs n c s) \<noteq> None" for envs n c s
  proof (cases "resolve_encryption_key pf n c")
    case (Inr key)
    obtain r s1 where "open_db pf envs (cf_db_root_dir c) key s = (Some r, s1)"
      using opened [of envs "cf_db_root_dir c" key s] by (metis not_None_eq prod.collapse)
    then show ?thesis using Inr by (cases r) (auto simp: back_srv_def split: prod.split)
  qed (simp add: back_srv_def)
  have "fst (back_run_test pf envs_init envs_srv tmp config s) \<noteq> None"
  proof (cases tmp)
    case (Inr root)
    obtain r c where d: "apply_test_defaults pf 0 root config = (r, c)" by force
    obtain r1 s1 where i: "config_init pf envs_init 1 c s = (Some r1, s1)"
      using init [of envs_init 1 c s] by (metis not_None_eq prod.collapse)
    show ?thesis
      using Inr d i srv [of envs_srv 2 "c\<lparr>cf_init := None\<rparr>" s1]
      by (cases r; cases r1) (simp_all add: back_run_test_def)
  qed (simp add: back_run_test_def)
  then show ?thesis using init srv by (simp add: back_run_def fst_map_prod)
qed

subsection \<open>An instance\<close>

text \<open>Hexadecimal in place of base64, and the two json texts of a test run.\<close>

definition demo_platform :: platform where
  "demo_platform = \<lparr>pf_crates = demo_crates, pf_open = (\<lambda>_ _. None), pf_codec = demo_codec,
     pf_base64_decode = (\<lambda>t. case demo_unhex t of Some bs \<Rightarrow> Inr bs | None \<Rightarrow> Inl ''bad digit''),
     pf_base64_encode = demo_hex,
     pf_from_json = (\<lambda>t. if t = ''{}'' then Inr [] else if t = ''{test}'' then Inr [(''cfg-api-key~test'', [])]
       else Inl ''expected value''),
     pf_to_json = (\<lambda>m. if m = [] then Inr ''{}'' else if m = [(''cfg-api-key~test'', [])] then Inr ''{test}''
       else Inl ''unsupported''),
     pf_random_key = (\<lambda>n. replicate 32 (of_nat n)), pf_ifaces = Inr [], pf_bind = Inr, pf_local_addr = Inr\<rparr>"

lemma platform_ok_demo [simp]: "platform_ok demo_platform"
proof -
  have "demo_unhex (str_trim (demo_hex key)) = Some key \<and> demo_hex key \<noteq> []" if "length key = 32" for key
  proof -
    have "length (demo_hex key) = 64" using that by simp
    then have ne: "demo_hex key \<noteq> []" by (metis list.size(3) zero_neq_numeral)
    have "list_all printable hex_chars" by (simp add: hex_chars_def printable_def)
    then have "printable c" if "c \<in> set (demo_hex key)" for c
      using that set_demo_hex [of key] by (auto simp: list_all_iff)
    then have "str_trim (demo_hex key) = demo_hex key"
      using ne by (intro str_trim_id) simp_all
    then show ?thesis using ne by (simp add: demo_unhex_hex)
  qed
  then show ?thesis by (auto simp: platform_ok_def demo_platform_def)
qed

subsection \<open>Properties\<close>

text \<open>
  The test defaults: the root is the one given, an explicit bind list is kept and an empty one
  becomes \<open>127.0.0.1:22002\<close>, the init object is the given one with the test api key added, and the key is
  pinned, so the initialization and the server, which each resolve it, get the same one: the configured
  key, or the one random key that was generated.
\<close>

lemma test_defaults_correct:
  assumes "platform_ok pf" "apply_test_defaults pf n root config = (Inr u, c)"
  shows "cf_db_root_dir c = root \<and>
    cf_addr c = (if cf_addr config = [] then [TEST_BIND_ADDR] else cf_addr config) \<and>
    (\<exists>old new js. (case cf_init config of Some init \<Rightarrow> pf_from_json pf init | None \<Rightarrow> Inr []) = Inr old \<and>
       cf_init c = Some js \<and> pf_from_json pf js = Inr new \<and>
       map_of new = (map_of old)(''cfg-api-key~test'' \<mapsto> [])) \<and>
    (\<forall>m. resolve_encryption_key pf m c =
       (case cf_encryption_key config of
          Some key \<Rightarrow> if key \<noteq> [] then parse_encryption_key pf key else Inr (pf_random_key pf n)
        | None \<Rightarrow> Inr (pf_random_key pf n)))"
proof (intro conjI allI)
  obtain js where js: "test_init pf config = Inr js" and c: "cf_init c = Some js"
    "cf_db_root_dir c = cf_db_root_dir (test_addr root config)" "cf_addr c = cf_addr (test_addr root config)"
    using assms(2) by (auto simp: apply_test_defaults_Inr)
  show "cf_db_root_dir c = root" "cf_addr c = (if cf_addr config = [] then [TEST_BIND_ADDR] else cf_addr config)"
    using c by (simp_all add: test_addr_def Let_def)
  show "\<exists>old new js. (case cf_init config of Some init \<Rightarrow> pf_from_json pf init | None \<Rightarrow> Inr []) = Inr old \<and>
       cf_init c = Some js \<and> pf_from_json pf js = Inr new \<and> map_of new = (map_of old)(''cfg-api-key~test'' \<mapsto> [])"
    using test_init_result [OF assms(1) js] c(1) by blast
qed (rule test_key_pinned [OF assms])

definition demo_test_config :: config where
  "demo_test_config = \<lparr>cf_db_root_dir = [], cf_addr = [], cf_init = None, cf_encryption_key = None, cf_test = True\<rparr>"

lemma test_defaults_correct_witness:
  "\<exists>c. apply_test_defaults demo_platform 0 [''tmp''] demo_test_config = (Inr (), c) \<and>
     cf_addr c = [TEST_BIND_ADDR] \<and> resolve_encryption_key demo_platform 7 c = Inr (replicate 32 0)"
proof -
  have "test_init demo_platform demo_test_config = Inr ''{test}''"
    by (simp add: test_init_def demo_test_config_def demo_platform_def CFG_API_KEY_PREFIX_def TEST_API_KEY_def)
  then obtain c where run: "apply_test_defaults demo_platform 0 [''tmp''] demo_test_config = (Inr (), c)"
    using apply_test_defaults_Inr by blast
  from test_defaults_correct [OF platform_ok_demo run] show ?thesis
    using run by (simp add: demo_test_config_def demo_platform_def)
qed

text \<open>
  An initialization that succeeds has stored its object: every key of the json object has its value
  without an expiry, or an entry that was newer already, and every other config entry is as before.
\<close>

lemma config_init_correct:
  assumes "platform_ok pf" "tables_wf (st_sql s)" "config_init pf envs n config s = (Some (Inr u), s')"
  shows "\<exists>vals. pf_from_json pf (case cf_init config of Some init \<Rightarrow> init | None \<Rightarrow> ''{}'') = Inr vals \<and>
    tables_wf (st_sql s') \<and>
    (\<forall>key. case map_of vals key of
        None \<Rightarrow> store_entry key s' = store_entry key s
      | Some v \<Rightarrow> \<exists>m. store_entry key s' = newest (cfg_row key m None v) (store_entry key s))"
  using config_init_run [OF assms(3,2,1)] .

lemma config_init_correct_witness:
  "\<exists>r s'. config_init demo_platform (\<lambda>_. ok_env) 0 (demo_test_config\<lparr>cf_init := Some ''{test}''\<rparr>) \<lparr>st_sql = empty_tables, st_fs = []\<rparr>
      = (r, s') \<and> (r = Some (Inr ()) \<longrightarrow> store_entry ''cfg-api-key~test'' s' \<noteq> None)"
proof -
  let ?c = "demo_test_config\<lparr>cf_init := Some ''{test}''\<rparr>" and ?s = "\<lparr>st_sql = empty_tables, st_fs = []\<rparr>"
  obtain r s' where run: "config_init demo_platform (\<lambda>_. ok_env) 0 ?c ?s = (r, s')" by force
  have "store_entry ''cfg-api-key~test'' s' \<noteq> None" if "r = Some (Inr ())"
  proof -
    have "tables_wf (st_sql ?s)" by simp
    from config_init_correct [OF platform_ok_demo this run [unfolded that]]
    obtain vals where "pf_from_json demo_platform ''{test}'' = Inr vals"
      "\<forall>key. case map_of vals key of None \<Rightarrow> store_entry key s' = store_entry key ?s
         | Some v \<Rightarrow> \<exists>m. store_entry key s' = newest (cfg_row key m None v) (store_entry key ?s)"
      by auto
    then obtain m where "store_entry ''cfg-api-key~test'' s' =
        newest (cfg_row ''cfg-api-key~test'' m None []) (store_entry ''cfg-api-key~test'' ?s)"
      by (auto simp: demo_platform_def dest!: spec [of _ "''cfg-api-key~test''"])
    then show ?thesis by simp
  qed
  then show ?thesis using run by blast
qed

text \<open>
  C38. Test mode serves the test key, and starting never panics: whatever the configuration, the store, the
  temporary directory and every call of sqlite, the file system and the network do (json, base64 and the
  crypto crates keep their contracts), \<open>back_run\<close> returns, serves or gives an error, a failing \<open>tempdir()\<close> its own; and
  on a database that obeys the schema, a test run that gets to serving has exactly the three handlers, and
  its callback lets in \<open>Bearer test\<close> at its first lookup, unless sqlite fails there.
\<close>

theorem test_mode_serves:
  assumes "platform_ok pf"
  shows "fst (back_run pf envs_init envs_srv tmp config s) \<noteq> None \<and>
    (\<forall>e. cf_test config \<and> tmp = Inl e \<longrightarrow> back_run pf envs_init envs_srv tmp config s = (Some (Inl e), s)) \<and>
    (\<forall>srv b s'. tables_wf (st_sql s) \<and> cf_test config \<and>
         back_run pf envs_init envs_srv tmp config s = (Some (Inr (Serve srv b)), s') \<longrightarrow>
       dom (si_handlers (cs_inner (bs_srv srv))) = {''__health'', ''cfg-get'', ''cfg-put''} \<and>
       (ev_sql (envs_srv 1) = sql_ok \<longrightarrow> fst (si_auth_cb (cs_inner (bs_srv srv)) ''Bearer test'' b) = Inr OK))"
proof (intro conjI allI impI)
  show "fst (back_run pf envs_init envs_srv tmp config s) \<noteq> None" by (rule back_run_not_panic [OF assms])
  show "back_run pf envs_init envs_srv tmp config s = (Some (Inl e), s)" if "cf_test config \<and> tmp = Inl e" for e
    using that by (simp add: back_run_def back_run_test_def and_then_def)
  fix srv b s'
  assume run: "tables_wf (st_sql s) \<and> cf_test config \<and>
    back_run pf envs_init envs_srv tmp config s = (Some (Inr (Serve srv b)), s')"
  then have "back_run_test pf envs_init envs_srv tmp config s = (Some (Inr (srv, b)), s')"
    using back_run_serves [of config] by blast
  note res = back_run_test_result [OF assms conjunct1 [OF run] this]
  show "dom (si_handlers (cs_inner (bs_srv srv))) = {''__health'', ''cfg-get'', ''cfg-put''}"
    using res by (auto simp: CFG_GET_REQ_def CFG_PUT_REQ_def HEALTH_REQ_def)
  have "plain_key ''test''" by (simp add: plain_key_def printable_def)
  from token_of_bearer [OF this] have "token_of ''Bearer test'' = ''test''" by simp
  then show "fst (si_auth_cb (cs_inner (bs_srv srv)) ''Bearer test'' b) = Inr OK" if "ev_sql (envs_srv 1) = sql_ok"
    using res that by (auto simp: make_auth_cb_eq key_entry_def CFG_API_KEY_PREFIX_def)
qed

lemma demo_open:
  "\<exists>db. open_db demo_platform envs [] key s =
     (Some (Inr (db, \<lparr>bk_store = s, bk_counter = 0, bk_tick = 1\<rparr>)), s)"
proof -
  let ?key = "rk_sqlite (derive_root_keys demo_crates key)"
  have "from_utf8 (key_literal ?key) = Some (key_text ?key)"
    by (rule key_literal_text) (simp add: derive_root_keys_def)
  then obtain conns where "sql_new (\<lambda>_ _. None) ?key = Some (Inr conns)"
    by (auto simp: sql_new_def open_at_def open_read_def)
  then show ?thesis
    by (simp add: open_db_def db_new_def create_dir_all_def demo_platform_def Let_def)
qed

lemma demo_test_run:
  "\<exists>srv b s'. back_run_test demo_platform (\<lambda>_. ok_env) (\<lambda>_. ok_env) (Inr []) demo_test_config
     \<lparr>st_sql = empty_tables, st_fs = []\<rparr> = (Some (Inr (srv, b)), s')"
proof -
  let ?s = "\<lparr>st_sql = empty_tables, st_fs = []\<rparr>" and ?envs = "\<lambda>_. ok_env"
  let ?b = "\<lparr>bk_store = ?s, bk_counter = 0, bk_tick = 1\<rparr>"
  have "test_init demo_platform demo_test_config = Inr ''{test}''"
    by (simp add: test_init_def demo_test_config_def demo_platform_def CFG_API_KEY_PREFIX_def TEST_API_KEY_def)
  then obtain c where c: "apply_test_defaults demo_platform 0 [] demo_test_config = (Inr (), c)"
    "cf_init c = Some ''{test}''" "cf_db_root_dir c = []"
    unfolding apply_test_defaults_Inr by (simp add: test_addr_def Let_def)
  have key: "resolve_encryption_key demo_platform m c = Inr (replicate 32 0)"
    "resolve_encryption_key demo_platform m (c\<lparr>cf_init := None\<rparr>) = Inr (replicate 32 0)" for m
    using test_key_pinned [OF platform_ok_demo c(1), of m]
    by (simp_all add: demo_test_config_def demo_platform_def resolve_encryption_key_def)
  have ahead: "counter_ahead ?envs ?b"
    by (simp add: counter_ahead_def stamps_def back_wf_def) (simp add: empty_tables_def i64_defs)
  obtain r1 b1 where up: "upsert_value ?envs ''cfg-api-key~test'' [] None None ?b = (r1, b1)" by force
  have r1: "r1 = Inr ()"
    using attempt_ahead [OF ahead _ _ _ _ up] by (simp add: ok_env_def CFG_KEY_MAX_def CFG_VALUE_MAX_def i64_max_def)
  have init: "config_init demo_platform ?envs 1 c ?s = (Some (Inr ()), bk_store b1)"
    using demo_open [of ?envs "replicate 32 0" ?s] c(2,3) key up r1
    by (auto simp: config_init_def demo_platform_def)
  let ?new = "chan_srv_new (Inr []) Inr Inr (back_chan demo_platform ?envs (c\<lparr>cf_init := None\<rparr>))"
  have "cf_addr c = [TEST_BIND_ADDR]"
    using c(1) by (auto simp: apply_test_defaults_Inr test_addr_def Let_def demo_test_config_def)
  then have "isl ?new = False"
    by (simp add: chan_srv_new_def back_chan_def back_bind_def cfg_get_handler_def cfg_put_handler_def
        CFG_GET_REQ_def CFG_PUT_REQ_def HEALTH_REQ_def resolve_bind_addrs_def TEST_BIND_ADDR_def)
  then obtain chan where chan: "?new = Inr chan" by (cases ?new) auto
  obtain db where "back_srv demo_platform ?envs 2 (c\<lparr>cf_init := None\<rparr>) (bk_store b1) =
      (Some (Inr (\<lparr>bs_srv = chan, bs_db = db\<rparr>, \<lparr>bk_store = bk_store b1, bk_counter = 0, bk_tick = 1\<rparr>)), bk_store b1)"
    using demo_open [of ?envs "replicate 32 0" "bk_store b1"] c(3) key(2) chan
    by (auto simp: back_srv_def demo_platform_def)
  then show ?thesis using c(1) init by (simp add: back_run_test_def)
qed

theorem test_mode_serves_witness:
  "\<exists>srv b s'. back_run demo_platform (\<lambda>_. ok_env) (\<lambda>_. ok_env) (Inr []) demo_test_config
       \<lparr>st_sql = empty_tables, st_fs = []\<rparr> = (Some (Inr (Serve srv b)), s') \<and>
     dom (si_handlers (cs_inner (bs_srv srv))) = {''__health'', ''cfg-get'', ''cfg-put''} \<and>
     fst (si_auth_cb (cs_inner (bs_srv srv)) ''Bearer test'' b) = Inr OK"
proof -
  let ?s = "\<lparr>st_sql = empty_tables, st_fs = []\<rparr>" and ?envs = "\<lambda>_. ok_env"
  have test: "cf_test demo_test_config" by (simp add: demo_test_config_def)
  obtain srv b s' where run: "back_run demo_platform ?envs ?envs (Inr []) demo_test_config ?s = (Some (Inr (Serve srv b)), s')"
    using demo_test_run back_run_serves [OF test] by blast
  have wf: "tables_wf (st_sql ?s)" and sql: "ev_sql (?envs 1) = sql_ok" by (simp_all add: ok_env_def)
  note serves = test_mode_serves [OF platform_ok_demo, of ?envs ?envs "Inr []" demo_test_config ?s, THEN conjunct2, THEN conjunct2,
      THEN spec, of srv, THEN spec, of b, THEN spec, of s', THEN mp, OF conjI [OF wf conjI [OF test run]]]
  have "fst (si_auth_cb (cs_inner (bs_srv srv)) ''Bearer test'' b) = Inr OK" by (rule mp [OF conjunct2 [OF serves] sql])
  then show ?thesis using run conjunct1 [OF serves] by (intro exI conjI)
qed

end
