(* ===== verification/Server.thy ===== *)
theory Server
  imports Back_Start
begin

section \<open>The running server\<close>

text \<open>
  What the tasks of a running backend share and keep: the handlers of its channel server, and the invariant
  that they rely on. The tables obey the schema, every config value is text, and the counter is ahead of every
  stored timestamp. The tasks themselves are in \<open>Server_Tasks\<close>.
\<close>

text \<open>Decoded strings are Rust strings, decoded integers are \<open>i64\<close>s.\<close>

definition codec_rust :: "codec \<Rightarrow> bool" where
  "codec_rust cd \<longleftrightarrow> (\<forall>bs q. decode_put_req cd bs = Inr q \<longrightarrow>
     utf8_valid (pr_value q) \<and> (\<forall>m. pr_modified_at_micros q = Some m \<longrightarrow> is_i64 m))"

lemma codec_rust_demo [simp]: "codec_rust demo_codec"
  by (auto simp: codec_rust_def demo_codec_def put_fits_def put_of_bytes_def split: list.splits if_splits)

text \<open>What handles the requests of a server with this codec.\<close>

definition back_inner :: "codec \<Rightarrow> envs \<Rightarrow> back_state srv_inner" where
  "back_inner cd envs = \<lparr>si_auth_cb = make_auth_cb envs,
     si_handlers = [HEALTH_REQ \<mapsto> health_handler, CFG_GET_REQ \<mapsto> cfg_get_handler cd envs,
       CFG_PUT_REQ \<mapsto> cfg_put_handler cd envs]\<rparr>"

subsection \<open>The counter\<close>

text \<open>
  Timestamps cannot overflow while the counter and the clock are 64 below the largest \<open>i64\<close>, the number
  of attempts of one write.
\<close>

definition room :: "envs \<Rightarrow> back_state \<Rightarrow> bool" where
  "room envs b \<longleftrightarrow> bk_counter b < i64_max - 64 \<and> (\<forall>n. unix_micros (ev_now (envs n)) < i64_max - 64)"

text \<open>
  A database may hold timestamps \<open>F\<close> that the clock has yet to pass, as after a put with an explicit one before
  a restart; all others are behind the counter or the clock.
\<close>

definition ahead_but :: "int set \<Rightarrow> envs \<Rightarrow> back_state \<Rightarrow> bool" where
  "ahead_but F envs b \<longleftrightarrow> back_wf b \<and> is_i64 (bk_counter b) \<and> (\<forall>m \<in> stamps b - F. behind envs b m)"

lemma counter_ahead_iff: "counter_ahead envs b \<longleftrightarrow> ahead_but {} envs b"
  by (simp add: counter_ahead_def ahead_but_def)

lemma ahead_butD:
  assumes "ahead_but F envs b"
  shows "back_wf b" "is_i64 (bk_counter b)" "m \<in> stamps b \<Longrightarrow> m \<notin> F \<Longrightarrow> behind envs b m"
  using assms by (auto simp: ahead_but_def)

lemma ahead_but_written:
  assumes "written k m x d b b'" "ahead_but F envs b" "m \<le> bk_counter b'"
    and "bk_counter b \<le> bk_counter b'" "bk_tick b \<le> bk_tick b'" "is_i64 (bk_counter b')"
  shows "ahead_but F envs b'"
proof -
  have "behind envs b' n" if "n \<in> stamps b' - F" for n
  proof (cases "n = m")
    case True
    then show ?thesis using assms(3) by (simp add: behind_def)
  next
    case False
    then have "n \<in> stamps b" "n \<notin> F" using that stamps_written [OF assms(1) ahead_butD(1) [OF assms(2)]] by auto
    then show ?thesis using ahead_butD(3) [OF assms(2)] behind_later assms(4,5) by blast
  qed
  then show ?thesis using assms(1,6) by (simp add: ahead_but_def written_def)
qed

lemma ahead_but_store:
  assumes "ahead_but F envs b" "bk_store b' = bk_store b"
    and "bk_counter b \<le> bk_counter b'" "bk_tick b \<le> bk_tick b'" "is_i64 (bk_counter b')"
  shows "ahead_but F envs b'"
proof -
  have "stamps b' = stamps b" using assms(2) by (simp add: stamps_def)
  moreover have "behind envs b' m" if "m \<in> stamps b" "m \<notin> F" for m
    by (rule behind_later [OF ahead_butD(3) [OF assms(1) that] assms(3,4)])
  ultimately show ?thesis
    using assms(2,5) ahead_butD(1) [OF assms(1)] by (auto simp: ahead_but_def back_wf_def)
qed

lemmas counter_ahead_written = ahead_but_written [where F = "{}", folded counter_ahead_iff]
  and counter_ahead_store = ahead_but_store [where F = "{}", folded counter_ahead_iff]

lemma back_upsert_tick: "back_upsert envs k m x d b = (r, b') \<Longrightarrow> bk_tick b' = Suc (bk_tick b)"
  by (auto simp: back_upsert_def split: prod.splits)

lemma upsert_attempts_tick: "upsert_attempts envs n last_err k d x b = (r, b') \<Longrightarrow> bk_tick b \<le> bk_tick b'"
proof (induction n arbitrary: last_err b)
  case (Suc n)
  obtain m b1 where m: "take_micros envs b = (m, b1)" by force
  obtain r2 b2 where up: "back_upsert envs k m x d b1 = (r2, b2)" by force
  have ticks: "bk_tick b1 = Suc (bk_tick b)" "bk_tick b2 = Suc (bk_tick b1)"
    using m back_upsert_tick [OF up] by (auto simp: take_micros_def split: prod.splits)
  show ?case
  proof (cases r2)
    case (Inl err)
    then have "upsert_attempts envs n (Some err) k d x b2 = (r, b')" using Suc.prems m up by simp
    from Suc.IH [OF this] ticks show ?thesis by simp
  qed (use Suc.prems m up ticks in simp)
qed simp

text \<open>The counter over the attempts of one write.\<close>

lemma upsert_attempts_counter:
  assumes "upsert_attempts envs n last_err k d x b = (r, b')" "is_i64 (bk_counter b)"
    and "bk_counter b < i64_max - int n" "\<And>i. unix_micros (ev_now (envs i)) < i64_max - int n"
  shows "bk_counter b \<le> bk_counter b' \<and> is_i64 (bk_counter b')"
  using assms
proof (induction n arbitrary: last_err b)
  case 0
  then show ?case by simp
next
  case (Suc n)
  obtain m b1 where m: "take_micros envs b = (m, b1)" by force
  have m_eq: "m = bump (unix_micros (ev_now (envs (bk_tick b)))) (bk_counter b)" "bk_counter b1 = m"
    using m by (auto simp: take_micros_def next_micros_def Let_def)
  have lt: "bk_counter b < m" "is_i64 m"
    using m_eq(1) bump_greater [of "bk_counter b"] Suc.prems(2,3) by simp_all
  have "wrap_i64 (bk_counter b + 1) = bk_counter b + 1"
    using Suc.prems(2,3) by (intro wrap_i64_id) (simp add: i64_defs)
  then have small: "m < i64_max - int n"
    using m_eq(1) Suc.prems(3) Suc.prems(4) [of "bk_tick b"] by (simp add: bump_def split: if_splits)
  have clocks: "unix_micros (ev_now (envs i)) < i64_max - int n" for i
    using Suc.prems(4) [of i] by simp
  obtain r2 b2 where up: "back_upsert envs k m x d b1 = (r2, b2)" by force
  have b2: "bk_counter b2 = m" using back_upsert_counter [OF up] m_eq(2) by simp
  show ?case
  proof (cases r2)
    case (Inr a)
    then have "b' = b2" using Suc.prems(1) m up by simp
    then show ?thesis using b2 lt by simp
  next
    case (Inl err)
    then have "upsert_attempts envs n (Some err) k d x b2 = (r, b')" using Suc.prems(1) m up by simp
    from Suc.IH [OF this] show ?thesis using b2 lt small clocks by simp
  qed
qed

lemma upsert_value_ahead:
  assumes "upsert_value envs k v modified x b = (r, b')" "counter_ahead envs b" "room envs b"
    and "\<And>m. modified = Some m \<Longrightarrow> is_i64 m"
  shows "counter_ahead envs b'"
proof -
  note wf = counter_aheadD(1,2) [OF assms(2)]
  have counter: "bk_counter b \<le> bk_counter b' \<and> bk_tick b \<le> bk_tick b' \<and> is_i64 (bk_counter b') \<and>
      (\<forall>m. r = Inr () \<and> modified = Some m \<longrightarrow> m \<le> bk_counter b')"
  proof (cases "length k > CFG_KEY_MAX \<or> length v > CFG_VALUE_MAX")
    case True
    then have "b' = b" "\<exists>e. r = Inl e" using assms(1) by (auto simp: upsert_value_def Let_def split: if_splits)
    then show ?thesis using wf by auto
  next
    case False
    show ?thesis
    proof (cases modified)
      case None
      then have "upsert_attempts envs 64 None k (into_bytes v) x b = (r, b')"
        using assms(1) False by (simp add: upsert_value_def)
      from upsert_attempts_counter [OF this wf(2)] upsert_attempts_tick [OF this] assms(3) None show ?thesis by (simp add: room_def)
    next
      case (Some m)
      let ?b = "b\<lparr>bk_counter := fetch_max m (bk_counter b)\<rparr>"
      obtain r2 b2 where up: "back_upsert envs k m x (into_bytes v) ?b = (r2, b2)" by force
      then have "b' = b2" using assms(1) False Some by (cases r2) (simp_all add: upsert_value_def)
      then have "bk_counter b' = max (bk_counter b) m"
        "bk_tick b' = Suc (bk_tick b)"
        using back_upsert_counter [OF up] back_upsert_tick [OF up] by (simp_all add: fetch_max_def)
      then show ?thesis using assms(4) Some wf(2) by (simp add: max_def)
    qed
  qed
  show ?thesis
  proof (cases r)
    case (Inl e)
    then have "bk_store b' = bk_store b" using upsert_value_result [OF assms(1) wf(1)] by simp
    then show ?thesis using counter by (intro counter_ahead_store [OF assms(2)]) simp_all
  next
    case (Inr u)
    let ?m = "case modified of Some m \<Rightarrow> m | None \<Rightarrow> bk_counter b'"
    have w: "written k ?m x (into_bytes v) b b'" using upsert_value_result [OF assms(1) wf(1)] Inr by simp
    have "?m \<le> bk_counter b'" using counter Inr by (cases modified) simp_all
    then show ?thesis using counter_ahead_written [OF w assms(2)] counter by blast
  qed
qed

subsection \<open>Pruning\<close>

lemma exec_delete_entries: "set (entries (snd (exec_delete P t))) \<subseteq> set (entries t)"
  by (auto simp: exec_delete_def)

lemma sql_prune_subset:
  assumes "sql_prune_expired pl now n t = (r, t')" "tables_wf t"
  shows "tables_wf t' \<and> set (entries t') \<subseteq> set (entries t)"
proof -
  have wf: "tables_wf t'" using tables_wf_sql_prune [OF assms(2)] assms(1) by (metis snd_conv)
  show ?thesis
  proof (cases r)
    case (Inl e)
    then have "t' = t" using sql_error_unchanged assms(1) by metis
    then show ?thesis using wf by simp
  next
    case (Inr out)
    then show ?thesis
      using assms(1) wf by (cases out) (auto dest!: sql_prune_expired_Inr, metis exec_delete_entries snd_conv subsetD)
  qed
qed

subsection \<open>The invariant\<close>

definition server_inv :: "codec \<Rightarrow> envs \<Rightarrow> back_state \<Rightarrow> bool" where
  "server_inv cd envs b \<longleftrightarrow> codec_rust cd \<and> counter_ahead envs b \<and> values_text b"

definition server_inv_but :: "int set \<Rightarrow> codec \<Rightarrow> envs \<Rightarrow> back_state \<Rightarrow> bool" where
  "server_inv_but F cd envs b \<longleftrightarrow> codec_rust cd \<and> ahead_but F envs b \<and> values_text b"

lemma server_inv_iff: "server_inv cd envs b \<longleftrightarrow> server_inv_but {} cd envs b"
  by (simp add: server_inv_def server_inv_but_def counter_ahead_iff)

lemma server_inv_same:
  assumes "server_inv cd envs b" "bk_store b' = bk_store b" "bk_counter b' = bk_counter b" "bk_tick b \<le> bk_tick b'"
  shows "server_inv cd envs b'"
  using assms counter_ahead_store [of envs b b']
  by (auto simp: server_inv_def values_text_def cfg_entry_def counter_ahead_def)

lemma server_inv_upsert:
  assumes "upsert_value envs k v modified x b = (r, b')" "server_inv cd envs b" "room envs b" "utf8_valid v"
    and "\<And>m. modified = Some m \<Longrightarrow> is_i64 m"
  shows "server_inv cd envs b'"
proof -
  have inv: "codec_rust cd" "counter_ahead envs b" "values_text b" using assms(2) by (simp_all add: server_inv_def)
  have "counter_ahead envs b'" using upsert_value_ahead [OF assms(1) inv(2) assms(3)] assms(5) by blast
  moreover have "values_text b'" by (rule values_text_upsert [OF assms(1) counter_aheadD(1) [OF inv(2)] inv(3) assms(4)])
  ultimately show ?thesis using inv(1) by (simp add: server_inv_def)
qed

lemma make_auth_cb_state:
  "make_auth_cb envs auth b = (r, b') \<Longrightarrow> bk_store b' = bk_store b \<and> bk_counter b' = bk_counter b \<and> bk_tick b \<le> bk_tick b'"
  by (auto simp: make_auth_cb_eq split: if_splits)

lemma auth_left_state:
  "auth_left (back_inner cd envs) b b' \<Longrightarrow> bk_store b' = bk_store b \<and> bk_counter b' = bk_counter b \<and> bk_tick b \<le> bk_tick b'"
  using make_auth_cb_state [of envs] by (auto simp: auth_left_def back_inner_def) (metis prod.collapse)+

lemma server_inv_subset:
  assumes "server_inv_but F cd envs b" "tables_wf (st_sql s)" "set (entries (st_sql s)) \<subseteq> set (entries (st_sql (bk_store b)))"
  shows "server_inv_but F cd envs (b\<lparr>bk_store := s\<rparr>)"
proof -
  have ahead: "ahead_but F envs b" and texts: "values_text b" using assms(1) by (simp_all add: server_inv_but_def)
  have wf: "tables_wf (st_sql (bk_store b))" using ahead_butD(1) [OF ahead] by (simp add: back_wf_def)
  have "ahead_but F envs (b\<lparr>bk_store := s\<rparr>)"
    using ahead assms(2,3) by (auto simp: ahead_but_def back_wf_def stamps_def behind_def)
  moreover have "cfg_entry key b = Some q" if "cfg_entry key (b\<lparr>bk_store := s\<rparr>) = Some q" for key q
    using that assms(2,3) wf by (auto simp: cfg_entry_def q_entry_Some)
  then have "values_text (b\<lparr>bk_store := s\<rparr>)" using texts unfolding values_text_def by blast
  ultimately show ?thesis using assms(1) by (simp add: server_inv_but_def)
qed

text \<open>A write adds at most one row.\<close>

lemma written_length:
  assumes "written k m x d b b'" "back_wf b"
  shows "length (entries (st_sql (bk_store b'))) \<le> Suc (length (entries (st_sql (bk_store b))))"
proof -
  let ?E = "set (entries (st_sql (bk_store b)))" and ?E' = "set (entries (st_sql (bk_store b')))"
  have wf: "tables_wf (st_sql (bk_store b))" "tables_wf (st_sql (bk_store b'))"
    using assms by (simp_all add: written_def back_wf_def)
  have len: "length (entries t) = card (set (entries t))" if "tables_wf t" for t
    using that by (simp add: tables_wf_def distinct_map distinct_card)
  have "?E' \<subseteq> insert (row_of CFG_CLASS k m x (Some d)) ?E"
  proof
    fix r
    assume "r \<in> ?E'"
    then have r: "q_entry (e_pk r) (st_sql (bk_store b')) = Some r" using wf(2) by (simp add: q_entry_Some)
    have "q_entry (e_pk r) (st_sql (bk_store b')) =
        (if e_pk r = (CFG_CLASS, k) then newest (row_of CFG_CLASS k m x (Some d)) (q_entry (e_pk r) (st_sql (bk_store b)))
         else q_entry (e_pk r) (st_sql (bk_store b)))" using assms(1) unfolding written_def by blast
    then have "r = row_of CFG_CLASS k m x (Some d) \<or> q_entry (e_pk r) (st_sql (bk_store b)) = Some r"
      using r by (auto simp: newest_def split: if_splits option.splits)
    then show "r \<in> insert (row_of CFG_CLASS k m x (Some d)) ?E" using wf(1) by (auto simp: q_entry_Some)
  qed
  then have "card ?E' \<le> card (insert (row_of CFG_CLASS k m x (Some d)) ?E)" by (rule card_mono [rotated]) simp
  also have "\<dots> \<le> Suc (card ?E)" by (simp add: card_insert_if)
  finally show ?thesis using len wf by simp
qed

text \<open>
  A healthy start: a counter of 0 on a database whose values are text and whose timestamps are below every
  reading of the clock to come. \<open>back_srv\<close> opens any database; this is what the end-to-end properties ask for,
  and \<open>server_inv_but\<close> is for all the others.
\<close>

definition server_start :: "codec \<Rightarrow> envs \<Rightarrow> back_state \<Rightarrow> bool" where
  "server_start cd envs b \<longleftrightarrow> codec_rust cd \<and> back_wf b \<and> values_text b \<and> bk_counter b = 0 \<and>
     (\<forall>m \<in> stamps b. \<forall>n \<ge> bk_tick b. m < unix_micros (ev_now (envs n)))"

lemma server_start_inv: "server_start cd envs b \<Longrightarrow> server_inv cd envs b"
  by (auto simp: server_start_def server_inv_def counter_ahead_def behind_def i64_defs)

lemma server_start_empty: "server_start demo_codec envs empty_back"
  by (simp add: server_start_def values_text_def stamps_def)
    (simp add: empty_back_def empty_tables_def)

end
