(* ===== verification/Back_Concurrent.thy ===== *)
theory Back_Concurrent
  imports Back_Props
begin

section \<open>Interleaved config writes\<close>

text \<open>
  Requests and the advertiser call \<open>upsert_value\<close> at the same time, on one counter and one database.
  Here a call is a writer that is cut at its awaits: between the taking of a timestamp and the end of
  \<open>db.upsert\<close>, any number of other writers may take theirs and write. (The counter's compare-exchange
  loop is interleaved on its own in \<open>Micros\<close>; the calls of \<open>upsert\<close> exclude each other by the mutex of
  the connection.)
\<close>

subsection \<open>Writers\<close>

record put_args =
  pa_key :: string
  pa_value :: string
  pa_expires :: "int option"

text \<open>
  \<open>Stamping p n e\<close> is at the head of the loop with \<open>n\<close> attempts left. \<open>Storing p m next\<close> waits for
  \<open>db.upsert\<close> at the timestamp \<open>m\<close>: an explicit one, or the one of an attempt with the number of attempts
  that follow. \<open>Rejected\<close> did not pass the checks; \<open>Stored\<close> has returned from \<open>db.upsert\<close> and \<open>GaveUp\<close> from the
  loop, each with its result.
\<close>

datatype writer =
    Stamping put_args nat "io_error option"
  | Storing put_args int "nat option"
  | Rejected io_error
  | Stored put_args int "unit res"
  | GaveUp io_error

record back_sys =
  bs_back :: back_state
  bs_writers :: "writer list"

definition start_writer :: "put_args \<Rightarrow> int option \<Rightarrow> back_state \<Rightarrow> writer \<times> back_state" where
  "start_writer p modified b =
     (if length (pa_key p) > CFG_KEY_MAX then (Rejected (io_invalid ''config key cannot be > 1024 bytes''), b)
      else if length (into_bytes (pa_value p)) > CFG_VALUE_MAX then
        (Rejected (io_invalid ''config value cannot be > 4096 bytes''), b)
      else (case modified of
          Some m \<Rightarrow> (Storing p m None, b\<lparr>bk_counter := fetch_max m (bk_counter b)\<rparr>)
        | None \<Rightarrow> (Stamping p 64 None, b)))"

fun writer_step :: "envs \<Rightarrow> writer \<Rightarrow> back_state \<Rightarrow> writer \<times> back_state" where
  "writer_step envs (Stamping p 0 last_err) b =
     (GaveUp (case last_err of Some e \<Rightarrow> e | None \<Rightarrow> io_other ''failed to allocate a unique timestamp''), b)"
| "writer_step envs (Stamping p (Suc n) last_err) b =
     (case take_micros envs b of (m, b1) \<Rightarrow> (Storing p m (Some n), b1))"
| "writer_step envs (Storing p m nxt) b =
     (case back_upsert envs (pa_key p) m (pa_expires p) (into_bytes (pa_value p)) b of
        (Inr applied, b1) \<Rightarrow> (Stored p m (Inr ()), b1)
      | (Inl err, b1) \<Rightarrow> (case nxt of
            None \<Rightarrow> Stored p m (Inl err)
          | Some n \<Rightarrow> Stamping p n (Some err), b1))"
| "writer_step envs w b = (w, b)"

definition writer_result :: "writer \<Rightarrow> (unit res) option" where
  "writer_result w = (case w of
      Rejected e \<Rightarrow> Some (Inl e) | Stored p m r \<Rightarrow> Some r | GaveUp e \<Rightarrow> Some (Inl e) | _ \<Rightarrow> None)"

inductive back_step :: "envs \<Rightarrow> back_sys \<Rightarrow> back_sys \<Rightarrow> bool" for envs :: envs where
  arrive: "start_writer p modified (bs_back c) = (w, b) \<Longrightarrow>
    back_step envs c \<lparr>bs_back = b, bs_writers = bs_writers c @ [w]\<rparr>"
| run: "i < length (bs_writers c) \<Longrightarrow> writer_step envs (bs_writers c ! i) (bs_back c) = (w, b) \<Longrightarrow>
    back_step envs c \<lparr>bs_back = b, bs_writers = (bs_writers c)[i := w]\<rparr>"

subsection \<open>A writer that runs alone is the call\<close>

abbreviation writer_steps :: "envs \<Rightarrow> nat \<Rightarrow> writer \<times> back_state \<Rightarrow> writer \<times> back_state" where
  "writer_steps envs n \<equiv> (\<lambda>(w, b). writer_step envs w b) ^^ n"

lemma stamping_alone:
  assumes "upsert_attempts envs n last_err (pa_key p) (into_bytes (pa_value p)) (pa_expires p) b = (r, b')"
  shows "\<exists>i w. writer_steps envs i (Stamping p n last_err, b) = (w, b') \<and> writer_result w = Some r"
  using assms
proof (induction n arbitrary: last_err b)
  case 0
  then show ?case by (intro exI [of _ 1]) (auto simp: writer_result_def)
next
  case (Suc n)
  obtain m b1 where m: "take_micros envs b = (m, b1)" by force
  obtain r2 b2 where up: "back_upsert envs (pa_key p) m (pa_expires p) (into_bytes (pa_value p)) b1 = (r2, b2)" by force
  have two: "writer_steps envs 2 (Stamping p (Suc n) last_err, b) =
      ((case r2 of Inr a \<Rightarrow> Stored p m (Inr ()) | Inl e \<Rightarrow> Stamping p n (Some e)), b2)"
    using m up by (cases r2) (simp_all add: numeral_2_eq_2)
  show ?case
  proof (cases r2)
    case (Inr a)
    then have "r = Inr ()" "b' = b2" using Suc.prems m up by simp_all
    then show ?thesis using two Inr by (intro exI [of _ 2]) (simp add: writer_result_def)
  next
    case (Inl e)
    then obtain i w where "writer_steps envs i (Stamping p n (Some e), b2) = (w, b')" "writer_result w = Some r"
      using Suc.IH [of "Some e" b2] Suc.prems m up by auto
    then show ?thesis using two Inl by (intro exI [of _ "i + 2"]) (simp only: funpow_add comp_apply sum.case, simp)
  qed
qed

lemma writer_alone:
  assumes "upsert_value envs (pa_key p) (pa_value p) modified (pa_expires p) b = (r, b')"
  shows "\<exists>i w. writer_steps envs i (start_writer p modified b) = (w, b') \<and> writer_result w = Some r"
proof (cases "length (pa_key p) > CFG_KEY_MAX \<or> length (pa_value p) > CFG_VALUE_MAX")
  case True
  then show ?thesis
    using assms by (intro exI [of _ 0]) (auto simp: start_writer_def upsert_value_def Let_def writer_result_def split: if_splits)
next
  case ok: False
  show ?thesis
  proof (cases modified)
    case None
    then show ?thesis
      using assms ok stamping_alone [of envs 64 None p b r b'] by (simp add: start_writer_def upsert_value_def)
  next
    case (Some m)
    let ?b = "b\<lparr>bk_counter := fetch_max m (bk_counter b)\<rparr>"
    obtain r2 b2 where up: "back_upsert envs (pa_key p) m (pa_expires p) (into_bytes (pa_value p)) ?b = (r2, b2)" by force
    then show ?thesis
      using assms ok Some
      by (intro exI [of _ 1]) (cases r2; auto simp: start_writer_def upsert_value_def writer_result_def)
  qed
qed


subsection \<open>Newer wins, in any interleaving\<close>

definition writer_row :: "put_args \<Rightarrow> int \<Rightarrow> entry_row" where
  "writer_row p m = cfg_row (pa_key p) m (pa_expires p) (pa_value p)"

lemma e_modified_writer_row [simp]: "e_modified (writer_row p m) = m"
  by (simp add: writer_row_def)

text \<open>The entries are explained by those at the start and by the writers that have stored theirs.\<close>

definition explained :: "back_state \<Rightarrow> back_sys \<Rightarrow> bool" where
  "explained b0 c \<longleftrightarrow> back_wf (bs_back c) \<and>
     (\<forall>k row. cfg_entry k (bs_back c) = Some row \<longrightarrow> cfg_entry k b0 = Some row \<or>
        (\<exists>p m. Stored p m (Inr ()) \<in> set (bs_writers c) \<and> pa_key p = k \<and> row = writer_row p m)) \<and>
     (\<forall>k old. cfg_entry k b0 = Some old \<longrightarrow>
        (\<exists>row. cfg_entry k (bs_back c) = Some row \<and> e_modified old \<le> e_modified row)) \<and>
     (\<forall>p m. Stored p m (Inr ()) \<in> set (bs_writers c) \<longrightarrow>
        (\<exists>row. cfg_entry (pa_key p) (bs_back c) = Some row \<and> m \<le> e_modified row))"

lemma explainedD:
  assumes "explained b0 c"
  shows "back_wf (bs_back c)"
    and "cfg_entry k (bs_back c) = Some row \<Longrightarrow> cfg_entry k b0 = Some row \<or>
      (\<exists>p m. Stored p m (Inr ()) \<in> set (bs_writers c) \<and> pa_key p = k \<and> row = writer_row p m)"
    and "cfg_entry k b0 = Some old \<Longrightarrow> \<exists>row. cfg_entry k (bs_back c) = Some row \<and> e_modified old \<le> e_modified row"
    and "Stored p m (Inr ()) \<in> set (bs_writers c) \<Longrightarrow>
      \<exists>row. cfg_entry (pa_key p) (bs_back c) = Some row \<and> m \<le> e_modified row"
  using assms unfolding explained_def by simp_all

lemma explained_same:
  assumes "explained b0 c" "bk_store b = bk_store (bs_back c)"
    and "\<And>p m. Stored p m (Inr ()) \<in> set ws \<longleftrightarrow> Stored p m (Inr ()) \<in> set (bs_writers c)"
  shows "explained b0 \<lparr>bs_back = b, bs_writers = ws\<rparr>"
proof -
  have "cfg_entry k b = cfg_entry k (bs_back c)" for k using assms(2) by (simp add: cfg_entry_def)
  then show ?thesis using assms by (simp add: explained_def back_wf_def)
qed

lemma explained_stored:
  assumes "explained b0 c" "back_wf b"
    and "\<And>k. cfg_entry k b = (if k = pa_key p then newest (writer_row p m) (cfg_entry k (bs_back c)) else cfg_entry k (bs_back c))"
    and "\<And>q n. Stored q n (Inr ()) \<in> set ws \<longleftrightarrow> (q = p \<and> n = m) \<or> Stored q n (Inr ()) \<in> set (bs_writers c)"
  shows "explained b0 \<lparr>bs_back = b, bs_writers = ws\<rparr>"
proof -
  have later: "\<exists>row. cfg_entry k b = Some row \<and> n \<le> e_modified row"
    if "\<exists>row. cfg_entry k (bs_back c) = Some row \<and> n \<le> e_modified row" for k n
    using that assms(3) [of k] by (auto simp: newest_def)
  have mine: "\<exists>row. cfg_entry (pa_key p) b = Some row \<and> m \<le> e_modified row"
    using assms(3) [of "pa_key p"] by (auto simp: newest_def split: option.split)
  have from_where: "cfg_entry k (bs_back c) = Some row \<or> k = pa_key p \<and> row = writer_row p m"
    if "cfg_entry k b = Some row" for k row
    using assms(3) [of k] that by (auto simp: newest_def split: option.splits if_splits)
  note old = explainedD [OF assms(1)]
  show ?thesis
    unfolding explained_def back_sys.select_convs
  proof (intro conjI allI impI)
    show "cfg_entry k b0 = Some row \<or> (\<exists>q n. Stored q n (Inr ()) \<in> set ws \<and> pa_key q = k \<and> row = writer_row q n)"
      if "cfg_entry k b = Some row" for k row
      using from_where [OF that] old(2) [of k row] assms(4) by metis
    show "\<exists>row. cfg_entry k b = Some row \<and> e_modified old \<le> e_modified row" if "cfg_entry k b0 = Some old" for k old
      by (rule later [OF old(3) [OF that]])
    show "\<exists>row. cfg_entry (pa_key q) b = Some row \<and> n \<le> e_modified row" if "Stored q n (Inr ()) \<in> set ws" for q n
      using that assms(4) mine later [OF old(4) [of q n]] by metis
  qed (rule assms(2))
qed

lemma in_list_update:
  "i < length xs \<Longrightarrow> xs ! i \<noteq> y \<Longrightarrow> y \<in> set (xs[i := x]) \<longleftrightarrow> y = x \<or> y \<in> set xs"
  by (induction xs arbitrary: i) (auto split: nat.splits)

lemma start_writer_store:
  "start_writer p modified b = (w, b') \<Longrightarrow> bk_store b' = bk_store b \<and> w \<noteq> Stored q m r"
  by (auto simp: start_writer_def Let_def split: if_splits option.splits)

lemma writer_step_explained:
  assumes "explained b0 c" "i < length (bs_writers c)"
    and "writer_step envs (bs_writers c ! i) (bs_back c) = (w, b)"
  shows "explained b0 \<lparr>bs_back = b, bs_writers = (bs_writers c)[i := w]\<rparr>"
proof -
  have id: "explained b0 \<lparr>bs_back = b, bs_writers = (bs_writers c)[i := w]\<rparr>"
    if "w = bs_writers c ! i" "b = bs_back c"
    using that explained_same [OF assms(1), of b "bs_writers c"] by simp
  have silent: "explained b0 \<lparr>bs_back = b, bs_writers = (bs_writers c)[i := w]\<rparr>"
    if "bk_store b = bk_store (bs_back c)" "\<And>q m. w \<noteq> Stored q m (Inr ())"
      "\<And>q m. bs_writers c ! i \<noteq> Stored q m (Inr ())"
    using explained_same [OF assms(1) that(1)] in_list_update [OF assms(2) that(3)] that(2) by metis
  show ?thesis
  proof (cases "bs_writers c ! i")
    case (Stamping p n e)
    then show ?thesis
      using assms(3) take_micros_store [of envs "bs_back c"] by (intro silent) (cases n; auto split: prod.splits)+
  next
    case (Storing p m nxt)
    obtain r b1 where up: "back_upsert envs (pa_key p) m (pa_expires p) (into_bytes (pa_value p)) (bs_back c) = (r, b1)"
      by force
    show ?thesis
    proof (cases r)
      case (Inl e)
      have "bk_store b1 = bk_store (bs_back c)" using back_upsert_Inl [OF up [unfolded Inl]] by simp
      then show ?thesis using assms(3) Storing up Inl by (intro silent) (auto split: option.splits)
    next
      case (Inr a)
      then have w: "w = Stored p m (Inr ())" "b = b1" using assms(3) Storing up by simp_all
      have wr: "written (pa_key p) m (pa_expires p) (into_bytes (pa_value p)) (bs_back c) b"
        using back_upsert_written up Inr w(2) explainedD(1) [OF assms(1)] by blast
      have "Stored q n (Inr ()) \<in> set ((bs_writers c)[i := w]) \<longleftrightarrow> (q = p \<and> n = m) \<or> Stored q n (Inr ()) \<in> set (bs_writers c)" for q n
        using in_list_update [OF assms(2), of "Stored q n (Inr ())" w] Storing w(1) by auto
      moreover have "back_wf b" using wr by (simp add: written_def)
      moreover have "cfg_entry k b = (if k = pa_key p then newest (writer_row p m) (cfg_entry k (bs_back c)) else cfg_entry k (bs_back c))" for k
        using written_cfg_entry [OF wr, of k] by (simp add: writer_row_def)
      ultimately show ?thesis by (intro explained_stored [OF assms(1)])
    qed
  qed (use assms(3) id in simp_all)
qed

interpretation newest_wins: inductive_invariant
  "\<lambda>c. back_wf b0 \<and> c = \<lparr>bs_back = b0, bs_writers = []\<rparr>" "back_step envs" "explained b0"
proof unfold_locales
  fix c c' :: back_sys
  show "explained b0 c" if "back_wf b0 \<and> c = \<lparr>bs_back = b0, bs_writers = []\<rparr>"
    using that by (auto simp: explained_def)
  show "explained b0 c'" if "back_step envs c c'" "explained b0 c"
    using that
  proof cases
    case (arrive p modified w b)
    then show ?thesis
      using start_writer_store [OF arrive(2)] explained_same [OF that(2), of b "bs_writers c @ [w]"] by auto
  qed (auto intro: writer_step_explained)
qed


text \<open>
  C12. Newer wins in any interleaving: however any number of \<open>upsert_value\<close> calls interleave, with explicit or
  server timestamps, and whatever sqlite and the clock do, at every moment the entry of a key is the one
  at the start or the row of a call that wrote it, it is at least as new as the one at the start, and
  at least as new as every row whose call returned a success: no acknowledged write is lost to an older
  one, and no write shows before its call stored it.
\<close>

theorem concurrent_newer_wins:
  assumes "back_wf b0" "(back_step envs)\<^sup>*\<^sup>* \<lparr>bs_back = b0, bs_writers = []\<rparr> c"
  shows "back_wf (bs_back c) \<and>
    (\<forall>k row. cfg_entry k (bs_back c) = Some row \<longrightarrow> cfg_entry k b0 = Some row \<or>
       (\<exists>p m. Stored p m (Inr ()) \<in> set (bs_writers c) \<and> pa_key p = k \<and> row = writer_row p m)) \<and>
    (\<forall>k old. cfg_entry k b0 = Some old \<longrightarrow>
       (\<exists>row. cfg_entry k (bs_back c) = Some row \<and> e_modified old \<le> e_modified row)) \<and>
    (\<forall>p m. Stored p m (Inr ()) \<in> set (bs_writers c) \<longrightarrow>
       (\<exists>row. cfg_entry (pa_key p) (bs_back c) = Some row \<and> m \<le> e_modified row))"
proof -
  have "explained b0 c"
    using newest_wins.inv_steps [OF assms(2)] newest_wins.inv_init [of b0] assms(1) by blast
  then show ?thesis unfolding explained_def .
qed

subsection \<open>Server timestamps never collide\<close>

text \<open>The timestamps that are taken and not yet stored.\<close>

fun stamp_of :: "writer \<Rightarrow> int list" where
  "stamp_of (Storing p m nxt) = [m]"
| "stamp_of w = []"

definition in_flight :: "writer list \<Rightarrow> int list" where
  "in_flight ws = concat (map stamp_of ws)"

text \<open>A writer without an explicit timestamp, within the limits, that has needed no second attempt.\<close>

fun first_try :: "writer \<Rightarrow> bool" where
  "first_try (Stamping p n e) \<longleftrightarrow> n = 64 \<and> length (pa_key p) \<le> CFG_KEY_MAX \<and> length (pa_value p) \<le> CFG_VALUE_MAX"
| "first_try (Storing p m nxt) \<longleftrightarrow> nxt = Some 63 \<and> length (pa_key p) \<le> CFG_KEY_MAX \<and> length (pa_value p) \<le> CFG_VALUE_MAX"
| "first_try (Rejected e) \<longleftrightarrow> False"
| "first_try (Stored p m r) \<longleftrightarrow> r = Inr ()"
| "first_try (GaveUp e) \<longleftrightarrow> False"

definition stamps_ok :: "envs \<Rightarrow> back_sys \<Rightarrow> bool" where
  "stamps_ok envs c \<longleftrightarrow> counter_ahead envs (bs_back c) \<and> (\<forall>w \<in> set (bs_writers c). first_try w) \<and>
     distinct (in_flight (bs_writers c)) \<and>
     (\<forall>m \<in> set (in_flight (bs_writers c)). m \<le> bk_counter (bs_back c) \<and> m \<notin> stamps (bs_back c))"

text \<open>The machine without explicit timestamps, refused writes and faults of sqlite, below the largest \<open>i64\<close>.\<close>

fun server_stamped :: "writer \<Rightarrow> bool" where
  "server_stamped (Storing p m nxt) \<longleftrightarrow> nxt \<noteq> None"
| "server_stamped (Rejected e) \<longleftrightarrow> False"
| "server_stamped w \<longleftrightarrow> True"

definition stamping_step :: "envs \<Rightarrow> back_sys \<Rightarrow> back_sys \<Rightarrow> bool" where
  "stamping_step envs c c' \<longleftrightarrow> back_step envs c c' \<and> bk_counter (bs_back c) < i64_max \<and>
     (\<forall>n. ev_sql (envs n) = sql_ok) \<and> (\<forall>w \<in> set (bs_writers c'). server_stamped w)"

lemma in_flight_append [simp]: "in_flight (xs @ ys) = in_flight xs @ in_flight ys"
  by (simp add: in_flight_def)

lemma in_flight_split:
  assumes "i < length ws"
  shows "in_flight ws = in_flight (take i ws) @ stamp_of (ws ! i) @ in_flight (drop (Suc i) ws)"
    and "in_flight (ws[i := w]) = in_flight (take i ws) @ stamp_of w @ in_flight (drop (Suc i) ws)"
  using assms id_take_nth_drop [OF assms] by (simp_all add: in_flight_def upd_conv_take_nth_drop) (metis concat.simps(2) concat_append list.simps(9) map_append)


lemma take_micros_ahead:
  assumes "counter_ahead envs b" "bk_counter b < i64_max" "take_micros envs b = (m, b1)"
  shows "bk_counter b < m" "\<And>n. n \<in> stamps b \<Longrightarrow> n < m" "counter_ahead envs b1" "stamps b1 = stamps b" "bk_counter b1 = m"
proof -
  note b1 = take_micros_store [OF assms(3)]
  show gt: "bk_counter b < m" and counter: "bk_counter b1 = m"
    using assms(3) b1 bump_greater [OF counter_aheadD(2) [OF assms(1)] assms(2)]
    by (auto simp: take_micros_def next_micros_def Let_def)
  show above: "n < m" if "n \<in> stamps b" for n
    using behind_bump [OF counter_aheadD(3) [OF assms(1) that] counter_aheadD(2) [OF assms(1)] assms(2)] assms(3)
    by (auto simp: take_micros_def next_micros_def Let_def)
  show same: "stamps b1 = stamps b" using b1 by (simp add: stamps_def)
  have "is_i64 m"
    using assms(3) bump_greater [OF counter_aheadD(2) [OF assms(1)] assms(2)]
    by (auto simp: take_micros_def next_micros_def Let_def)
  moreover have "back_wf b1" using b1 counter_aheadD(1) [OF assms(1)] by (simp add: back_wf_def)
  moreover have "behind envs b1 n" if "n \<in> stamps b1" for n using above [of n] that same counter by (simp add: behind_def)
  ultimately show "counter_ahead envs b1" using counter by (simp add: counter_ahead_def)
qed

text \<open>An attempt at a timestamp that was taken and that no entry has.\<close>

lemma store_ahead:
  assumes "counter_ahead envs b" "m \<le> bk_counter b" "m \<notin> stamps b" "ev_sql (envs (bk_tick b)) = sql_ok"
    and "length k \<le> CFG_KEY_MAX" "length d \<le> CFG_VALUE_MAX" "back_upsert envs k m x d b = (r, b')"
  shows "\<exists>a. r = Inr a" "counter_ahead envs b'" "stamps b' \<subseteq> insert m (stamps b)" "bk_counter b' = bk_counter b"
proof -
  show ok: "\<exists>a. r = Inr a"
    by (rule back_upsert_fails [OF counter_aheadD(1) [OF assms(1)] assms(4-7,3)])
  show counter: "bk_counter b' = bk_counter b" by (rule back_upsert_counter [OF assms(7)])
  have w: "written k m x d b b'" using back_upsert_written assms(7) ok counter_aheadD(1) [OF assms(1)] by blast
  show sub: "stamps b' \<subseteq> insert m (stamps b)" by (rule stamps_written [OF w counter_aheadD(1) [OF assms(1)]])
  have tick: "bk_tick b' = Suc (bk_tick b)" using assms(7) by (auto simp: back_upsert_def split: prod.splits)
  have "behind envs b' n" if "n \<in> stamps b'" for n
  proof (cases "n = m")
    case True
    then show ?thesis using assms(2) counter by (simp add: behind_def)
  next
    case False
    then have "behind envs b n" using that sub counter_aheadD(3) [OF assms(1)] by blast
    then show ?thesis using counter tick by (auto intro: behind_later)
  qed
  then show "counter_ahead envs b'"
    using w counter counter_aheadD(2) [OF assms(1)] by (simp add: counter_ahead_def written_def)
qed

lemma stamps_ok_step:
  assumes ok: "stamps_ok envs c" and i: "i < length (bs_writers c)"
    and run: "writer_step envs (bs_writers c ! i) (bs_back c) = (w, b)"
    and room: "bk_counter (bs_back c) < i64_max" and sql: "\<And>n. ev_sql (envs n) = sql_ok"
  shows "stamps_ok envs \<lparr>bs_back = b, bs_writers = (bs_writers c)[i := w]\<rparr>"
proof -
  let ?ws = "bs_writers c" and ?b = "bs_back c"
  have ahead: "counter_ahead envs ?b" and first: "\<And>v. v \<in> set ?ws \<Longrightarrow> first_try v" and "first_try (?ws ! i)"
    and dist: "distinct (in_flight ?ws)"
    and taken: "\<And>m. m \<in> set (in_flight ?ws) \<Longrightarrow> m \<le> bk_counter ?b \<and> m \<notin> stamps ?b"
    using ok i by (auto simp: stamps_ok_def)
  note split = in_flight_split [OF i] in_flight_split(2) [OF i, of w]
  have firsts: "\<forall>v \<in> set (?ws[i := w]). first_try v" if "first_try w"
    using that first set_update_subset_insert [of ?ws i w] by blast
  show ?thesis
  proof (cases "?ws ! i")
    case (Stamping p n e)
    then have n: "n = 64" "length (pa_key p) \<le> CFG_KEY_MAX" "length (pa_value p) \<le> CFG_VALUE_MAX"
      using \<open>first_try (?ws ! i)\<close> by simp_all
    obtain m b1 where m: "take_micros envs ?b = (m, b1)" by force
    then have w: "w = Storing p m (Some 63)" "b = b1" using run Stamping n(1) by (simp_all add: eval_nat_numeral)
    note took = take_micros_ahead [OF ahead room m]
    have "m \<notin> set (in_flight ?ws)" using taken [of m] took(1) by auto
    then have "distinct (in_flight (?ws[i := w]))" using dist split Stamping w(1) by auto
    moreover have "k \<le> bk_counter b \<and> k \<notin> stamps b" if "k \<in> set (in_flight (?ws[i := w]))" for k
    proof -
      have "k = m \<or> k \<in> set (in_flight ?ws)" using that split Stamping w(1) by auto
      then show ?thesis using taken [of k] took w(2) by auto
    qed
    ultimately show ?thesis using took(3) firsts n w by (simp add: stamps_ok_def)
  next
    case (Storing p m nxt)
    then have lims: "length (pa_key p) \<le> CFG_KEY_MAX" "length (into_bytes (pa_value p)) \<le> CFG_VALUE_MAX"
      using \<open>first_try (?ws ! i)\<close> by simp_all
    obtain r b1 where up: "back_upsert envs (pa_key p) m (pa_expires p) (into_bytes (pa_value p)) ?b = (r, b1)" by force
    have m: "m \<le> bk_counter ?b" "m \<notin> stamps ?b" using taken [of m] split Storing by auto
    note stored = store_ahead [OF ahead m sql lims up]
    have w: "w = Stored p m (Inr ())" "b = b1" using run Storing up stored(1) by auto
    have "distinct (in_flight (?ws[i := w]))" "m \<notin> set (in_flight (?ws[i := w]))"
      using dist split Storing w(1) by auto
    moreover have "k \<le> bk_counter b \<and> k \<notin> stamps b" if "k \<in> set (in_flight (?ws[i := w]))" for k
    proof -
      have "k \<noteq> m" "k \<in> set (in_flight ?ws)" using that calculation(2) split Storing w(1) by auto
      then show ?thesis using taken [of k] stored w(2) by auto
    qed
    ultimately show ?thesis using stored(2) firsts w by (simp add: stamps_ok_def)
  next
    case (Stored p m r)
    then have "w = ?ws ! i" "b = ?b" using run by simp_all
    then show ?thesis using ok by (simp add: stamps_ok_def)
  qed (use \<open>first_try (?ws ! i)\<close> in simp_all)
qed


definition stamping_start :: "envs \<Rightarrow> back_sys \<Rightarrow> bool" where
  "stamping_start envs c \<longleftrightarrow> counter_ahead envs (bs_back c) \<and> bs_writers c = []"

interpretation stamping: inductive_invariant "stamping_start envs" "stamping_step envs" "stamps_ok envs"
proof unfold_locales
  fix c c' :: back_sys
  show "stamps_ok envs c" if "stamping_start envs c"
    using that by (simp add: stamps_ok_def stamping_start_def in_flight_def)
  assume step: "stamping_step envs c c'" and ok: "stamps_ok envs c"
  then have room: "bk_counter (bs_back c) < i64_max" "\<And>n. ev_sql (envs n) = sql_ok"
    and stamped: "\<And>w. w \<in> set (bs_writers c') \<Longrightarrow> server_stamped w"
    by (simp_all add: stamping_step_def del: sql_ok_simp)
  from step have "back_step envs c c'" by (simp add: stamping_step_def)
  then show "stamps_ok envs c'"
  proof cases
    case (arrive p modified w b)
    have "server_stamped w" using stamped arrive(1) by simp
    then have "w = Stamping p 64 None" "b = bs_back c" "length (pa_key p) \<le> CFG_KEY_MAX" "length (pa_value p) \<le> CFG_VALUE_MAX"
      using arrive(2) by (auto simp: start_writer_def split: if_splits option.splits)
    then show ?thesis using ok arrive(1) by (simp add: stamps_ok_def in_flight_def)
  next
    case (run i w b)
    then show ?thesis using stamps_ok_step [OF ok run(2,3) room] by simp
  qed
qed

text \<open>
  C15. Concurrent server-stamped writes all succeed at their first attempt: in any interleaving of
  calls without an explicit timestamp, from a counter that is ahead of the store and without faults of
  sqlite, no two waiting calls hold the same timestamp, none holds one that an entry has, no call
  ever retries, and every call that has returned was a success; the 64 attempts are for collisions with
  explicit timestamps and for faults only.
\<close>

theorem concurrent_stamps_never_collide:
  assumes "reachable (stamping_start envs) (stamping_step envs) c"
  shows "distinct (in_flight (bs_writers c)) \<and>
    (\<forall>m \<in> set (in_flight (bs_writers c)). m \<notin> e_modified ` set (entries (st_sql (bk_store (bs_back c))))) \<and>
    (\<forall>p n e. Stamping p n e \<in> set (bs_writers c) \<longrightarrow> n = 64) \<and>
    (\<forall>w r. w \<in> set (bs_writers c) \<and> writer_result w = Some r \<longrightarrow> r = Inr ())"
proof -
  have ok: "stamps_ok envs c" by (rule stamping.inv_reachable [OF assms])
  have "n = 64" if "Stamping p n e \<in> set (bs_writers c)" for p n e
    using ok that unfolding stamps_ok_def by (metis first_try.simps(1))
  moreover have "r = Inr ()" if "w \<in> set (bs_writers c)" "writer_result w = Some r" for w r
  proof -
    have "first_try w" using ok that(1) by (simp add: stamps_ok_def)
    then show ?thesis using that(2) by (cases w) (auto simp: writer_result_def)
  qed
  ultimately show ?thesis using ok by (auto simp: stamps_ok_def stamps_def)
qed

text \<open>Two calls, the second of which takes its timestamp while the first waits.\<close>

definition demo_put :: "string \<Rightarrow> put_args" where
  "demo_put v = \<lparr>pa_key = ''k'', pa_value = v, pa_expires = None\<rparr>"

theorem concurrent_stamps_never_collide_witness:
  "\<exists>c. reachable (stamping_start (\<lambda>_. ok_env)) (stamping_step (\<lambda>_. ok_env)) c \<and>
     (\<exists>m n. in_flight (bs_writers c) = [m, n]) \<and> distinct (in_flight (bs_writers c))"
proof -
  let ?envs = "\<lambda>_ :: nat. ok_env"
  let ?start = "stamping_start ?envs" and ?step = "stamping_step ?envs"
  let ?s = "Stamping (demo_put ''x'') 64 None" and ?t = "Stamping (demo_put ''y'') 64 None"
  let ?c0 = "\<lparr>bs_back = empty_back, bs_writers = []\<rparr>" and ?c1 = "\<lparr>bs_back = empty_back, bs_writers = [?s]\<rparr>"
    and ?c2 = "\<lparr>bs_back = empty_back, bs_writers = [?s, ?t]\<rparr>"
  obtain m b1 where m: "take_micros ?envs empty_back = (m, b1)" by force
  obtain n b2 where n: "take_micros ?envs b1 = (n, b2)" by force
  let ?c3 = "\<lparr>bs_back = b1, bs_writers = [Storing (demo_put ''x'') m (Some 63), ?t]\<rparr>"
  let ?c4 = "\<lparr>bs_back = b2, bs_writers = [Storing (demo_put ''x'') m (Some 63), Storing (demo_put ''y'') n (Some 63)]\<rparr>"
  have zero: "unix_micros (ev_now ok_env) = 0" by (simp add: ok_env_def unix_micros_def micros_since_epoch_def i64_defs)
  have m1: "m = 1" "bk_counter b1 = 1"
    using m take_micros_store [OF m] zero by (auto simp: take_micros_def next_micros_def Let_def bump_def empty_back_def i64_defs wrap_i64_id)
  have room: "bk_counter empty_back < i64_max" "bk_counter b1 < i64_max" using m1 by (simp_all add: empty_back_def i64_defs)
  have sql: "\<forall>n. ev_sql (?envs n) = sql_ok" by (simp add: ok_env_def del: sql_ok_simp)
  have start: "start_writer (demo_put v) None empty_back = (Stamping (demo_put v) 64 None, empty_back)" if "length v = 1" for v
    using that by (simp add: start_writer_def demo_put_def CFG_KEY_MAX_def CFG_VALUE_MAX_def)
  have "back_step ?envs ?c0 ?c1" using back_step.arrive [of "demo_put ''x''" None ?c0 ?s empty_back ?envs] start by simp
  then have "?step ?c0 ?c1" using room(1) sql by (simp add: stamping_step_def del: sql_ok_simp)
  moreover have "back_step ?envs ?c1 ?c2" using back_step.arrive [of "demo_put ''y''" None ?c1 ?t empty_back ?envs] start by simp
  then have "?step ?c1 ?c2" using room(1) sql by (simp add: stamping_step_def del: sql_ok_simp)
  moreover have "back_step ?envs ?c2 ?c3"
    using back_step.run [of 0 ?c2 ?envs "Storing (demo_put ''x'') m (Some 63)" b1] m by (simp add: eval_nat_numeral)
  then have "?step ?c2 ?c3" using room(1) sql by (simp add: stamping_step_def del: sql_ok_simp)
  moreover have "back_step ?envs ?c3 ?c4"
    using back_step.run [of 1 ?c3 ?envs "Storing (demo_put ''y'') n (Some 63)" b2] n by (simp add: eval_nat_numeral)
  then have "?step ?c3 ?c4" using room(2) sql by (simp add: stamping_step_def del: sql_ok_simp)
  moreover have "reachable ?start ?step ?c0"
    by (rule reach_init) (simp add: stamping_start_def)
  ultimately have "reachable ?start ?step ?c4" by (meson reach_step)
  then show ?thesis
    using concurrent_stamps_never_collide [of ?envs ?c4]
    by (intro exI [of _ ?c4]) (simp add: in_flight_def)
qed

theorem concurrent_newer_wins_witness:
  "\<exists>c p m. (back_step (\<lambda>_. ok_env))\<^sup>*\<^sup>* \<lparr>bs_back = empty_back, bs_writers = []\<rparr> c \<and>
     Stored p m (Inr ()) \<in> set (bs_writers c) \<and> (\<exists>row. cfg_entry (pa_key p) (bs_back c) = Some row \<and> m \<le> e_modified row)"
proof -
  let ?envs = "\<lambda>_ :: nat. ok_env" and ?p = "demo_put ''x''"
  let ?b = "empty_back\<lparr>bk_counter := 7\<rparr>"
  obtain r b where up: "back_upsert ?envs ''k'' 7 None (into_bytes ''x'') ?b = (r, b)" by force
  have "\<exists>a. r = Inr a"
    by (rule back_upsert_fails [OF _ _ _ _ up])
      (simp_all add: back_wf_def tables_wf_def empty_back_def ok_env_def CFG_KEY_MAX_def CFG_VALUE_MAX_def stamps_def empty_tables_def del: sql_ok_simp)
  then have store: "writer_step ?envs (Storing ?p 7 None) ?b = (Stored ?p 7 (Inr ()), b)"
    using up by (auto simp: demo_put_def)
  have "start_writer ?p (Some 7) empty_back = (Storing ?p 7 None, ?b)"
    by (simp add: start_writer_def demo_put_def CFG_KEY_MAX_def CFG_VALUE_MAX_def fetch_max_def empty_back_def)
  then have "back_step ?envs \<lparr>bs_back = empty_back, bs_writers = []\<rparr> \<lparr>bs_back = ?b, bs_writers = [Storing ?p 7 None]\<rparr>"
    using back_step.arrive [of ?p "Some 7" "\<lparr>bs_back = empty_back, bs_writers = []\<rparr>" "Storing ?p 7 None" ?b ?envs] by simp
  moreover have "back_step ?envs \<lparr>bs_back = ?b, bs_writers = [Storing ?p 7 None]\<rparr> \<lparr>bs_back = b, bs_writers = [Stored ?p 7 (Inr ())]\<rparr>"
    using back_step.run [of 0 "\<lparr>bs_back = ?b, bs_writers = [Storing ?p 7 None]\<rparr>" ?envs] store by simp
  ultimately have run: "(back_step ?envs)\<^sup>*\<^sup>* \<lparr>bs_back = empty_back, bs_writers = []\<rparr> \<lparr>bs_back = b, bs_writers = [Stored ?p 7 (Inr ())]\<rparr>"
    by (rule rtranclp.rtrancl_into_rtrancl [OF r_into_rtranclp])
  have "\<exists>row. cfg_entry (pa_key ?p) b = Some row \<and> 7 \<le> e_modified row"
    using conjunct2 [OF conjunct2 [OF conjunct2 [OF concurrent_newer_wins [OF back_wf_empty run]]]] by simp
  then show ?thesis
    using run by (intro exI [of _ "\<lparr>bs_back = b, bs_writers = [Stored ?p 7 (Inr ())]\<rparr>"] exI [of _ ?p] exI [of _ 7]) simp
qed

end
