(* ===== verification/Server_Tasks.thy ===== *)
theory Server_Tasks
  imports Server Back_Concurrent Cleanup
begin

section \<open>The tasks of a running server\<close>

text \<open>
  A backend serves requests, advertises its addresses, prunes expired entries and removes unreferenced
  files at the same time, on one database and one counter. Here every request is a task that is cut where
  \<open>handle_request\<close> awaits (\<open>rs/v-m-io-chan/src/lib.rs\<close>): the authorization callback, the body, and in the
  handlers (\<open>rs/v-m-io-back/src/lib.rs\<close>) every call of the database; the advertiser is a task that never
  ends. The steps of the tasks and of the background work of the database come in any order.
\<close>

subsection \<open>One task\<close>

text \<open>
  \<open>Getting\<close> waits for \<open>read_all\<close>, \<open>Putting\<close> for \<open>upsert_value\<close>; \<open>Replied\<close> is the end of a request.
  \<open>Announcer addrs\<close> is the advertiser at the head of its loop, \<open>Announcing addrs w rest x\<close> in a pass with the
  expiry \<open>x\<close>: writing an entry (\<open>w\<close>), or before the next of the remaining addresses.
\<close>

datatype 'b task =
    Arrived "'b http_request"
  | Authorized "'b http_request"
  | Getting "'b http_request" bytes
  | Putting "'b http_request" cfg_put_req writer
  | Replied "'b http_request" http_response
  | Announcer "socket_addr list"
  | Announcing "socket_addr list" "writer option" "socket_addr list" int

definition put_args_of :: "cfg_put_req \<Rightarrow> put_args" where
  "put_args_of put = \<lparr>pa_key = pr_key put, pa_value = pr_value put, pa_expires = pr_expires_at_micros put\<rparr>"

definition addr_args :: "socket_addr \<Rightarrow> int \<Rightarrow> put_args" where
  "addr_args addr x = \<lparr>pa_key = addr_key addr, pa_value = [], pa_expires = Some x\<rparr>"

definition put_response :: "unit res \<Rightarrow> http_response" where
  "put_response r = (case r of
      Inr _ \<Rightarrow> resp OK []
    | Inl err \<Rightarrow> resp_text INTERNAL_SERVER_ERROR (err_to_string err))"

text \<open>After a step of a writer: it goes on, or its task does.\<close>

definition put_task :: "'b http_request \<Rightarrow> cfg_put_req \<Rightarrow> writer \<Rightarrow> 'b task" where
  "put_task req put w = (case writer_result w of
      None \<Rightarrow> Putting req put w
    | Some r \<Rightarrow> Replied req (put_response r))"

definition announce_task :: "socket_addr list \<Rightarrow> socket_addr list \<Rightarrow> int \<Rightarrow> writer \<Rightarrow> 'b task" where
  "announce_task addrs rest x w = (case writer_result w of
      None \<Rightarrow> Announcing addrs (Some w) rest x
    | Some (Inr _) \<Rightarrow> Announcing addrs None rest x
    | Some (Inl _) \<Rightarrow> Announcer addrs)"

text \<open>The start of the handler that the route found, up to its first await.\<close>

definition start_handler ::
  "codec \<Rightarrow> 'b http_request \<Rightarrow> back_state handler \<Rightarrow> bytes \<Rightarrow> back_state \<Rightarrow> 'b task \<times> back_state" where
  "start_handler cd req h body b =
     (if h_req h = CFG_GET_REQ then (Getting req body, b)
      else if h_req h = CFG_PUT_REQ then
        (case decode_put_req cd body of
           Inl err \<Rightarrow> (Replied req (put_response (Inl err)), b)
         | Inr put \<Rightarrow>
             (case start_writer (put_args_of put) (pr_modified_at_micros put) b of
                (w, b1) \<Rightarrow> (put_task req put w, b1)))
      else (case dispatch h body b of (res, b1) \<Rightarrow> (Replied req res, b1)))"

text \<open>A step of \<open>announce_addrs_task\<close>: an error ends the pass, and the loop goes on.\<close>

fun announcer_step :: "envs \<Rightarrow> 'b task \<Rightarrow> back_state \<Rightarrow> 'b task \<times> back_state" where
  "announcer_step envs (Announcer addrs) b =
     (Announcing addrs None addrs
        (saturating_add_i64 (unix_micros (ev_now (envs (bk_tick b)))) CFG_ADDR_TTL_MICROS),
      b\<lparr>bk_tick := Suc (bk_tick b)\<rparr>)"
| "announcer_step envs (Announcing addrs None [] x) b = (Announcer addrs, b)"
| "announcer_step envs (Announcing addrs None (addr # rest) x) b =
     (case start_writer (addr_args addr x) None b of (w, b1) \<Rightarrow> (announce_task addrs rest x w, b1))"
| "announcer_step envs (Announcing addrs (Some w) rest x) b =
     (case writer_step envs w b of (w1, b1) \<Rightarrow> (announce_task addrs rest x w1, b1))"
| "announcer_step envs t b = (t, b)"

text \<open>A step of a task; of a request, from the head of \<open>handle_request\<close> or from the await it is at.\<close>

fun run_task :: "'b http_lib \<Rightarrow> codec \<Rightarrow> envs \<Rightarrow> 'b task \<Rightarrow> back_state \<Rightarrow> 'b task \<times> back_state" where
  "run_task hl cd envs (Arrived req) b =
     (case authorize hl (back_inner cd envs) req b of
        (Inl res, b1) \<Rightarrow> (Replied req res, b1)
      | (Inr _, b1) \<Rightarrow> (Authorized req, b1))"
| "run_task hl cd envs (Authorized req) b =
     (case route (back_inner cd envs) req of
        Inl res \<Rightarrow> (Replied req res, b)
      | Inr h \<Rightarrow>
          (case read_body hl req of
             Inl res \<Rightarrow> (Replied req res, b)
           | Inr body \<Rightarrow> start_handler cd req h body b))"
| "run_task hl cd envs (Getting req body) b =
     (case dispatch (cfg_get_handler cd envs) body b of (res, b1) \<Rightarrow> (Replied req res, b1))"
| "run_task hl cd envs (Putting req put w) b =
     (case writer_step envs w b of (w1, b1) \<Rightarrow> (put_task req put w1, b1))"
| "run_task hl cd envs (Replied req res) b = (Replied req res, b)"
| "run_task hl cd envs (Announcer addrs) b = announcer_step envs (Announcer addrs) b"
| "run_task hl cd envs (Announcing addrs w rest x) b = announcer_step envs (Announcing addrs w rest x) b"

subsection \<open>The server\<close>

text \<open>\<open>ss_doomed\<close> are the blobs of the last prune transaction whose files are still to be removed.\<close>

record 'b server_sys =
  ss_back :: back_state
  ss_tasks :: "'b task list"
  ss_doomed :: "bytes list"

text \<open>
  The background work of the database: one prune transaction (an error leaves the tables), the removal of
  one of the files it leaves, and a pass of the cleanup. No task of the backend touches a file, so a pass is
  one step.
\<close>

definition prune_tx :: "db_env \<Rightarrow> int \<Rightarrow> 'b server_sys \<Rightarrow> 'b server_sys" where
  "prune_tx ev now c =
     (case sql_prune_expired (ev_sql ev) now (int PRUNE_BATCH) (st_sql (bk_store (ss_back c))) of
        (r, t) \<Rightarrow> c\<lparr>ss_back := (ss_back c)\<lparr>bk_store := (bk_store (ss_back c))\<lparr>st_sql := t\<rparr>\<rparr>,
           ss_doomed := (case r of Inr (n, ids) \<Rightarrow> ids | Inl e \<Rightarrow> [])\<rparr>)"

definition unlink_next :: "crates \<Rightarrow> vm_io_db \<Rightarrow> db_env \<Rightarrow> 'b server_sys \<Rightarrow> 'b server_sys" where
  "unlink_next cr db ev c =
     (case ss_doomed c of
        [] \<Rightarrow> c
      | i # ids \<Rightarrow> c\<lparr>ss_back := (ss_back c)\<lparr>bk_store := (bk_store (ss_back c))
           \<lparr>st_fs := blob_del (cfg_of cr db) (call_of ev) i (st_fs (bk_store (ss_back c)))\<rparr>\<rparr>,
           ss_doomed := ids\<rparr>)"

definition collect_files :: "crates \<Rightarrow> vm_io_db \<Rightarrow> db_env \<Rightarrow> 'b server_sys \<Rightarrow> 'b server_sys" where
  "collect_files cr db ev c =
     c\<lparr>ss_back := (ss_back c)\<lparr>bk_store := cleanup_pass cr db ev (bk_store (ss_back c))\<rparr>\<rparr>"

text \<open>A prune transaction starts when the files of the last one are gone.\<close>

inductive server_step ::
  "'b http_lib \<Rightarrow> codec \<Rightarrow> envs \<Rightarrow> crates \<Rightarrow> vm_io_db \<Rightarrow> 'b server_sys \<Rightarrow> 'b server_sys \<Rightarrow> bool"
  for hl :: "'b http_lib" and cd :: codec and envs :: envs and cr :: crates and db :: vm_io_db where
  accept: "server_step hl cd envs cr db c (c\<lparr>ss_tasks := ss_tasks c @ [Arrived req]\<rparr>)"
| run: "i < length (ss_tasks c) \<Longrightarrow> run_task hl cd envs (ss_tasks c ! i) (ss_back c) = (t, b) \<Longrightarrow>
    server_step hl cd envs cr db c (c\<lparr>ss_back := b, ss_tasks := (ss_tasks c)[i := t]\<rparr>)"
| prune: "ss_doomed c = [] \<Longrightarrow> micros_since_epoch (ev_now ev) = Some now \<Longrightarrow>
    server_step hl cd envs cr db c (prune_tx ev now c)"
| unlink: "server_step hl cd envs cr db c (unlink_next cr db ev c)"
| collect: "server_step hl cd envs cr db c (collect_files cr db ev c)"

definition server_new :: "back_state \<Rightarrow> socket_addr list \<Rightarrow> 'b server_sys" where
  "server_new b addrs = \<lparr>ss_back = b, ss_tasks = [Announcer addrs], ss_doomed = []\<rparr>"

subsection \<open>A request that runs alone is \<open>handle_request\<close>\<close>

abbreviation task_steps ::
  "'b http_lib \<Rightarrow> codec \<Rightarrow> envs \<Rightarrow> nat \<Rightarrow> 'b task \<times> back_state \<Rightarrow> 'b task \<times> back_state" where
  "task_steps hl cd envs n \<equiv> (\<lambda>(t, b). run_task hl cd envs t b) ^^ n"

lemma writer_finished: "writer_result w = Some r \<Longrightarrow> writer_step envs w b = (w, b)"
  by (cases w) (auto simp: writer_result_def)

lemma run_put_task:
  "run_task hl cd envs (put_task req put w) b = (case writer_step envs w b of (w1, b1) \<Rightarrow> (put_task req put w1, b1))"
  by (cases "writer_result w") (auto simp: put_task_def writer_finished)

lemma put_task_steps:
  "task_steps hl cd envs n (put_task req put w, b) =
     (case writer_steps envs n (w, b) of (w1, b1) \<Rightarrow> (put_task req put w1, b1))"
proof (induction n arbitrary: w b)
  case (Suc n)
  show ?case
    by (cases "writer_step envs w b") (simp add: funpow_Suc_right run_put_task Suc.IH del: funpow.simps(2))
qed simp

lemma start_handler_alone:
  assumes "si_handlers (back_inner cd envs) name = Some h" "dispatch h body b = (res, b')"
  shows "\<exists>n. task_steps hl cd envs n (start_handler cd req h body b) = (Replied req res, b')"
proof -
  consider "h = health_handler" | "h = cfg_get_handler cd envs" | "h = cfg_put_handler cd envs"
    using assms(1) by (auto simp: back_inner_def split: if_splits)
  then show ?thesis
  proof cases
    case 1
    then have "start_handler cd req h body b = (Replied req res, b')"
      using assms(2) by (simp add: start_handler_def health_handler_def HEALTH_REQ_def CFG_GET_REQ_def CFG_PUT_REQ_def)
    then show ?thesis by (intro exI [of _ 0]) simp
  next
    case 2
    then have "start_handler cd req h body b = (Getting req body, b)"
      by (simp add: start_handler_def cfg_get_handler_def)
    then show ?thesis using assms(2) 2 by (intro exI [of _ 1]) simp
  next
    case 3
    then have h: "h_req h = CFG_PUT_REQ" "h_handle h = cfg_put_handle cd envs" "CFG_PUT_REQ \<noteq> CFG_GET_REQ"
      by (simp_all add: cfg_put_handler_def CFG_GET_REQ_def CFG_PUT_REQ_def)
    show ?thesis
    proof (cases "decode_put_req cd body")
      case (Inl err)
      then have "start_handler cd req h body b = (Replied req res, b')"
        using assms(2) h by (simp add: start_handler_def dispatch_def cfg_put_handle_def put_response_def)
      then show ?thesis by (intro exI [of _ 0]) simp
    next
      case (Inr put)
      obtain r b1 where up: "upsert_value envs (pa_key (put_args_of put)) (pa_value (put_args_of put))
          (pr_modified_at_micros put) (pa_expires (put_args_of put)) b = (r, b1)" by force
      then have res: "res = put_response r" "b' = b1"
        using assms(2) h Inr by (cases r; simp add: dispatch_def cfg_put_handle_def put_response_def put_args_of_def)+
      obtain n w where w: "writer_steps envs n (start_writer (put_args_of put) (pr_modified_at_micros put) b) = (w, b1)"
        "writer_result w = Some r" using writer_alone [OF up] by blast
      have "start_handler cd req h body b =
          (case start_writer (put_args_of put) (pr_modified_at_micros put) b of (w, b1) \<Rightarrow> (put_task req put w, b1))"
        using h Inr by (simp add: start_handler_def)
      then have "task_steps hl cd envs n (start_handler cd req h body b) = (put_task req put w, b1)"
        using w(1) by (cases "start_writer (put_args_of put) (pr_modified_at_micros put) b") (simp add: put_task_steps)
      then show ?thesis using w(2) res by (intro exI [of _ n]) (simp add: put_task_def)
    qed
  qed
qed

lemma request_alone:
  assumes "handle_request hl (back_inner cd envs) req b = (res, b')"
  shows "\<exists>n. task_steps hl cd envs n (Arrived req, b) = (Replied req res, b')"
proof -
  obtain r b1 where auth: "authorize hl (back_inner cd envs) req b = (r, b1)" by force
  have first: "task_steps hl cd envs (Suc n) (Arrived req, b) =
      task_steps hl cd envs n ((case r of Inl res1 \<Rightarrow> Replied req res1 | Inr u \<Rightarrow> Authorized req), b1)" for n
    using auth by (simp add: funpow_Suc_right split: sum.split del: funpow.simps(2))
  show ?thesis
  proof (cases r)
    case (Inl res1)
    then have "task_steps hl cd envs 1 (Arrived req, b) = (Replied req res, b')"
      using first [of 0] auth assms by (simp add: handle_request_def)
    then show ?thesis by blast
  next
    case r: (Inr u)
    have next_step: "task_steps hl cd envs (Suc (Suc n)) (Arrived req, b) =
        task_steps hl cd envs n (run_task hl cd envs (Authorized req) b1)" for n
      using first [of "Suc n"] r by (simp add: funpow_Suc_right del: funpow.simps(2) run_task.simps)
    consider (stop) res1 where "run_task hl cd envs (Authorized req) b1 = (Replied req res1, b1)" "res1 = res" "b1 = b'"
      | (handler) h body where "route (back_inner cd envs) req = Inr h" "read_body hl req = Inr body"
      using auth r assms by (cases "route (back_inner cd envs) req"; cases "read_body hl req") (auto simp: handle_request_def)
    then show ?thesis
    proof cases
      case stop
      then have "task_steps hl cd envs (Suc (Suc 0)) (Arrived req, b) = (Replied req res, b')"
        using next_step [of 0] by simp
      then show ?thesis by blast
    next
      case handler
      then have "dispatch h body b1 = (res, b')" using auth r assms by (simp add: handle_request_def)
      moreover obtain name where "si_handlers (back_inner cd envs) name = Some h" using handler(1) by (auto simp: route_Inr)
      ultimately obtain n where "task_steps hl cd envs n (start_handler cd req h body b1) = (Replied req res, b')"
        using start_handler_alone by blast
      then have "task_steps hl cd envs (Suc (Suc n)) (Arrived req, b) = (Replied req res, b')"
        using next_step [of n] handler by simp
      then show ?thesis by blast
    qed
  qed
qed


text \<open>A pass of the advertiser that runs alone is \<open>announce_addrs\<close>.\<close>

lemma run_announce_task:
  assumes "writer_result w = None"
  shows "run_task hl cd envs (announce_task addrs rest x w) b =
    (case writer_step envs w b of (w1, b1) \<Rightarrow> (announce_task addrs rest x w1, b1))"
  using assms by (simp add: announce_task_def)

lemma announce_task_steps:
  assumes "writer_steps envs n (w, b) = (w1, b1)" "writer_result w1 = Some r"
  shows "\<exists>m. task_steps hl cd envs m (announce_task addrs rest x w, b) = (announce_task addrs rest x w1, b1)"
  using assms
proof (induction n arbitrary: w b)
  case 0
  then show ?case by (intro exI [of _ 0]) simp
next
  case (Suc n)
  obtain w2 b2 where step: "writer_step envs w b = (w2, b2)" by force
  then have rest: "writer_steps envs n (w2, b2) = (w1, b1)"
    using Suc.prems(1) by (simp add: funpow_Suc_right del: funpow.simps(2))
  obtain m where m: "task_steps hl cd envs m (announce_task addrs rest x w2, b2) = (announce_task addrs rest x w1, b1)"
    using Suc.IH [OF rest Suc.prems(2)] by blast
  show ?case
  proof (cases "writer_result w")
    case None
    then have "task_steps hl cd envs (Suc m) (announce_task addrs rest x w, b) = (announce_task addrs rest x w1, b1)"
      using m step by (simp add: funpow_Suc_right run_announce_task del: funpow.simps(2))
    then show ?thesis by blast
  next
    case (Some q)
    then have "w2 = w" "b2 = b" using step writer_finished by auto
    then show ?thesis using m by blast
  qed
qed

lemma announce_loop_alone:
  fixes hl :: "'b http_lib"
  assumes "announce_loop envs x rest b = (r, b')"
  shows "\<exists>n. task_steps hl cd envs n (Announcing addrs None rest x, b) = (Announcer addrs, b')"
  using assms
proof (induction rest arbitrary: b)
  case Nil
  then show ?case by (intro exI [of _ 1]) simp
next
  case (Cons addr rest)
  obtain r1 b1 where up: "upsert_value envs (pa_key (addr_args addr x)) (pa_value (addr_args addr x)) None
      (pa_expires (addr_args addr x)) b = (r1, b1)" by force
  obtain i w where w: "writer_steps envs i (start_writer (addr_args addr x) None b) = (w, b1)" "writer_result w = Some r1"
    using writer_alone [OF up] by blast
  obtain w0 b0 where w0: "start_writer (addr_args addr x) None b = (w0, b0)" by force
  obtain m where "task_steps hl cd envs m (announce_task addrs rest x w0, b0) = (announce_task addrs rest x w, b1)"
    using announce_task_steps [OF w(1) [unfolded w0] w(2)] by blast
  then have m: "task_steps hl cd envs (Suc m) (Announcing addrs None (addr # rest) x, b) = (announce_task addrs rest x w, b1)"
    using w0 by (simp add: funpow_Suc_right del: funpow.simps(2))
  show ?case
  proof (cases r1)
    case (Inl e)
    then have "(announce_task addrs rest x w :: 'b task) = Announcer addrs" "b' = b1"
      using w(2) Cons.prems up by (auto simp: announce_task_def addr_args_def)
    then show ?thesis using m by (intro exI [of _ "Suc m"]) simp
  next
    case (Inr u)
    then have next_task: "(announce_task addrs rest x w :: 'b task) = Announcing addrs None rest x"
      and "announce_loop envs x rest b1 = (r, b')"
      using w(2) Cons.prems up by (simp_all add: announce_task_def addr_args_def)
    then obtain n where n: "task_steps hl cd envs n (Announcing addrs None rest x, b1) = (Announcer addrs, b')"
      using Cons.IH by blast
    then have "task_steps hl cd envs (n + Suc m) (Announcing addrs None (addr # rest) x, b) = (Announcer addrs, b')"
      using m next_task by (simp only: funpow_add comp_apply)
    then show ?thesis by blast
  qed
qed

lemma announce_alone:
  assumes "announce_addrs envs addrs b = (r, b')"
  shows "\<exists>n. task_steps hl cd envs n (Announcer addrs, b) = (Announcer addrs, b')"
proof -
  let ?x = "saturating_add_i64 (unix_micros (ev_now (envs (bk_tick b)))) CFG_ADDR_TTL_MICROS"
  have "announce_loop envs ?x addrs (b\<lparr>bk_tick := Suc (bk_tick b)\<rparr>) = (r, b')"
    using assms by (simp add: announce_addrs_def Let_def)
  then obtain n where "task_steps hl cd envs n (Announcing addrs None addrs ?x, b\<lparr>bk_tick := Suc (bk_tick b)\<rparr>) = (Announcer addrs, b')"
    using announce_loop_alone by blast
  then have "task_steps hl cd envs (Suc n) (Announcer addrs, b) = (Announcer addrs, b')"
    by (simp add: funpow_Suc_right del: funpow.simps(2))
  then show ?thesis by blast
qed


subsection \<open>What the tasks are about\<close>

text \<open>A writer of this entry, with this explicit timestamp if any.\<close>

fun writes_for :: "put_args \<Rightarrow> int option \<Rightarrow> writer \<Rightarrow> bool" where
  "writes_for p modified (Stamping q n e) \<longleftrightarrow> q = p \<and> modified = None"
| "writes_for p modified (Storing q m nxt) \<longleftrightarrow> q = p \<and> (modified = None \<longleftrightarrow> nxt \<noteq> None) \<and> (\<forall>n. modified = Some n \<longrightarrow> m = n)"
| "writes_for p modified (Stored q m r) \<longleftrightarrow> q = p \<and> (\<forall>n. modified = Some n \<longrightarrow> m = n)"
| "writes_for p modified (Rejected e) \<longleftrightarrow> True"
| "writes_for p modified (GaveUp e) \<longleftrightarrow> True"

lemma writes_for_start: "start_writer p modified b = (w, b') \<Longrightarrow> writes_for p modified w"
  by (auto simp: start_writer_def Let_def split: if_splits option.splits)

lemma writes_for_step:
  assumes "writer_step envs w b = (w', b')" "writes_for p modified w"
  shows "writes_for p modified w'"
proof (cases w)
  case (Stamping q n e)
  then show ?thesis using assms by (cases n) (auto split: prod.splits)
next
  case (Storing q m nxt)
  then show ?thesis using assms by (auto split: prod.splits sum.splits option.splits)
qed (use assms in auto)

fun task_writer :: "'b task \<Rightarrow> writer option" where
  "task_writer (Putting req put w) = Some w"
| "task_writer (Announcing addrs w rest x) = w"
| "task_writer t = None"

text \<open>The request asks for this put.\<close>

definition asks :: "'b http_lib \<Rightarrow> codec \<Rightarrow> 'b http_request \<Rightarrow> cfg_put_req \<Rightarrow> bool" where
  "asks hl cd req put \<longleftrightarrow> route_name (rq_path req) = Some CFG_PUT_REQ \<and>
     (\<exists>body. read_body hl req = Inr body \<and> decode_put_req cd body = Inr put)"

fun task_made :: "'b http_lib \<Rightarrow> codec \<Rightarrow> socket_addr list \<Rightarrow> 'b task \<Rightarrow> bool" where
  "task_made hl cd all (Putting req put w) \<longleftrightarrow>
     asks hl cd req put \<and> writes_for (put_args_of put) (pr_modified_at_micros put) w"
| "task_made hl cd all (Announcer addrs) \<longleftrightarrow> addrs = all"
| "task_made hl cd all (Announcing addrs w rest x) \<longleftrightarrow> addrs = all \<and> set rest \<subseteq> set all \<and>
     (\<forall>v. w = Some v \<longrightarrow> (\<exists>addr \<in> set all. writes_for (addr_args addr x) None v))"
| "task_made hl cd all t \<longleftrightarrow> True"

lemma put_task_made: "asks hl cd req put \<Longrightarrow> writes_for (put_args_of put) (pr_modified_at_micros put) w \<Longrightarrow>
    task_made hl cd all (put_task req put w)"
  by (auto simp: put_task_def split: option.split)

lemma announce_task_made: "addr \<in> set all \<Longrightarrow> set rest \<subseteq> set all \<Longrightarrow> writes_for (addr_args addr x) None w \<Longrightarrow>
    task_made hl cd all (announce_task all rest x w)"
  by (auto simp: announce_task_def split: option.split sum.split)

text \<open>The handlers that a route can find.\<close>

lemma routed:
  assumes "route (back_inner cd envs) req = Inr h"
  obtains (health) "h = health_handler"
  | (cfg_get) "h = cfg_get_handler cd envs"
  | (cfg_put) "h = cfg_put_handler cd envs" "route_name (rq_path req) = Some CFG_PUT_REQ"
  using assms by (auto simp: route_Inr back_inner_def split: if_splits)

lemma start_handler_simps:
  "start_handler cd req health_handler body b = (case health_handle body b of
     (Inr out, b1) \<Rightarrow> (Replied req (resp OK out), b1)
   | (Inl err, b1) \<Rightarrow> (Replied req (resp_text INTERNAL_SERVER_ERROR (err_to_string err)), b1))"
  "start_handler cd req (cfg_get_handler cd envs) body b = (Getting req body, b)"
  "start_handler cd req (cfg_put_handler cd envs) body b = (case decode_put_req cd body of
     Inl err \<Rightarrow> (Replied req (put_response (Inl err)), b)
   | Inr put \<Rightarrow> (case start_writer (put_args_of put) (pr_modified_at_micros put) b of
       (w, b1) \<Rightarrow> (put_task req put w, b1)))"
  by (auto simp: start_handler_def health_handler_def cfg_get_handler_def cfg_put_handler_def HEALTH_REQ_def CFG_GET_REQ_def
      CFG_PUT_REQ_def dispatch_def split: prod.splits sum.splits)

text \<open>A step of an admitted request: it has its reply, reads, or starts a write.\<close>

lemma run_authorized:
  assumes "run_task hl cd envs (Authorized req) b = (t, b')"
  obtains (reply) res where "t = Replied req res" "b' = b"
  | (read) body where "t = Getting req body" "b' = b"
  | (put) put w where "asks hl cd req put" "start_writer (put_args_of put) (pr_modified_at_micros put) b = (w, b')"
      "t = put_task req put w"
proof (cases "route (back_inner cd envs) req")
  case (Inl res)
  then show ?thesis using assms reply by auto
next
  case h: (Inr h)
  show ?thesis
  proof (cases "read_body hl req")
    case (Inl res)
    then show ?thesis using assms h reply by auto
  next
    case body: (Inr body)
    then have start: "start_handler cd req h body b = (t, b')" using assms h by simp
    from h show ?thesis
    proof (cases rule: routed)
      case health
      then show ?thesis using start reply
        by (auto simp: start_handler_simps health_handle_def split: if_splits)
    next
      case cfg_get
      then show ?thesis using start read by (auto simp: start_handler_simps)
    next
      case cfg_put
      then show ?thesis using start reply put body
        by (auto simp: start_handler_simps asks_def split: sum.splits prod.splits)
    qed
  qed
qed

lemma run_arrived:
  assumes "run_task hl cd envs (Arrived req) b = (t, b')"
  shows "bk_store b' = bk_store b \<and> bk_counter b' = bk_counter b \<and> bk_tick b \<le> bk_tick b' \<and>
    (t = Authorized req \<or> (\<exists>res. t = Replied req res))"
proof -
  obtain r b1 where auth: "authorize hl (back_inner cd envs) req b = (r, b1)" by force
  have "auth_left (back_inner cd envs) b b1"
  proof (cases r)
    case (Inl res)
    then show ?thesis using authorize_Inl [of hl "back_inner cd envs" req b res b1] auth by simp
  next
    case (Inr u)
    then show ?thesis using auth authorize_Inr [of hl "back_inner cd envs" req b u b1] unfolding auth_left_def by (metis snd_conv)
  qed
  then show ?thesis using auth_left_state [of cd envs b b1] assms auth by (cases r) auto
qed

lemma run_getting:
  assumes "run_task hl cd envs (Getting req body) b = (t, b')"
  shows "bk_store b' = bk_store b \<and> bk_counter b' = bk_counter b \<and> bk_tick b \<le> bk_tick b' \<and> (\<exists>res. t = Replied req res)"
  using assms by (auto simp: dispatch_def cfg_get_handler_def cfg_get_handle_def read_all_def split: prod.splits sum.splits)

lemma task_made_step:
  assumes "run_task hl cd envs t b = (t', b')" "task_made hl cd all t"
  shows "task_made hl cd all t'"
proof (cases t)
  case (Arrived req)
  then show ?thesis using run_arrived assms(1) by fastforce
next
  case (Authorized req)
  from assms(1) [unfolded Authorized] show ?thesis
    by (cases rule: run_authorized) (auto intro: put_task_made writes_for_start)
next
  case (Getting req body)
  then show ?thesis using run_getting assms(1) by fastforce
next
  case (Putting req put w)
  then show ?thesis using assms by (auto split: prod.splits intro!: put_task_made intro: writes_for_step)
next
  case (Announcing addrs w rest x)
  show ?thesis
  proof (cases w)
    case None
    then show ?thesis using assms Announcing
      by (cases rest) (auto split: prod.splits intro!: announce_task_made intro: writes_for_start)
  next
    case (Some v)
    then show ?thesis using assms Announcing
      by (auto split: prod.splits intro!: announce_task_made intro: writes_for_step)
  qed
qed (use assms in auto)


subsection \<open>What a step of a task does\<close>

text \<open>The row of this writer is put: it is there now, or a row at least as new stays.\<close>

definition wrote :: "put_args \<Rightarrow> int \<Rightarrow> back_state \<Rightarrow> back_state \<Rightarrow> bool" where
  "wrote p m b b' \<longleftrightarrow> written (pa_key p) m (pa_expires p) (into_bytes (pa_value p)) b b'"

lemma wrote_entry:
  "wrote p m b b' \<Longrightarrow> cfg_entry k b' = (if k = pa_key p then newest (writer_row p m) (cfg_entry k b) else cfg_entry k b)"
  using written_cfg_entry by (auto simp: wrote_def writer_row_def)

text \<open>A task whose writer has stored its row, before and after.\<close>

definition stored_by :: "put_args \<Rightarrow> int \<Rightarrow> 'b task \<Rightarrow> 'b task \<Rightarrow> bool" where
  "stored_by p m t t' \<longleftrightarrow> (\<exists>nxt. task_writer t = Some (Storing p m nxt)) \<and>
     (case t of
        Putting req put w \<Rightarrow> t' = Replied req (resp OK [])
      | Announcing addrs w rest x \<Rightarrow> t' = Announcing addrs None rest x
      | _ \<Rightarrow> False)"

lemma writer_step_store:
  assumes "writer_step envs w b = (w', b')" "back_wf b"
  shows "bk_store b' = bk_store b \<or> (\<exists>p m nxt. w = Storing p m nxt \<and> w' = Stored p m (Inr ()) \<and> wrote p m b b')"
proof (cases w)
  case (Stamping p n e)
  then show ?thesis using assms(1) take_micros_store [of envs b] by (cases n) (auto split: prod.splits)
next
  case (Storing p m nxt)
  obtain r b1 where up: "back_upsert envs (pa_key p) m (pa_expires p) (into_bytes (pa_value p)) b = (r, b1)" by force
  show ?thesis
  proof (cases r)
    case (Inl e)
    then show ?thesis using assms(1) Storing up back_upsert_Inl [OF up [unfolded Inl]] by (auto split: option.splits)
  next
    case (Inr a)
    then show ?thesis using assms Storing up back_upsert_written [OF up [unfolded Inr]] by (auto simp: wrote_def)
  qed
qed (use assms in auto)

lemma run_task_store:
  assumes "run_task hl cd envs t b = (t', b')" "back_wf b"
  shows "bk_store b' = bk_store b \<or> (\<exists>p m. stored_by p m t t' \<and> wrote p m b b')"
proof (cases t)
  case (Arrived req)
  then show ?thesis using run_arrived assms(1) by blast
next
  case (Authorized req)
  from assms(1) [unfolded Authorized] show ?thesis
    by (cases rule: run_authorized) (auto dest: start_writer_store)
next
  case (Getting req body)
  then show ?thesis using run_getting assms(1) by blast
next
  case (Putting req put w)
  obtain w1 b1 where step: "writer_step envs w b = (w1, b1)" by force
  then have "b' = b1" "t' = put_task req put w1" using assms(1) Putting by simp_all
  then show ?thesis using writer_step_store [OF step assms(2)] Putting
    by (fastforce simp: stored_by_def put_task_def put_response_def writer_result_def)
next
  case (Announcing addrs w rest x)
  show ?thesis
  proof (cases w)
    case None
    then show ?thesis using assms(1) Announcing
      by (cases rest) (auto split: prod.splits dest: start_writer_store)
  next
    case (Some v)
    obtain w1 b1 where step: "writer_step envs v b = (w1, b1)" by force
    then have "b' = b1" "t' = announce_task addrs rest x w1" using assms(1) Announcing Some by simp_all
    then show ?thesis using writer_step_store [OF step assms(2)] Announcing Some
      by (fastforce simp: stored_by_def announce_task_def writer_result_def)
  qed
qed (use assms in auto)

text \<open>A put that is answered 200 has put its row.\<close>

lemma put_acknowledged:
  assumes "run_task hl cd envs (Putting req put (Storing p m nxt)) b = (Replied req res, b')" "rs_status res = OK" "back_wf b"
  shows "wrote p m b b' \<and> back_wf b'"
proof -
  obtain r b1 where up: "back_upsert envs (pa_key p) m (pa_expires p) (into_bytes (pa_value p)) b = (r, b1)" by force
  show ?thesis
  proof (cases r)
    case (Inl e)
    then have False using assms(1,2) up
      by (auto simp: put_task_def writer_result_def put_response_def status_defs split: option.splits)
    then show ?thesis by blast
  next
    case (Inr a)
    then have "b' = b1" using assms(1) up by (simp add: put_task_def)
    then show ?thesis using back_upsert_written [OF up [unfolded Inr] assms(3)] by (simp add: wrote_def written_def)
  qed
qed

text \<open>The counter only grows, and the timestamp that a waiting writer holds is not above it.\<close>

definition flight_ok :: "back_state \<Rightarrow> writer \<Rightarrow> bool" where
  "flight_ok b w \<longleftrightarrow> (\<forall>p m nxt. w = Storing p m nxt \<longrightarrow> m \<le> bk_counter b)"

definition advanced :: "back_state \<Rightarrow> back_state \<Rightarrow> bool" where
  "advanced b b' \<longleftrightarrow> bk_counter b \<le> bk_counter b' \<and> bk_tick b \<le> bk_tick b' \<and> is_i64 (bk_counter b')"

lemma start_writer_advanced:
  assumes "start_writer p modified b = (w, b')" "is_i64 (bk_counter b)" "\<And>m. modified = Some m \<Longrightarrow> is_i64 m"
  shows "advanced b b' \<and> flight_ok b' w"
  using assms by (auto simp: start_writer_def Let_def advanced_def flight_ok_def fetch_max_def max_def split: if_splits option.splits)

lemma writer_step_advanced:
  assumes "writer_step envs w b = (w', b')" "is_i64 (bk_counter b)" "bk_counter b < i64_max"
  shows "advanced b b' \<and> (flight_ok b w \<longrightarrow> flight_ok b' w')"
proof (cases w)
  case (Stamping p n e)
  show ?thesis
  proof (cases n)
    case (Suc k)
    obtain m b1 where m: "take_micros envs b = (m, b1)" by force
    then have "m = bump (unix_micros (ev_now (envs (bk_tick b)))) (bk_counter b)" "bk_counter b1 = m" "bk_tick b1 = Suc (bk_tick b)"
      by (auto simp: take_micros_def next_micros_def Let_def)
    then show ?thesis
      using m assms(1) Stamping Suc bump_greater [OF assms(2,3), of "unix_micros (ev_now (envs (bk_tick b)))"]
      by (auto simp: advanced_def flight_ok_def)
  qed (use Stamping assms in \<open>auto simp: advanced_def flight_ok_def\<close>)
next
  case (Storing p m nxt)
  obtain r b1 where up: "back_upsert envs (pa_key p) m (pa_expires p) (into_bytes (pa_value p)) b = (r, b1)" by force
  then have "b' = b1" "\<And>q n x. w' \<noteq> Storing q n x"
    using assms(1) Storing by (auto split: sum.splits option.splits)
  then show ?thesis
    using back_upsert_counter [OF up] back_upsert_tick [OF up] assms(2) by (auto simp: advanced_def flight_ok_def)
qed (use assms in \<open>auto simp: advanced_def flight_ok_def\<close>)

lemma task_writer_put: "task_writer (put_task req put w) = Some v \<Longrightarrow> v = w"
  by (auto simp: put_task_def split: option.splits)

lemma task_writer_announce: "task_writer (announce_task addrs rest x w) = Some v \<Longrightarrow> v = w"
  by (auto simp: announce_task_def split: option.splits sum.splits)

lemma run_task_advanced:
  assumes "run_task hl cd envs t b = (t', b')" "is_i64 (bk_counter b)" "bk_counter b < i64_max" "codec_rust cd"
    and "\<And>w. task_writer t = Some w \<Longrightarrow> flight_ok b w"
  shows "advanced b b' \<and> (\<forall>w. task_writer t' = Some w \<longrightarrow> flight_ok b' w)"
proof (cases t)
  case (Arrived req)
  then show ?thesis using run_arrived assms(1,2) by (fastforce simp: advanced_def)
next
  case (Authorized req)
  from assms(1) [unfolded Authorized] show ?thesis
  proof (cases rule: run_authorized)
    case (put put w)
    have "advanced b b' \<and> flight_ok b' w"
      using put(1) assms(4) by (intro start_writer_advanced [OF put(2) assms(2)]) (auto simp: asks_def codec_rust_def)
    then show ?thesis using task_writer_put put(3) by blast
  qed (use assms(2) in \<open>auto simp: advanced_def\<close>)
next
  case (Getting req body)
  then show ?thesis using run_getting assms(1,2) by (fastforce simp: advanced_def)
next
  case (Putting req put w)
  then show ?thesis using assms writer_step_advanced [of envs w b] task_writer_put by (fastforce split: prod.splits)
next
  case (Announcing addrs w rest x)
  show ?thesis
  proof (cases w)
    case None
    then show ?thesis using assms(1,2) Announcing start_writer_advanced task_writer_announce
      by (cases rest) (fastforce simp: advanced_def split: prod.splits)+
  next
    case (Some v)
    then show ?thesis using assms Announcing writer_step_advanced [of envs v b] task_writer_announce by (fastforce split: prod.splits)
  qed
qed (use assms in \<open>auto simp: advanced_def\<close>)

end
