(* ===== verification/Server_Demo.thy ===== *)
theory Server_Demo
  imports Server_Tasks
begin

section \<open>A run of a server\<close>

text \<open>
  A server with one api key that gets one \<open>cfg-put\<close>, for the witnesses: the states from the arrival of the
  request to its reply.
\<close>

definition keyed_back :: back_state where
  "keyed_back = \<lparr>bk_store = \<lparr>st_sql = \<lparr>entries = [cfg_row ''cfg-api-key~test'' (-1) None []], chunks = []\<rparr>, st_fs = []\<rparr>,
     bk_counter = 0, bk_tick = 0\<rparr>"

definition demo_put_req :: cfg_put_req where
  "demo_put_req = \<lparr>pr_key = ''k'', pr_value = ''v'', pr_expires_at_micros = None, pr_modified_at_micros = None\<rparr>"

definition demo_put_http :: "bytes http_request" where
  "demo_put_http = demo_request ''/cfg-put'' ''Bearer test'' (0 # 1 # into_bytes ''kv'')"

abbreviation demo_envs :: envs where
  "demo_envs \<equiv> \<lambda>_. ok_env"

abbreviation demo_sys :: "bytes task \<Rightarrow> back_state \<Rightarrow> bytes server_sys" where
  "demo_sys t b \<equiv> \<lparr>ss_back = b, ss_tasks = [Announcer [], t], ss_doomed = []\<rparr>"

abbreviation demo_srv_step :: "bytes server_sys \<Rightarrow> bytes server_sys \<Rightarrow> bool" where
  "demo_srv_step \<equiv> server_step demo_http demo_codec demo_envs demo_crates demo_db"

lemma demo_clock: "unix_micros (ev_now ok_env) = 0"
  by (simp add: ok_env_def unix_micros_def micros_since_epoch_def i64_defs)

lemma keyed_back_wf: "back_wf keyed_back" "values_text keyed_back"
  by (auto simp: keyed_back_def back_wf_def tables_wf_def values_text_def cfg_entry_def q_entry_def split: if_splits)

lemma keyed_back_start: "server_start demo_codec demo_envs keyed_back"
  using demo_clock keyed_back_wf by (simp add: server_start_def stamps_def) (simp add: keyed_back_def)

lemma demo_arrives: "demo_srv_step (server_new keyed_back []) (demo_sys (Arrived demo_put_http) keyed_back)"
  using server_step.accept [of demo_http demo_codec demo_envs demo_crates demo_db "server_new keyed_back []" demo_put_http]
  by (simp add: server_new_def)

lemma demo_runs:
  "run_task demo_http demo_codec demo_envs t b = (t', b') \<Longrightarrow> demo_srv_step (demo_sys t b) (demo_sys t' b')"
  using server_step.run [of 1 "demo_sys t b" demo_http demo_codec demo_envs t' b'] by simp

lemma demo_token: "token_of (of_utf8_bytes (into_bytes ''Bearer test'')) = ''test''"
  using token_of_bearer [of "''test''"] by (simp add: plain_key_def printable_def)

definition demo_back :: "nat \<Rightarrow> back_state" where
  "demo_back n = keyed_back\<lparr>bk_tick := n\<rparr>"

lemma demo_authorizes:
  "run_task demo_http demo_codec demo_envs (Arrived demo_put_http) keyed_back = (Authorized demo_put_http, demo_back 1)"
proof -
  have "cfg_entry (key_entry ''test'') keyed_back \<noteq> None"
    by (simp add: key_entry_def CFG_API_KEY_PREFIX_def cfg_entry_def keyed_back_def q_entry_def cfg_row_def)
  then have "make_auth_cb demo_envs (of_utf8_bytes (into_bytes ''Bearer test'')) keyed_back = (Inr OK, demo_back 1)"
    using demo_token by (auto simp: make_auth_cb_eq ok_env_def demo_back_def) (simp_all add: keyed_back_def)
  then show ?thesis
    by (simp add: authorize_def demo_put_http_def demo_request_def demo_http_def back_inner_def del: of_utf8_into_bytes)
qed

lemma demo_starts:
  "run_task demo_http demo_codec demo_envs (Authorized demo_put_http) (demo_back 1) =
     (Putting demo_put_http demo_put_req (Stamping (put_args_of demo_put_req) 64 None), demo_back 1)"
proof -
  have route: "route (back_inner demo_codec demo_envs) demo_put_http = Inr (cfg_put_handler demo_codec demo_envs)"
    by (simp add: route_Inr demo_put_http_def demo_request_def route_name_def strip_prefix_def str_contains_def Let_def
        back_inner_def CFG_PUT_REQ_def CFG_GET_REQ_def HEALTH_REQ_def)
  have body: "read_body demo_http demo_put_http = Inr (0 # 1 # into_bytes ''kv'')"
    by (simp add: read_body_Inr demo_put_http_def demo_request_def declared_length_def demo_http_def MAX_BODY_def)
  have "decode_put_req demo_codec (0 # 1 # into_bytes ''kv'') = Inr demo_put_req"
    by (simp add: demo_codec_def put_of_bytes_def put_fits_def demo_put_req_def into_bytes_def of_utf8_bytes_def)
  moreover have "start_writer (put_args_of demo_put_req) None (demo_back 1) = (Stamping (put_args_of demo_put_req) 64 None, demo_back 1)"
    by (simp add: start_writer_def put_args_of_def demo_put_req_def CFG_KEY_MAX_def CFG_VALUE_MAX_def)
  moreover have "pr_modified_at_micros demo_put_req = None" by (simp add: demo_put_req_def)
  ultimately show ?thesis using route body by (simp add: start_handler_simps put_task_def writer_result_def)
qed

lemma demo_stamps:
  "run_task demo_http demo_codec demo_envs (Putting demo_put_http demo_put_req (Stamping (put_args_of demo_put_req) 64 None)) (demo_back 1) =
     (Putting demo_put_http demo_put_req (Storing (put_args_of demo_put_req) 1 (Some 63)), (demo_back 2)\<lparr>bk_counter := 1\<rparr>)"
proof -
  have "take_micros demo_envs (demo_back 1) = (1, (demo_back 2)\<lparr>bk_counter := 1\<rparr>)"
    using demo_clock by (simp add: take_micros_def next_micros_def Let_def bump_def demo_back_def keyed_back_def i64_defs wrap_i64_id)
  then show ?thesis by (simp add: eval_nat_numeral put_task_def writer_result_def)
qed

lemma demo_stores:
  "\<exists>b. run_task demo_http demo_codec demo_envs (Putting demo_put_http demo_put_req (Storing (put_args_of demo_put_req) 1 (Some 63)))
     ((demo_back 2)\<lparr>bk_counter := 1\<rparr>) = (Replied demo_put_http (resp OK []), b)"
proof -
  let ?b = "(demo_back 2)\<lparr>bk_counter := 1\<rparr>" and ?p = "put_args_of demo_put_req"
  obtain r b where up: "back_upsert demo_envs (pa_key ?p) 1 (pa_expires ?p) (into_bytes (pa_value ?p)) ?b = (r, b)" by force
  have "back_wf ?b" using keyed_back_wf(1) by (simp add: demo_back_def back_wf_def)
  moreover have "1 \<notin> stamps ?b" by (simp add: stamps_def demo_back_def keyed_back_def)
  moreover have "ev_sql (demo_envs (bk_tick ?b)) = sql_ok" by (simp add: ok_env_def del: sql_ok_simp)
  ultimately have "\<exists>a. r = Inr a"
    by (intro back_upsert_fails [OF _ _ _ _ up]) (simp_all add: put_args_of_def demo_put_req_def CFG_KEY_MAX_def CFG_VALUE_MAX_def)
  then show ?thesis using up by (auto simp: put_task_def writer_result_def put_response_def)
qed

text \<open>The request has a writer, and the writer its timestamp.\<close>

abbreviation demo_writing :: "bytes server_sys" where
  "demo_writing \<equiv> demo_sys (Putting demo_put_http demo_put_req (Stamping (put_args_of demo_put_req) 64 None)) (demo_back 1)"

abbreviation demo_storing :: "bytes server_sys" where
  "demo_storing \<equiv> demo_sys (Putting demo_put_http demo_put_req (Storing (put_args_of demo_put_req) 1 (Some 63)))
     ((demo_back 2)\<lparr>bk_counter := 1\<rparr>)"

lemma demo_steps:
  "demo_srv_step (server_new keyed_back []) (demo_sys (Arrived demo_put_http) keyed_back)"
  "demo_srv_step (demo_sys (Arrived demo_put_http) keyed_back) (demo_sys (Authorized demo_put_http) (demo_back 1))"
  "demo_srv_step (demo_sys (Authorized demo_put_http) (demo_back 1)) demo_writing"
  "demo_srv_step demo_writing demo_storing"
  by (rule demo_arrives demo_runs demo_authorizes demo_starts demo_stamps)+

lemma demo_reaches: "demo_srv_step\<^sup>*\<^sup>* (server_new keyed_back []) demo_storing"
  using demo_steps by (meson converse_rtranclp_into_rtranclp rtranclp.rtrancl_refl)

lemma demo_counter [simp]: "bk_counter keyed_back = 0" "bk_counter (demo_back n) = 0"
  by (simp_all add: demo_back_def keyed_back_def)

lemma demo_reply:
  obtains b where "run_task demo_http demo_codec demo_envs (Putting demo_put_http demo_put_req (Storing (put_args_of demo_put_req) 1 (Some 63)))
      ((demo_back 2)\<lparr>bk_counter := 1\<rparr>) = (Replied demo_put_http (resp OK []), b)"
    "demo_srv_step demo_storing (demo_sys (Replied demo_put_http (resp OK [])) b)"
    "wrote (put_args_of demo_put_req) 1 ((demo_back 2)\<lparr>bk_counter := 1\<rparr>) b"
proof -
  obtain b where run: "run_task demo_http demo_codec demo_envs (Putting demo_put_http demo_put_req (Storing (put_args_of demo_put_req) 1 (Some 63)))
      ((demo_back 2)\<lparr>bk_counter := 1\<rparr>) = (Replied demo_put_http (resp OK []), b)" using demo_stores by blast
  have "back_wf ((demo_back 2)\<lparr>bk_counter := 1\<rparr>)" using keyed_back_wf(1) by (simp add: demo_back_def back_wf_def)
  then have "wrote (put_args_of demo_put_req) 1 ((demo_back 2)\<lparr>bk_counter := 1\<rparr>) b" using put_acknowledged [OF run] by simp
  then show ?thesis using that run demo_runs [OF run] by blast
qed

lemma demo_back_entry: "cfg_entry ''k'' ((demo_back n)\<lparr>bk_counter := m\<rparr>) = None" "cfg_entry ''k'' keyed_back = None"
  by (simp_all add: cfg_entry_def demo_back_def keyed_back_def q_entry_def cfg_row_def)


end
