(* ===== verification/Server_Props.thy ===== *)
theory Server_Props
  imports Server_Demo
begin

section \<open>What a running server promises\<close>

text \<open>
  The properties of the machine of \<open>Server_Tasks\<close>, in any order of its steps: the invariant, that the config
  changes on authorized requests only, and that an acknowledged write is read.
\<close>

subsection \<open>The invariant of the server\<close>

text \<open>The background work removes rows and files, and nothing else.\<close>

lemma prune_tx_rows:
  assumes "back_wf (ss_back c)"
  shows "ss_tasks (prune_tx ev now c) = ss_tasks c"
    and "ss_back (prune_tx ev now c) = (ss_back c)\<lparr>bk_store := bk_store (ss_back (prune_tx ev now c))\<rparr>"
    and "tables_wf (st_sql (bk_store (ss_back (prune_tx ev now c))))"
    and "set (entries (st_sql (bk_store (ss_back (prune_tx ev now c))))) \<subseteq> set (entries (st_sql (bk_store (ss_back c))))"
proof -
  obtain r t where run: "sql_prune_expired (ev_sql ev) now (int PRUNE_BATCH) (st_sql (bk_store (ss_back c))) = (r, t)" by force
  have "tables_wf t \<and> set (entries t) \<subseteq> set (entries (st_sql (bk_store (ss_back c))))"
    using sql_prune_subset [OF run] assms by (simp add: back_wf_def)
  then show "ss_tasks (prune_tx ev now c) = ss_tasks c"
    "ss_back (prune_tx ev now c) = (ss_back c)\<lparr>bk_store := bk_store (ss_back (prune_tx ev now c))\<rparr>"
    "tables_wf (st_sql (bk_store (ss_back (prune_tx ev now c))))"
    "set (entries (st_sql (bk_store (ss_back (prune_tx ev now c))))) \<subseteq> set (entries (st_sql (bk_store (ss_back c))))"
    using run by (simp_all add: prune_tx_def)
qed

lemma unlink_next_sql [simp]:
  "ss_tasks (unlink_next cr db ev c) = ss_tasks c"
  "st_sql (bk_store (ss_back (unlink_next cr db ev c))) = st_sql (bk_store (ss_back c))"
  "bk_counter (ss_back (unlink_next cr db ev c)) = bk_counter (ss_back c)"
  "bk_tick (ss_back (unlink_next cr db ev c)) = bk_tick (ss_back c)"
  by (simp_all add: unlink_next_def split: list.split)

lemma collect_files_sql [simp]:
  "ss_tasks (collect_files cr db ev c) = ss_tasks c"
  "st_sql (bk_store (ss_back (collect_files cr db ev c))) = st_sql (bk_store (ss_back c))"
  "bk_counter (ss_back (collect_files cr db ev c)) = bk_counter (ss_back c)"
  "bk_tick (ss_back (collect_files cr db ev c)) = bk_tick (ss_back c)"
proof -
  have "st_sql (cleanup_pass cr db ev (bk_store (ss_back c))) = st_sql (bk_store (ss_back c))"
    by (cases rule: cleanup_pass_cases [of cr db ev "bk_store (ss_back c)"]) (simp, metis store.select_convs(1) store.surjective store.update_convs(2))
  then show "st_sql (bk_store (ss_back (collect_files cr db ev c))) = st_sql (bk_store (ss_back c))"
    by (simp add: collect_files_def)
qed (simp_all add: collect_files_def)

lemma unlink_next_rows:
  assumes "back_wf (ss_back c)"
  shows "ss_tasks (unlink_next cr db ev c) = ss_tasks c"
    and "ss_back (unlink_next cr db ev c) = (ss_back c)\<lparr>bk_store := bk_store (ss_back (unlink_next cr db ev c))\<rparr>"
    and "tables_wf (st_sql (bk_store (ss_back (unlink_next cr db ev c))))"
    and "set (entries (st_sql (bk_store (ss_back (unlink_next cr db ev c))))) \<subseteq> set (entries (st_sql (bk_store (ss_back c))))"
  using assms by (simp_all add: back_wf_def)

lemma collect_files_rows:
  assumes "back_wf (ss_back c)"
  shows "ss_tasks (collect_files cr db ev c) = ss_tasks c"
    and "ss_back (collect_files cr db ev c) = (ss_back c)\<lparr>bk_store := bk_store (ss_back (collect_files cr db ev c))\<rparr>"
    and "tables_wf (st_sql (bk_store (ss_back (collect_files cr db ev c))))"
    and "set (entries (st_sql (bk_store (ss_back (collect_files cr db ev c))))) \<subseteq> set (entries (st_sql (bk_store (ss_back c))))"
  using assms by (simp_all add: back_wf_def)

text \<open>A step is a new request, a step of a task, or work in the background that removes rows and files.\<close>

lemma server_step_cases:
  assumes "server_step hl cd envs cr db c c'" "back_wf (ss_back c)"
  obtains (accept) req where "ss_back c' = ss_back c" "ss_tasks c' = ss_tasks c @ [Arrived req]"
  | (run) i t b where "i < length (ss_tasks c)" "run_task hl cd envs (ss_tasks c ! i) (ss_back c) = (t, b)"
      "ss_back c' = b" "ss_tasks c' = (ss_tasks c)[i := t]"
  | (background) s where "ss_tasks c' = ss_tasks c" "ss_back c' = (ss_back c)\<lparr>bk_store := s\<rparr>" "tables_wf (st_sql s)"
      "set (entries (st_sql s)) \<subseteq> set (entries (st_sql (bk_store (ss_back c))))"
  using assms(1)
proof cases
  case (accept req)
  then show ?thesis using that(1) by simp
next
  case (run i t b)
  then show ?thesis using that(2) by simp
next
  case (prune ev now)
  show ?thesis by (rule that(3) [OF prune_tx_rows [OF assms(2), of ev now, folded prune(1)]])
next
  case (unlink ev)
  show ?thesis by (rule that(3) [OF unlink_next_rows [OF assms(2), of cr db ev, folded unlink]])
next
  case (collect ev)
  show ?thesis by (rule that(3) [OF collect_files_rows [OF assms(2), of cr db ev, folded collect]])
qed

definition sys_inv :: "int set \<Rightarrow> 'b http_lib \<Rightarrow> codec \<Rightarrow> envs \<Rightarrow> socket_addr list \<Rightarrow> 'b server_sys \<Rightarrow> bool" where
  "sys_inv F hl cd envs all c \<longleftrightarrow> server_inv_but F cd envs (ss_back c) \<and>
     (\<forall>t \<in> set (ss_tasks c). task_made hl cd all t \<and> (\<forall>w. task_writer t = Some w \<longrightarrow> flight_ok (ss_back c) w))"

text \<open>Steps before the counter has reached the largest \<open>i64\<close>, from where it wraps around.\<close>

definition server_step_ok ::
  "'b http_lib \<Rightarrow> codec \<Rightarrow> envs \<Rightarrow> crates \<Rightarrow> vm_io_db \<Rightarrow> 'b server_sys \<Rightarrow> 'b server_sys \<Rightarrow> bool" where
  "server_step_ok hl cd envs cr db c c' \<longleftrightarrow> server_step hl cd envs cr db c c' \<and> bk_counter (ss_back c) < i64_max"

definition server_init :: "codec \<Rightarrow> envs \<Rightarrow> socket_addr list \<Rightarrow> 'b server_sys \<Rightarrow> bool" where
  "server_init cd envs all c \<longleftrightarrow> (\<exists>b. c = server_new b all \<and> server_start cd envs b)"

lemma flight_ok_later: "flight_ok b w \<Longrightarrow> bk_counter b \<le> bk_counter b' \<Longrightarrow> flight_ok b' w"
  by (auto simp: flight_ok_def)

text \<open>What a task stores is text.\<close>

lemma stored_text:
  assumes "stored_by p m t t'" "task_made hl cd all t" "codec_rust cd"
  shows "utf8_valid (pa_value p)"
proof (cases t)
  case (Putting req put w)
  then have "p = put_args_of put" "asks hl cd req put" using assms(1,2) by (auto simp: stored_by_def)
  then show ?thesis using assms(3) by (auto simp: put_args_of_def asks_def codec_rust_def)
qed (use assms in \<open>auto simp: stored_by_def addr_args_def\<close>)

lemma run_task_inv:
  assumes "run_task hl cd envs t b = (t', b')" "server_inv_but F cd envs b" "bk_counter b < i64_max"
    and "task_made hl cd all t" "\<And>w. task_writer t = Some w \<Longrightarrow> flight_ok b w"
  shows "server_inv_but F cd envs b'"
proof -
  have inv: "codec_rust cd" "ahead_but F envs b" "values_text b" using assms(2) by (simp_all add: server_inv_but_def)
  note wf = ahead_butD(1,2) [OF inv(2)]
  have adv: "bk_counter b \<le> bk_counter b'" "bk_tick b \<le> bk_tick b'" "is_i64 (bk_counter b')"
    using run_task_advanced [OF assms(1) wf(2) assms(3) inv(1) assms(5)] by (simp_all add: advanced_def)
  from run_task_store [OF assms(1) wf(1)] show ?thesis
  proof (elim disjE exE conjE)
    assume same: "bk_store b' = bk_store b"
    have "ahead_but F envs b'" by (rule ahead_but_store [OF inv(2) same adv])
    moreover have "values_text b'" using same inv(3) by (simp add: values_text_def cfg_entry_def)
    ultimately show ?thesis using inv(1) by (simp add: server_inv_but_def)
  next
    fix p m
    assume stored: "stored_by p m t t'" and wr: "wrote p m b b'"
    obtain nxt where "task_writer t = Some (Storing p m nxt)" using stored by (auto simp: stored_by_def)
    then have "m \<le> bk_counter b'" using assms(5) adv(1) by (fastforce simp: flight_ok_def)
    then have "ahead_but F envs b'" by (rule ahead_but_written [OF wr [unfolded wrote_def] inv(2) _ adv])
    moreover have "row_text row" if "cfg_entry key b' = Some row" for key row
      using that wrote_entry [OF wr, of key] inv(3) stored_text [OF stored assms(4) inv(1)]
      by (auto simp: values_text_def newest_def writer_row_def split: if_splits option.splits)
    then have "values_text b'" unfolding values_text_def by blast
    ultimately show ?thesis using inv(1) by (simp add: server_inv_but_def)
  qed
qed

interpretation server: inductive_invariant "\<lambda>c. \<exists>b. c = server_new b all \<and> server_inv_but F cd envs b"
  "server_step_ok hl cd envs cr db" "sys_inv F hl cd envs all"
  for hl :: "'b http_lib" and cd envs cr db all F
proof unfold_locales
  show "sys_inv F hl cd envs all c" if "\<exists>b. c = server_new b all \<and> server_inv_but F cd envs b" for c :: "'b server_sys"
    using that by (auto simp: sys_inv_def server_new_def)
  show "sys_inv F hl cd envs all c'" if "server_step_ok hl cd envs cr db c c'" "sys_inv F hl cd envs all c" for c c' :: "'b server_sys"
  proof -
    have step: "server_step hl cd envs cr db c c'" and room: "bk_counter (ss_back c) < i64_max"
      using that(1) by (simp_all add: server_step_ok_def)
    have inv: "server_inv_but F cd envs (ss_back c)" and tasks: "\<And>t. t \<in> set (ss_tasks c) \<Longrightarrow> task_made hl cd all t"
      and flight: "\<And>t w. t \<in> set (ss_tasks c) \<Longrightarrow> task_writer t = Some w \<Longrightarrow> flight_ok (ss_back c) w"
      using that(2) by (auto simp: sys_inv_def)
    have wf: "back_wf (ss_back c)" using inv by (simp add: server_inv_but_def ahead_but_def)
    from step wf show ?thesis
    proof (cases rule: server_step_cases)
      case (accept req)
      then show ?thesis using that(2) by (auto simp: sys_inv_def)
    next
      case (run i t b)
      note made = tasks [OF nth_mem [OF run(1)]] and held = flight [OF nth_mem [OF run(1)]]
      have adv: "advanced (ss_back c) b \<and> (\<forall>w. task_writer t = Some w \<longrightarrow> flight_ok b w)"
        using inv held by (intro run_task_advanced [OF run(2) _ room]) (auto simp: server_inv_but_def ahead_but_def)
      have "server_inv_but F cd envs b" by (rule run_task_inv [OF run(2) inv room made held])
      moreover have "task_made hl cd all u \<and> (\<forall>w. task_writer u = Some w \<longrightarrow> flight_ok b w)"
        if "u \<in> set ((ss_tasks c)[i := t])" for u
        using that set_update_subset_insert [of "ss_tasks c" i t] task_made_step [OF run(2) made] adv tasks flight flight_ok_later
        by (fastforce simp: advanced_def)
      ultimately show ?thesis using run(3,4) by (simp add: sys_inv_def)
    next
      case (background s)
      have "flight_ok ((ss_back c)\<lparr>bk_store := s\<rparr>) w \<longleftrightarrow> flight_ok (ss_back c) w" for w by (simp add: flight_ok_def)
      then show ?thesis
        using server_inv_subset [OF inv background(3,4)] background(1,2) that(2) by (simp add: sys_inv_def)
    qed
  qed
qed

lemma server_inv_run:
  assumes "reachable (server_init cd envs all) (server_step_ok hl cd envs cr db) c"
  shows "server_inv cd envs (ss_back c)"
proof -
  have "sys_inv {} hl cd envs all c"
    using assms
  proof (induction rule: reachable.induct)
    case (reach_init c)
    then show ?case using server_start_inv by (intro server.inv_init) (auto simp: server_init_def server_inv_iff)
  qed (rule server.inv_step)
  then show ?thesis by (simp add: sys_inv_def server_inv_iff)
qed

subsection \<open>Who changes the config\<close>

text \<open>The token of the request is an api key.\<close>

definition request_authorized :: "'b http_lib \<Rightarrow> 'b http_request \<Rightarrow> back_state \<Rightarrow> bool" where
  "request_authorized hl req b \<longleftrightarrow> (\<exists>v auth. rq_authorization req = Some v \<and> hl_to_str hl v = Some auth \<and>
     token_of auth \<noteq> [] \<and> cfg_entry (CFG_API_KEY_PREFIX @ token_of auth) b \<noteq> None)"

fun admitted_request :: "'b task \<Rightarrow> 'b http_request option" where
  "admitted_request (Authorized req) = Some req"
| "admitted_request (Getting req body) = Some req"
| "admitted_request (Putting req put w) = Some req"
| "admitted_request t = None"

lemma arrived_authorized:
  assumes "run_task hl cd envs (Arrived req) b = (Authorized req, b')"
  shows "request_authorized hl req b"
proof -
  obtain u where "authorize hl (back_inner cd envs) req b = (Inr u, b')"
    using assms by (auto split: prod.splits sum.splits)
  then obtain v auth where "rq_authorization req = Some v" "hl_to_str hl v = Some auth"
    "make_auth_cb envs auth b = (Inr OK, b')" by (auto simp: authorize_Inr back_inner_def)
  then show ?thesis
    by (auto simp: request_authorized_def make_auth_cb_eq key_entry_def status_defs split: if_splits)
qed

lemma admitted_request_step:
  assumes "run_task hl cd envs t b = (t', b')" "admitted_request t' = Some req"
  shows "admitted_request t = Some req \<or> (t = Arrived req \<and> t' = Authorized req)"
proof (cases t)
  case (Arrived req')
  then show ?thesis using run_arrived [OF assms(1) [unfolded Arrived]] assms(2) by auto
next
  case (Authorized req')
  from assms(1) [unfolded Authorized] show ?thesis
    by (cases rule: run_authorized) (use assms(2) Authorized in \<open>auto simp: put_task_def split: option.splits\<close>)
next
  case (Getting req' body)
  then show ?thesis using run_getting [OF assms(1) [unfolded Getting]] assms(2) by auto
next
  case (Putting req' put w)
  then show ?thesis using assms by (auto simp: put_task_def split: prod.splits option.splits)
next
  case (Announcing addrs w rest x)
  show ?thesis
  proof (cases w)
    case None
    then show ?thesis using assms Announcing
      by (cases rest) (auto simp: announce_task_def split: prod.splits option.splits sum.splits)
  next
    case (Some v)
    then show ?thesis using assms Announcing
      by (auto simp: announce_task_def split: prod.splits option.splits sum.splits)
  qed
qed (use assms in auto)

text \<open>There was a state between \<open>c0\<close> and \<open>c\<close> in which the token of the request was an api key.\<close>

definition was_authorized ::
  "'b http_lib \<Rightarrow> codec \<Rightarrow> envs \<Rightarrow> crates \<Rightarrow> vm_io_db \<Rightarrow> 'b server_sys \<Rightarrow> 'b http_request \<Rightarrow> 'b server_sys \<Rightarrow> bool" where
  "was_authorized hl cd envs cr db c0 req c \<longleftrightarrow>
     (\<exists>d. (server_step hl cd envs cr db)\<^sup>*\<^sup>* c0 d \<and> (server_step hl cd envs cr db)\<^sup>*\<^sup>* d c \<and> request_authorized hl req (ss_back d))"

lemma was_authorized_later:
  "was_authorized hl cd envs cr db c0 req c \<Longrightarrow> server_step hl cd envs cr db c c' \<Longrightarrow> was_authorized hl cd envs cr db c0 req c'"
  unfolding was_authorized_def by (meson rtranclp.rtrancl_into_rtrancl)

text \<open>The row of a put that has its reply, by a request that was authorized.\<close>

definition put_row ::
  "'b http_lib \<Rightarrow> codec \<Rightarrow> envs \<Rightarrow> crates \<Rightarrow> vm_io_db \<Rightarrow> 'b server_sys \<Rightarrow> 'b server_sys \<Rightarrow> string \<Rightarrow> entry_row \<Rightarrow> bool" where
  "put_row hl cd envs cr db c0 c k row \<longleftrightarrow>
     (\<exists>req put m. Replied req (resp OK []) \<in> set (ss_tasks c) \<and> asks hl cd req put \<and> was_authorized hl cd envs cr db c0 req c \<and>
        pr_key put = k \<and> row = cfg_row k m (pr_expires_at_micros put) (pr_value put) \<and>
        (\<forall>n. pr_modified_at_micros put = Some n \<longrightarrow> m = n))"

definition addr_row :: "socket_addr list \<Rightarrow> string \<Rightarrow> entry_row \<Rightarrow> bool" where
  "addr_row all k row \<longleftrightarrow> (\<exists>addr \<in> set all. \<exists>m x. k = addr_key addr \<and> row = cfg_row k m (Some x) [])"

definition traced ::
  "'b http_lib \<Rightarrow> codec \<Rightarrow> envs \<Rightarrow> crates \<Rightarrow> vm_io_db \<Rightarrow> socket_addr list \<Rightarrow> 'b server_sys \<Rightarrow> 'b server_sys \<Rightarrow> bool" where
  "traced hl cd envs cr db all c0 c \<longleftrightarrow> back_wf (ss_back c) \<and>
     (\<forall>t \<in> set (ss_tasks c). task_made hl cd all t \<and>
        (\<forall>req. admitted_request t = Some req \<longrightarrow> was_authorized hl cd envs cr db c0 req c)) \<and>
     (\<forall>k row. cfg_entry k (ss_back c) = Some row \<longrightarrow>
        cfg_entry k (ss_back c0) = Some row \<or> addr_row all k row \<or> put_row hl cd envs cr db c0 c k row)"

lemma tracedD:
  assumes "traced hl cd envs cr db all c0 c"
  shows "back_wf (ss_back c)"
    and "t \<in> set (ss_tasks c) \<Longrightarrow> task_made hl cd all t"
    and "t \<in> set (ss_tasks c) \<Longrightarrow> admitted_request t = Some req \<Longrightarrow> was_authorized hl cd envs cr db c0 req c"
    and "cfg_entry k (ss_back c) = Some row \<Longrightarrow>
      cfg_entry k (ss_back c0) = Some row \<or> addr_row all k row \<or> put_row hl cd envs cr db c0 c k row"
  using assms by (auto simp: traced_def)

text \<open>The row a task stores belongs to its put or its address.\<close>

lemma stored_row:
  assumes "stored_by p m t t'" "task_made hl cd all t"
  obtains (put) req put nxt where "t = Putting req put (Storing p m nxt)" "t' = Replied req (resp OK [])" "asks hl cd req put"
      "p = put_args_of put" "\<forall>n. pr_modified_at_micros put = Some n \<longrightarrow> m = n"
  | (addr) addr x where "addr \<in> set all" "p = addr_args addr x"
proof (cases t)
  case (Putting req pt w)
  then show ?thesis using assms put by (auto simp: stored_by_def)
next
  case (Announcing addrs w rest x)
  then show ?thesis using assms addr by (auto simp: stored_by_def)
qed (use assms in \<open>auto simp: stored_by_def\<close>)

lemma put_row_later:
  assumes "put_row hl cd envs cr db c0 c k row" "server_step hl cd envs cr db c c'"
    and "\<And>req res. Replied req res \<in> set (ss_tasks c) \<Longrightarrow> Replied req res \<in> set (ss_tasks c')"
  shows "put_row hl cd envs cr db c0 c' k row"
  using assms was_authorized_later unfolding put_row_def by (metis (no_types, lifting))

lemma replied_stays:
  assumes "run_task hl cd envs (ts ! i) b = (t, b')" "i < length ts" "Replied req res \<in> set ts"
  shows "Replied req res \<in> set (ts[i := t])"
proof (cases "ts ! i = Replied req res")
  case True
  then have "t = Replied req res" using assms(1) by simp
  then show ?thesis using assms(2) by (simp add: set_update_memI)
next
  case False
  then obtain j where "j < length ts" "ts ! j = Replied req res" "j \<noteq> i" using assms(3) by (metis in_set_conv_nth)
  then show ?thesis by (metis length_list_update nth_list_update_neq nth_mem)
qed


lemma traced_step:
  assumes tr: "traced hl cd envs cr db all c0 c" and step: "server_step hl cd envs cr db c c'"
    and run0: "(server_step hl cd envs cr db)\<^sup>*\<^sup>* c0 c"
  shows "traced hl cd envs cr db all c0 c'"
proof -
  note later = was_authorized_later [OF _ step] and keep = put_row_later [OF _ step]
  from step tracedD(1) [OF tr] show ?thesis
  proof (cases rule: server_step_cases)
    case (accept req)
    have "put_row hl cd envs cr db c0 c' k row" if "put_row hl cd envs cr db c0 c k row" for k row
      using accept(2) by (intro keep that) simp
    then have rows: "cfg_entry k (ss_back c0) = Some row \<or> addr_row all k row \<or> put_row hl cd envs cr db c0 c' k row"
      if "cfg_entry k (ss_back c') = Some row" for k row
      using that tracedD(4) [OF tr] accept(1) by metis
    show ?thesis
      using rows later tracedD(1-3) [OF tr] accept by (auto simp: traced_def)
  next
    case (run i t b)
    let ?t = "ss_tasks c ! i"
    have made: "task_made hl cd all ?t" by (rule tracedD(2) [OF tr nth_mem [OF run(1)]])
    have replied: "Replied req res \<in> set (ss_tasks c')" if "Replied req res \<in> set (ss_tasks c)" for req res
      using replied_stays [OF run(2,1) that] run(4) by simp
    have old: "put_row hl cd envs cr db c0 c' k row" if "put_row hl cd envs cr db c0 c k row" for k row
      by (rule keep [OF that]) (rule replied)
    have tasks: "task_made hl cd all u \<and> (\<forall>req. admitted_request u = Some req \<longrightarrow> was_authorized hl cd envs cr db c0 req c')"
      if "u \<in> set (ss_tasks c')" for u
    proof (cases "u = t")
      case True
      have "was_authorized hl cd envs cr db c0 req c'" if "admitted_request t = Some req" for req
        using admitted_request_step [OF run(2) that]
      proof
        assume "admitted_request ?t = Some req"
        then show ?thesis using tracedD(3) [OF tr nth_mem [OF run(1)]] later by blast
      next
        assume "?t = Arrived req \<and> t = Authorized req"
        then have "request_authorized hl req (ss_back c)" using arrived_authorized run(2) by metis
        then show ?thesis using run0 step unfolding was_authorized_def by blast
      qed
      then show ?thesis using True task_made_step [OF run(2) made] by blast
    next
      case False
      then have "u \<in> set (ss_tasks c)" using that run(4) set_update_subset_insert [of "ss_tasks c" i t] by auto
      then show ?thesis using tracedD(2,3) [OF tr] later by blast
    qed
    have rows: "cfg_entry k (ss_back c0) = Some row \<or> addr_row all k row \<or> put_row hl cd envs cr db c0 c' k row"
      if entry: "cfg_entry k (ss_back c') = Some row" for k row
      using run_task_store [OF run(2) tracedD(1) [OF tr]]
    proof (elim disjE exE conjE)
      assume "bk_store b = bk_store (ss_back c)"
      then have "cfg_entry k (ss_back c) = Some row" using that run(3) by (simp add: cfg_entry_def)
      then show ?thesis using tracedD(4) [OF tr] old by blast
    next
      fix p m
      assume stored: "stored_by p m ?t t" and wr: "wrote p m (ss_back c) b"
      consider "cfg_entry k (ss_back c) = Some row" | "k = pa_key p" "row = writer_row p m"
        using entry run(3) wrote_entry [OF wr, of k] by (auto simp: newest_def split: if_splits option.splits)
      then show ?thesis
      proof cases
        case 1
        then show ?thesis using tracedD(4) [OF tr] old by blast
      next
        case 2
        from stored made show ?thesis
        proof (cases rule: stored_row)
          case (put req put nxt)
          have "was_authorized hl cd envs cr db c0 req c'"
            using tracedD(3) [OF tr nth_mem [OF run(1)]] put(1) later by simp
          moreover have "Replied req (resp OK []) \<in> set (ss_tasks c')"
            using run(1,4) put(2) by (simp add: set_update_memI)
          ultimately have "put_row hl cd envs cr db c0 c' k row"
            using put(3-5) 2 unfolding put_row_def by (auto simp: put_args_of_def writer_row_def)
          then show ?thesis by blast
        next
          case (addr addr x)
          then show ?thesis using 2 by (auto simp: addr_row_def addr_args_def writer_row_def)
        qed
      qed
    qed
    have "back_wf b"
      using run_task_store [OF run(2) tracedD(1) [OF tr]] tracedD(1) [OF tr] by (auto simp: back_wf_def wrote_def written_def)
    then show ?thesis using tasks rows run(3) by (simp add: traced_def)
  next
    case (background s)
    have old: "put_row hl cd envs cr db c0 c' k row" if "put_row hl cd envs cr db c0 c k row" for k row
      using background(1) by (intro keep that) simp
    have "cfg_entry k (ss_back c) = Some row" if "cfg_entry k (ss_back c') = Some row" for k row
      using that background(2-4) tracedD(1) [OF tr] by (auto simp: cfg_entry_def q_entry_Some back_wf_def)
    then have rows: "cfg_entry k (ss_back c0) = Some row \<or> addr_row all k row \<or> put_row hl cd envs cr db c0 c' k row"
      if "cfg_entry k (ss_back c') = Some row" for k row
      using that tracedD(4) [OF tr] old by blast
    have "back_wf (ss_back c')" using background(2,3) by (simp add: back_wf_def)
    then show ?thesis using rows later tracedD(2,3) [OF tr] background(1) by (simp add: traced_def)
  qed
qed

lemma traced_run:
  assumes "back_wf b" "(server_step hl cd envs cr db)\<^sup>*\<^sup>* (server_new b all) c"
  shows "traced hl cd envs cr db all (server_new b all) c"
  using assms(2)
proof (induction rule: rtranclp_induct)
  case base
  show ?case using assms(1) by (simp add: traced_def server_new_def)
next
  case (step d e)
  then show ?case using traced_step by blast
qed

subsection \<open>What holds in every state\<close>

text \<open>The timestamps of the start that some later reading of the clock does not pass.\<close>

definition future_stamps :: "envs \<Rightarrow> back_state \<Rightarrow> int set" where
  "future_stamps envs b = {m \<in> stamps b. \<exists>n \<ge> bk_tick b. unix_micros (ev_now (envs n)) \<le> m}"

lemma server_start_but:
  assumes "codec_rust cd" "back_wf b" "values_text b" "bk_counter b = 0"
  shows "server_inv_but (future_stamps envs b) cd envs b"
  using assms by (auto simp: server_inv_but_def ahead_but_def future_stamps_def behind_def i64_defs not_le)

lemma stamp_taken:
  assumes "sys_inv F hl cd envs all c" "bk_counter (ss_back c) < i64_max"
  shows "\<exists>m b. run_task hl cd envs (Putting req put (Stamping p (Suc n) e)) (ss_back c) = (Putting req put (Storing p m (Some n)), b) \<and>
    (\<forall>k \<in> stamps (ss_back c) - F. k < m) \<and>
    (\<forall>t \<in> set (ss_tasks c). \<forall>q k nxt. task_writer t = Some (Storing q k nxt) \<longrightarrow> k < m)"
proof -
  obtain m b where m: "take_micros envs (ss_back c) = (m, b)" by force
  then have m_eq: "m = bump (unix_micros (ev_now (envs (bk_tick (ss_back c))))) (bk_counter (ss_back c))"
    by (auto simp: take_micros_def next_micros_def Let_def)
  have ahead: "ahead_but F envs (ss_back c)"
    and flight: "\<And>t q k nxt. t \<in> set (ss_tasks c) \<Longrightarrow> task_writer t = Some (Storing q k nxt) \<Longrightarrow> k \<le> bk_counter (ss_back c)"
    using assms(1) by (auto simp: sys_inv_def server_inv_but_def flight_ok_def)
  note bound = ahead_butD(2) [OF ahead] assms(2)
  have "\<forall>k \<in> stamps (ss_back c) - F. k < m" using ahead_butD(3) [OF ahead] behind_bump [OF _ bound] m_eq by auto
  moreover have "bk_counter (ss_back c) < m" using bump_greater [OF bound] m_eq by simp
  ultimately show ?thesis
    using m flight by (intro exI [of _ m] exI [of _ b]) (fastforce simp: put_task_def writer_result_def)
qed

text \<open>
  C16. However the requests and tasks of a server interleave, with the advertiser, prune transactions and
  cleanup passes between them, and whatever fails: on a database that obeys the schema and whose config
  values are text, as this program leaves it, the tables obey the schema and every config value is valid
  UTF-8 in every state (so \<open>read_all\<close> never stops at one). And until the counter has reached the largest
  \<open>i64\<close>, which only a put with that explicit timestamp or such a clock makes it do and from where it wraps
  around (\<open>explicit_max_overflows\<close>), every stored timestamp is behind the counter or all later readings of
  the clock, and the timestamp that a write without an explicit one takes is newer than every one that
  another task holds and every stored one; except, for both, timestamps that were in the database at the
  start and that some reading of the clock does not pass (\<open>future_entry_not_overwritten\<close>).
\<close>

theorem server_invariant:
  assumes "codec_rust cd" "back_wf b" "values_text b" "bk_counter b = 0"
    and "(server_step hl cd envs cr db)\<^sup>*\<^sup>* (server_new b all) c"
  shows "tables_wf (st_sql (bk_store (ss_back c))) \<and>
    (\<forall>key q d. cfg_entry key (ss_back c) = Some q \<and> e_metadata q = Some d \<longrightarrow> utf8_valid (of_utf8_bytes d)) \<and>
    ((server_step_ok hl cd envs cr db)\<^sup>*\<^sup>* (server_new b all) c \<longrightarrow>
      (\<forall>m \<in> stamps (ss_back c) - future_stamps envs b.
         m \<le> bk_counter (ss_back c) \<or> (\<forall>n \<ge> bk_tick (ss_back c). m < unix_micros (ev_now (envs n)))) \<and>
      (\<forall>req put p n e. Putting req put (Stamping p (Suc n) e) \<in> set (ss_tasks c) \<and> bk_counter (ss_back c) < i64_max \<longrightarrow>
         (\<exists>m b'. run_task hl cd envs (Putting req put (Stamping p (Suc n) e)) (ss_back c) =
              (Putting req put (Storing p m (Some n)), b') \<and>
            (\<forall>k \<in> stamps (ss_back c) - future_stamps envs b. k < m) \<and>
            (\<forall>t \<in> set (ss_tasks c). \<forall>q k nxt. task_writer t = Some (Storing q k nxt) \<longrightarrow> k < m))))"
proof (intro conjI impI)
  have tr: "traced hl cd envs cr db all (server_new b all) c" by (rule traced_run [OF assms(2,5)])
  show "tables_wf (st_sql (bk_store (ss_back c)))" using tracedD(1) [OF tr] by (simp add: back_wf_def)
  have "row_text q" if "cfg_entry key (ss_back c) = Some q" for key q
    using tracedD(4) [OF tr that] assms(1,3)
    by (auto simp: server_new_def values_text_def addr_row_def put_row_def asks_def codec_rust_def)
  then show "\<forall>key q d. cfg_entry key (ss_back c) = Some q \<and> e_metadata q = Some d \<longrightarrow> utf8_valid (of_utf8_bytes d)"
    unfolding row_text_def by (metis option.case(2))
  assume "(server_step_ok hl cd envs cr db)\<^sup>*\<^sup>* (server_new b all) c"
  then have inv: "sys_inv (future_stamps envs b) hl cd envs all c"
    using server.inv_steps server.inv_init [of "server_new b all" all "future_stamps envs b"] server_start_but [OF assms(1-4)] by blast
  then have "ahead_but (future_stamps envs b) envs (ss_back c)" by (simp add: sys_inv_def server_inv_but_def)
  then show "\<forall>m \<in> stamps (ss_back c) - future_stamps envs b.
       m \<le> bk_counter (ss_back c) \<or> (\<forall>n \<ge> bk_tick (ss_back c). m < unix_micros (ev_now (envs n)))"
    by (auto simp: ahead_but_def behind_def)
  show "\<forall>req put p n e. Putting req put (Stamping p (Suc n) e) \<in> set (ss_tasks c) \<and> bk_counter (ss_back c) < i64_max \<longrightarrow>
       (\<exists>m b'. run_task hl cd envs (Putting req put (Stamping p (Suc n) e)) (ss_back c) =
            (Putting req put (Storing p m (Some n)), b') \<and>
          (\<forall>k \<in> stamps (ss_back c) - future_stamps envs b. k < m) \<and>
          (\<forall>t \<in> set (ss_tasks c). \<forall>q k nxt. task_writer t = Some (Storing q k nxt) \<longrightarrow> k < m))"
    using stamp_taken [OF inv] by blast
qed

theorem server_invariant_witness:
  "\<exists>m b. run_task demo_http demo_codec demo_envs (Putting demo_put_http demo_put_req (Stamping (put_args_of demo_put_req) 64 None)) (demo_back 1) =
      (Putting demo_put_http demo_put_req (Storing (put_args_of demo_put_req) m (Some 63)), b) \<and>
    (\<forall>k \<in> stamps (demo_back 1). k < m)"
proof -
  have ok: "demo_srv_step\<^sup>*\<^sup>* (server_new keyed_back []) demo_writing \<and>
      (server_step_ok demo_http demo_codec demo_envs demo_crates demo_db)\<^sup>*\<^sup>* (server_new keyed_back []) demo_writing"
    using demo_steps
    by (intro conjI; intro rtranclp.rtrancl_into_rtrancl [OF rtranclp.rtrancl_into_rtrancl [OF r_into_rtranclp]])
      (auto simp: server_step_ok_def server_new_def keyed_back_def demo_back_def i64_max_def)
  have "future_stamps demo_envs keyed_back = {}"
    using demo_clock by (auto simp: future_stamps_def stamps_def keyed_back_def cfg_row_def)
  moreover have "bk_counter keyed_back = 0" by (simp add: keyed_back_def)
  moreover note server_invariant [OF codec_rust_demo keyed_back_wf this conjunct1 [OF ok], THEN conjunct2, THEN conjunct2,
      THEN mp, OF conjunct2 [OF ok], THEN conjunct2]
  moreover have "bk_counter (demo_back 1) < i64_max" by (simp add: demo_back_def keyed_back_def i64_max_def)
  ultimately show ?thesis by (simp add: eval_nat_numeral)
qed

subsection \<open>Who may write\<close>

text \<open>
  No key, no write: however the tasks of a server interleave, and whatever sqlite, the file system and
  the clock do, a config entry that was not there at the start is the advertisement of a bound address
  or the row of a put that was acknowledged and whose request's token was, at an earlier moment of the run,
  an api key in the store; its key, value, expiry and explicit timestamp are those of the put.
\<close>

lemma every_write_was_authorized:
  assumes "back_wf b" "(server_step hl cd envs cr db)\<^sup>*\<^sup>* (server_new b all) c"
    and "cfg_entry k (ss_back c) = Some row" "cfg_entry k b \<noteq> Some row"
  shows "(\<exists>addr \<in> set all. \<exists>m x. k = addr_key addr \<and> row = cfg_row k m (Some x) []) \<or>
    (\<exists>req put m d. Replied req (resp OK []) \<in> set (ss_tasks c) \<and> asks hl cd req put \<and>
       (server_step hl cd envs cr db)\<^sup>*\<^sup>* (server_new b all) d \<and> (server_step hl cd envs cr db)\<^sup>*\<^sup>* d c \<and>
       request_authorized hl req (ss_back d) \<and> pr_key put = k \<and>
       row = cfg_row k m (pr_expires_at_micros put) (pr_value put) \<and>
       (\<forall>n. pr_modified_at_micros put = Some n \<longrightarrow> m = n))"
proof -
  let ?c0 = "server_new b all :: 'a server_sys"
  have "traced hl cd envs cr db all ?c0 c" by (rule traced_run [OF assms(1,2)])
  from tracedD(4) [OF this assms(3)] show ?thesis
    using assms(4) unfolding addr_row_def put_row_def was_authorized_def by (simp add: server_new_def) blast
qed

lemma every_write_was_authorized_witness:
  "\<exists>c. demo_srv_step\<^sup>*\<^sup>* (server_new keyed_back []) c \<and>
     (\<exists>req d. demo_srv_step\<^sup>*\<^sup>* (server_new keyed_back []) d \<and> demo_srv_step\<^sup>*\<^sup>* d c \<and> request_authorized demo_http req (ss_back d) \<and>
        Replied req (resp OK []) \<in> set (ss_tasks c))"
proof -
  obtain b where reply: "demo_srv_step demo_storing (demo_sys (Replied demo_put_http (resp OK [])) b)"
    and wr: "wrote (put_args_of demo_put_req) 1 ((demo_back 2)\<lparr>bk_counter := 1\<rparr>) b"
    by (rule demo_reply)
  let ?c = "demo_sys (Replied demo_put_http (resp OK [])) b"
  have run: "demo_srv_step\<^sup>*\<^sup>* (server_new keyed_back []) ?c"
    using demo_reaches reply by (rule rtranclp.rtrancl_into_rtrancl)
  have "cfg_entry ''k'' (ss_back ?c) = Some (writer_row (put_args_of demo_put_req) 1)"
    using wrote_entry [OF wr, of "''k''"] demo_back_entry(1) by (simp add: put_args_of_def demo_put_req_def newest_def)
  from every_write_was_authorized [OF keyed_back_wf(1) run this] demo_back_entry(2)
  obtain req d where "Replied req (resp OK []) \<in> set (ss_tasks ?c)" "demo_srv_step\<^sup>*\<^sup>* (server_new keyed_back []) d"
    "demo_srv_step\<^sup>*\<^sup>* d ?c" "request_authorized demo_http req (ss_back d)" by auto
  then show ?thesis using run by blast
qed

subsection \<open>An acknowledged write is read\<close>

text \<open>The row is there, or a newer one of its key.\<close>

definition stays :: "string \<Rightarrow> entry_row \<Rightarrow> back_state \<Rightarrow> bool" where
  "stays k old b \<longleftrightarrow> (\<exists>row. cfg_entry k b = Some row \<and> (row = old \<or> e_modified old < e_modified row))"

lemma stays_wrote:
  assumes "stays k old b" "wrote p m b b'"
  shows "stays k old b'"
proof -
  obtain row where row: "cfg_entry k b = Some row" "row = old \<or> e_modified old < e_modified row"
    using assms(1) by (auto simp: stays_def)
  have "cfg_entry k b' = Some row \<or> (\<exists>q. cfg_entry k b' = Some q \<and> e_modified row < e_modified q)"
    using wrote_entry [OF assms(2), of k] row(1) by (auto simp: newest_def)
  then show ?thesis using row(2) by (fastforce simp: stays_def)
qed

text \<open>Only a prune transaction removes a key.\<close>

definition key_kept :: "string \<Rightarrow> 'b server_sys \<Rightarrow> 'b server_sys \<Rightarrow> bool" where
  "key_kept k c c' \<longleftrightarrow> (cfg_entry k (ss_back c) \<noteq> None \<longrightarrow> cfg_entry k (ss_back c') \<noteq> None)"

lemma stays_step:
  assumes "server_step hl cd envs cr db c c'" "key_kept k c c'" "back_wf (ss_back c) \<and> stays k old (ss_back c)"
  shows "back_wf (ss_back c') \<and> stays k old (ss_back c')"
proof -
  from assms(1) conjunct1 [OF assms(3)] show ?thesis
  proof (cases rule: server_step_cases)
    case (run i t b)
    from run_task_store [OF run(2) conjunct1 [OF assms(3)]] show ?thesis
      using assms(3) run(3) stays_wrote by (auto simp: stays_def cfg_entry_def back_wf_def wrote_def written_def)
  next
    case (background s)
    obtain row where row: "cfg_entry k (ss_back c) = Some row" "row = old \<or> e_modified old < e_modified row"
      using assms(3) by (auto simp: stays_def)
    obtain q where q: "cfg_entry k (ss_back c') = Some q" using assms(2) row(1) by (auto simp: key_kept_def)
    have "cfg_entry k (ss_back c) = Some q"
      using q background(2-4) assms(3) by (auto simp: cfg_entry_def q_entry_Some back_wf_def)
    then have "cfg_entry k (ss_back c') = Some row" using row(1) q by simp
    then show ?thesis using row(2) background(2,3) by (auto simp: stays_def back_wf_def)
  qed (use assms(3) in simp)
qed

lemma stays_steps:
  assumes "(\<lambda>d d'. server_step hl cd envs cr db d d' \<and> key_kept k d d')\<^sup>*\<^sup>* c c'" "back_wf (ss_back c) \<and> stays k old (ss_back c)"
  shows "back_wf (ss_back c') \<and> stays k old (ss_back c')"
  using assms by (induction rule: rtranclp_induct) (auto dest: stays_step)

text \<open>What a client decodes from the reply to a \<open>cfg-get\<close> is the config at that moment.\<close>

lemma get_reply:
  assumes "run_task hl cd envs (Getting req body) b = (Replied req res, b')" "rs_status res = OK"
    and "codec_ok cd" "decode_get_res cd (rs_body res) = Inr (Inr items)" "back_wf b" "listable b"
  shows "set items = {item_of q |q key. cfg_entry key b = Some q}"
proof -
  obtain r b1 where read: "read_all envs b = (r, b1)" by force
  let ?r = "case r of Inr values \<Rightarrow> Inr values | Inl err \<Rightarrow> Inl (err_to_string err)"
  obtain out where out: "encode_get_res cd ?r = Inr out" "rs_body res = out"
    using assms(1,2) read
    by (cases "encode_get_res cd ?r") (auto simp: dispatch_def cfg_get_handler_def cfg_get_handle_def status_defs)
  then have "?r = Inr items" using codec_okD(1) [OF assms(3) out(1)] assms(4) by simp
  then have "r = Inr items" by (cases r) auto
  then show ?thesis using read_all_correct [OF assms(5,6) read] by blast
qed

text \<open>
  C3. An acknowledged put is read: from the moment a put is answered 200, whatever other tasks do and as long as
  no prune removes the key, a \<open>cfg-get\<close> that a client can decode has an item for the key, which is the put's own
  (its value, its expiry, its explicit timestamp if it had one), or a strictly newer one, or, where the put
  came with a timestamp that the stored entry had already, that entry.
\<close>

theorem acknowledged_put_is_read:
  assumes "back_wf b0" "(server_step hl cd envs cr db)\<^sup>*\<^sup>* (server_new b0 all) c"
    and "Putting req put (Storing p m nxt) \<in> set (ss_tasks c)"
    and "run_task hl cd envs (Putting req put (Storing p m nxt)) (ss_back c) = (Replied req res, b)" "rs_status res = OK"
    and "(\<lambda>d d'. server_step hl cd envs cr db d d' \<and> key_kept (pr_key put) d d')\<^sup>*\<^sup>* (c\<lparr>ss_back := b, ss_tasks := ts\<rparr>) d"
    and "run_task hl cd envs (Getting req' body) (ss_back d) = (Replied req' res', b')" "rs_status res' = OK"
    and "codec_ok cd" "listable (ss_back d)" "decode_get_res cd (rs_body res') = Inr (Inr items)"
  shows "(\<forall>n. pr_modified_at_micros put = Some n \<longrightarrow> m = n) \<and>
    (\<exists>item \<in> set items. gi_key item = pr_key put \<and>
       (item = \<lparr>gi_key = pr_key put, gi_value = pr_value put, gi_modified_at_micros = m,
           gi_expires_at_micros = pr_expires_at_micros put\<rparr> \<or>
        m < gi_modified_at_micros item \<or>
        (m = gi_modified_at_micros item \<and> (\<exists>q. cfg_entry (pr_key put) (ss_back c) = Some q \<and> item = item_of q))))"
proof -
  have tr: "traced hl cd envs cr db all (server_new b0 all) c" by (rule traced_run [OF assms(1,2)])
  have wf: "back_wf (ss_back c)" by (rule tracedD(1) [OF tr])
  have p: "p = put_args_of put" "\<And>n. pr_modified_at_micros put = Some n \<Longrightarrow> m = n"
    using tracedD(2) [OF tr assms(3)] by auto
  have wr: "wrote p m (ss_back c) b" and b: "back_wf b"
    using put_acknowledged [OF assms(4,5) wf] by auto
  let ?mine = "cfg_row (pr_key put) m (pr_expires_at_micros put) (pr_value put)"
  have mine: "writer_row p m = ?mine" "pa_key p = pr_key put" using p(1) by (simp_all add: put_args_of_def writer_row_def)
  obtain first where first: "cfg_entry (pr_key put) b = Some first"
    "first = ?mine \<or> cfg_entry (pr_key put) (ss_back c) = Some first \<and> m \<le> e_modified first"
    using wrote_entry [OF wr, of "pr_key put"] mine by (auto simp: newest_def split: option.splits if_splits)
  then have "back_wf (ss_back (c\<lparr>ss_back := b, ss_tasks := ts\<rparr>)) \<and> stays (pr_key put) first (ss_back (c\<lparr>ss_back := b, ss_tasks := ts\<rparr>))"
    using b by (simp add: stays_def)
  then have d: "back_wf (ss_back d) \<and> stays (pr_key put) first (ss_back d)" by (rule stays_steps [OF assms(6)])
  then obtain row where row: "cfg_entry (pr_key put) (ss_back d) = Some row" "row = first \<or> e_modified first < e_modified row"
    by (auto simp: stays_def)
  have item: "item_of row \<in> set items"
    using get_reply [OF assms(7,8,9,11) conjunct1 [OF d] assms(10)] row(1) by blast
  have key: "gi_key (item_of row) = pr_key put"
    using row(1) d by (auto simp: cfg_entry_def back_wf_def q_entry_Some e_pk_def item_of_def)
  have mod: "gi_modified_at_micros (item_of q) = e_modified q" for q by (simp add: item_of_def)
  have "item_of row = item_of ?mine \<or> m < gi_modified_at_micros (item_of row) \<or>
      (m = gi_modified_at_micros (item_of row) \<and> (\<exists>q. cfg_entry (pr_key put) (ss_back c) = Some q \<and> item_of row = item_of q))"
    using row(2) first(2) mod [of row] by (auto simp: order_less_le)
  then show ?thesis using p(2) item key by auto
qed


theorem acknowledged_put_is_read_witness:
  "\<exists>b res items b'. run_task demo_http demo_codec demo_envs (Getting demo_put_http []) b = (Replied demo_put_http res, b') \<and>
     decode_get_res demo_codec (rs_body res) = Inr (Inr items) \<and>
     (\<exists>item \<in> set items. gi_key item = ''k'' \<and> 1 \<le> gi_modified_at_micros item)"
proof -
  obtain b where run: "run_task demo_http demo_codec demo_envs (Putting demo_put_http demo_put_req (Storing (put_args_of demo_put_req) 1 (Some 63)))
      ((demo_back 2)\<lparr>bk_counter := 1\<rparr>) = (Replied demo_put_http (resp OK []), b)"
    and wr: "wrote (put_args_of demo_put_req) 1 ((demo_back 2)\<lparr>bk_counter := 1\<rparr>) b"
    by (rule demo_reply)
  have entry: "cfg_entry k b = (if k = ''k'' then Some (writer_row (put_args_of demo_put_req) 1) else cfg_entry k keyed_back)" for k
    using wrote_entry [OF wr, of k] demo_back_entry(1)
    by (simp add: put_args_of_def demo_put_req_def newest_def) (simp add: cfg_entry_def demo_back_def)
  have wf: "back_wf b" using wr by (simp add: wrote_def written_def)
  have texts: "values_text b"
    using keyed_back_wf(2) by (auto simp: values_text_def entry put_args_of_def demo_put_req_def writer_row_def)
  have list: "listable b"
    using written_length [OF wr [unfolded wrote_def]] keyed_back_wf(1)
    by (simp add: listable_def back_wf_def demo_back_def) (simp add: keyed_back_def i64_max_def)
  have "read_all demo_envs b = (Inr (map item_of (cfg_rows b)), b\<lparr>bk_tick := Suc (bk_tick b)\<rparr>)"
    by (rule read_all_ok [OF wf list texts]) (simp add: ok_env_def del: sql_ok_simp)
  moreover obtain out where out: "encode_get_res demo_codec (Inr (map item_of (cfg_rows b))) = Inr out" using demo_codec_total by blast
  ultimately have get: "run_task demo_http demo_codec demo_envs (Getting demo_put_http []) b =
      (Replied demo_put_http (resp OK out), b\<lparr>bk_tick := Suc (bk_tick b)\<rparr>)"
    by (simp add: dispatch_def cfg_get_handler_def cfg_get_handle_def)
  have decode: "decode_get_res demo_codec (rs_body (resp OK out)) = Inr (Inr (map item_of (cfg_rows b)))"
    using codec_okD(1) [OF codec_ok_demo out] by simp
  let ?d = "demo_storing\<lparr>ss_back := b, ss_tasks := []\<rparr>"
  have "Putting demo_put_http demo_put_req (Storing (put_args_of demo_put_req) 1 (Some 63)) \<in> set (ss_tasks demo_storing)"
    and "run_task demo_http demo_codec demo_envs (Putting demo_put_http demo_put_req (Storing (put_args_of demo_put_req) 1 (Some 63)))
      (ss_back demo_storing) = (Replied demo_put_http (resp OK []), b)"
    and "run_task demo_http demo_codec demo_envs (Getting demo_put_http []) (ss_back ?d) =
      (Replied demo_put_http (resp OK out), b\<lparr>bk_tick := Suc (bk_tick b)\<rparr>)"
    and "listable (ss_back ?d)"
    using run get list by simp_all
  from acknowledged_put_is_read [OF keyed_back_wf(1) demo_reaches this(1,2) status_resp(1) rtranclp.rtrancl_refl
      this(3) status_resp(1) codec_ok_demo this(4) decode]
  have "\<exists>item \<in> set (map item_of (cfg_rows b)). gi_key item = ''k'' \<and> 1 \<le> gi_modified_at_micros item"
    by (elim conjE bexE, intro bexI) (auto simp: demo_put_req_def)
  then show ?thesis using get decode by blast
qed

end
