(* ===== verification/Chan_Conn.thy ===== *)
theory Chan_Conn
  imports Chan
begin

section \<open>The connections of the channel server\<close>

text \<open>
  \<open>serve_connection\<close> and \<open>accept_loop\<close> of \<open>rs/v-m-io-chan/src/lib.rs\<close> as a step relation: every
  accepted connection is a task, which waits for a permit of the shared semaphore for at most
  \<open>CONN_WAIT\<close>, then serves requests with the permit or answers every request with a 503; ending a task
  gives its permit back, and dropping the server aborts every task. A timeout polls the permit
  first, so it fires only where none is free. The semaphore is never closed, so the branch for that is not there. Time is in milliseconds.
\<close>

definition MAX_CONNS :: nat where
  "MAX_CONNS = 2048"

definition CONN_WAIT :: nat where
  "CONN_WAIT = 17"

definition busy_response :: http_response where
  "busy_response = (resp_text SERVICE_UNAVAILABLE ''Service Unavailable'')\<lparr>rs_retry_after := Some ''60''\<rparr>"

datatype conn = Waiting nat | Serving | Refused | Closed

record conn_sys =
  cn_listening :: bool
  cn_now :: nat
  cn_permits :: nat
  cn_conns :: "conn list"

text \<open>What a task does with a request, by its state: the service of \<open>serve_connection\<close>.\<close>

fun conn_service ::
  "'b http_lib \<Rightarrow> 's srv_inner \<Rightarrow> conn \<Rightarrow> 'b http_request \<Rightarrow> 's \<Rightarrow> http_response option \<times> 's" where
  "conn_service hl inner Serving req s = (case handle_request hl inner req s of (res, s') \<Rightarrow> (Some res, s'))"
| "conn_service hl inner Refused req s = (Some busy_response, s)"
| "conn_service hl inner (Waiting t) req s = (None, s)"
| "conn_service hl inner Closed req s = (None, s)"

inductive conn_step :: "conn_sys \<Rightarrow> conn_sys \<Rightarrow> bool" where
  tick: "conn_step c (c\<lparr>cn_now := Suc (cn_now c)\<rparr>)"
| accept: "cn_listening c \<Longrightarrow> conn_step c (c\<lparr>cn_conns := cn_conns c @ [Waiting (cn_now c)]\<rparr>)"
| acquire: "i < length (cn_conns c) \<Longrightarrow> cn_conns c ! i = Waiting t \<Longrightarrow> 0 < cn_permits c \<Longrightarrow>
    conn_step c (c\<lparr>cn_permits := cn_permits c - 1, cn_conns := (cn_conns c)[i := Serving]\<rparr>)"
| timeout: "i < length (cn_conns c) \<Longrightarrow> cn_conns c ! i = Waiting t \<Longrightarrow> t + CONN_WAIT \<le> cn_now c \<Longrightarrow>
    cn_permits c = 0 \<Longrightarrow> conn_step c (c\<lparr>cn_conns := (cn_conns c)[i := Refused]\<rparr>)"
| served: "i < length (cn_conns c) \<Longrightarrow> cn_conns c ! i = Serving \<Longrightarrow>
    conn_step c (c\<lparr>cn_permits := Suc (cn_permits c), cn_conns := (cn_conns c)[i := Closed]\<rparr>)"
| refused_end: "i < length (cn_conns c) \<Longrightarrow> cn_conns c ! i = Refused \<Longrightarrow>
    conn_step c (c\<lparr>cn_conns := (cn_conns c)[i := Closed]\<rparr>)"
| dropped: "conn_step c (c\<lparr>cn_listening := False,
      cn_permits := cn_permits c + count_list (cn_conns c) Serving,
      cn_conns := map (\<lambda>_. Closed) (cn_conns c)\<rparr>)"

definition conn_init :: "conn_sys \<Rightarrow> bool" where
  "conn_init c \<longleftrightarrow> c = \<lparr>cn_listening = True, cn_now = 0, cn_permits = MAX_CONNS, cn_conns = []\<rparr>"

subsection \<open>The permits\<close>

definition serving :: "conn_sys \<Rightarrow> nat" where
  "serving c = count_list (cn_conns c) Serving"

definition permits_inv :: "conn_sys \<Rightarrow> bool" where
  "permits_inv c \<longleftrightarrow> cn_permits c + serving c = MAX_CONNS \<and>
     (\<not> cn_listening c \<longrightarrow> set (cn_conns c) \<subseteq> {Closed})"

lemma count_list_nth_pos: "i < length xs \<Longrightarrow> 0 < count_list xs (xs ! i)"
  by (metis count_list_0_iff gr0I nth_mem)

lemma count_list_update_add:
  "i < length xs \<Longrightarrow> count_list (xs[i := y]) x + (if xs ! i = x then 1 else 0) =
     count_list xs x + (if y = x then 1 else 0)"
proof (induction xs arbitrary: i)
  case (Cons a xs)
  show ?case
  proof (cases i)
    case (Suc k)
    with Cons have "count_list (xs[k := y]) x + (if xs ! k = x then 1 else 0) =
        count_list xs x + (if y = x then 1 else 0)" by simp
    with Suc show ?thesis by (cases "y = x"; cases "xs ! k = x") simp_all
  qed simp
qed simp

lemma count_list_update:
  "i < length xs \<Longrightarrow> count_list (xs[i := y]) x =
     count_list xs x - (if xs ! i = x then 1 else 0) + (if y = x then 1 else 0)"
  using count_list_update_add [of i xs y x] count_list_nth_pos [of i xs] by (auto split: if_splits)

lemma not_listening_nth:
  "permits_inv c \<Longrightarrow> i < length (cn_conns c) \<Longrightarrow> cn_conns c ! i \<noteq> Closed \<Longrightarrow> cn_listening c"
  by (metis nth_mem permits_inv_def singletonD subsetD)

lemma permits_inv_step:
  assumes "conn_step c d" "permits_inv c"
  shows "permits_inv d"
  using assms(1)
proof cases
  case (acquire i t)
  then have "cn_listening c" using not_listening_nth [OF assms(2)] by simp
  then show ?thesis using acquire assms(2) by (simp add: permits_inv_def serving_def count_list_update)
next
  case (timeout i t)
  then have "cn_listening c" using not_listening_nth [OF assms(2)] by simp
  then show ?thesis using timeout assms(2) by (simp add: permits_inv_def serving_def count_list_update)
next
  case (served i)
  then have "cn_listening c" "0 < serving c"
    using not_listening_nth [OF assms(2)] count_list_nth_pos [of i "cn_conns c"] by (simp_all add: serving_def)
  then show ?thesis using served assms(2) by (simp add: permits_inv_def serving_def count_list_update)
next
  case (refused_end i)
  then have "cn_listening c" using not_listening_nth [OF assms(2)] by simp
  then show ?thesis using refused_end assms(2) by (simp add: permits_inv_def serving_def count_list_update)
next
  case dropped
  have "count_list (map (\<lambda>_. Closed) xs) Serving = 0" for xs :: "conn list" by (induction xs) simp_all
  then show ?thesis using dropped assms(2) by (auto simp: permits_inv_def serving_def)
qed (use assms(2) in \<open>auto simp: permits_inv_def serving_def\<close>)

interpretation conns: inductive_invariant conn_init conn_step permits_inv
proof unfold_locales
  show "conn_init c \<Longrightarrow> permits_inv c" for c
    by (simp add: conn_init_def permits_inv_def serving_def)
  show "conn_step c d \<Longrightarrow> permits_inv c \<Longrightarrow> permits_inv d" for c d
    by (rule permits_inv_step)
qed

text \<open>A connection waits since some time in the past.\<close>

definition since_inv :: "conn_sys \<Rightarrow> bool" where
  "since_inv c \<longleftrightarrow> (\<forall>t. Waiting t \<in> set (cn_conns c) \<longrightarrow> t \<le> cn_now c)"

interpretation since: inductive_invariant conn_init conn_step since_inv
proof unfold_locales
  show "conn_init c \<Longrightarrow> since_inv c" for c
    by (simp add: conn_init_def since_inv_def)
  show "since_inv d" if "conn_step c d" "since_inv c" for c d
    using that by cases (auto simp: since_inv_def le_SucI dest!: set_update_subset_insert [THEN subsetD])
qed

lemma waiting_since:
  assumes "reachable conn_init conn_step c" "i < length (cn_conns c)" "cn_conns c ! i = Waiting t"
  shows "t \<le> cn_now c"
proof -
  have "Waiting t \<in> set (cn_conns c)" using assms(2,3) by (metis nth_mem)
  then show ?thesis using since.inv_reachable [OF assms(1)] by (simp add: since_inv_def)
qed

lemma tick_steps: "conn_step\<^sup>*\<^sup>* c (c\<lparr>cn_now := cn_now c + n\<rparr>)"
proof (induction n)
  case (Suc n)
  then show ?case
    using conn_step.tick [of "c\<lparr>cn_now := cn_now c + n\<rparr>"] by (simp add: rtranclp.rtrancl_into_rtrancl)
qed simp

subsection \<open>Properties\<close>

text \<open>
  C26. The connection limit: in every reachable state the free permits and the connections being
  served are together 2048, so never more are served at once; a connection is turned into one that
  answers 503 (with \<open>Retry-After: 60\<close>, without authorization, and without touching any state) only
  after waiting 17 ms with all 2048 permits in use; and once the server was dropped, no connection
  is open.
\<close>

theorem connection_limit:
  assumes "reachable conn_init conn_step c"
  shows "cn_permits c + count_list (cn_conns c) Serving = MAX_CONNS \<and>
    (\<not> cn_listening c \<longrightarrow> set (cn_conns c) \<subseteq> {Closed}) \<and>
    (\<forall>d i t. conn_step c d \<and> i < length (cn_conns c) \<and> cn_conns c ! i = Waiting t \<and> cn_conns d ! i = Refused \<longrightarrow>
       count_list (cn_conns c) Serving = MAX_CONNS \<and> t + CONN_WAIT \<le> cn_now c) \<and>
    (\<forall>req s. conn_service hl inner Refused req s = (Some busy_response, s))"
proof -
  have inv: "permits_inv c" by (rule conns.inv_reachable [OF assms])
  have "cn_permits c = 0 \<and> t + CONN_WAIT \<le> cn_now c"
    if "conn_step c d" "i < length (cn_conns c)" "cn_conns c ! i = Waiting t" "cn_conns d ! i = Refused" for d i t
    using that by cases (auto simp: nth_append nth_list_update split: if_splits)
  then show ?thesis using inv by (auto simp: permits_inv_def serving_def)
qed

definition one_conn :: conn_sys where
  "one_conn = \<lparr>cn_listening = True, cn_now = 0, cn_permits = 2047, cn_conns = [Serving]\<rparr>"

lemma one_conn_reachable: "reachable conn_init conn_step one_conn"
proof -
  let ?c0 = "\<lparr>cn_listening = True, cn_now = 0, cn_permits = MAX_CONNS, cn_conns = []\<rparr>"
  let ?c1 = "?c0\<lparr>cn_conns := [Waiting 0]\<rparr>"
  have "reachable conn_init conn_step ?c1"
    using reach_step [OF reach_init, of conn_init ?c0 conn_step ?c1] conn_step.accept [of ?c0]
    by (simp add: conn_init_def)
  then show ?thesis
    using reach_step [of conn_init conn_step ?c1 one_conn] conn_step.acquire [of 0 ?c1 0]
    by (simp add: MAX_CONNS_def one_conn_def)
qed

theorem connection_limit_witness:
  "cn_permits one_conn + count_list (cn_conns one_conn) Serving = 2048"
  using connection_limit [OF one_conn_reachable] by (simp add: MAX_CONNS_def)

text \<open>
  No connection waits for ever: from every reachable state a waiting connection can go on without
  any other connection moving, and within \<open>CONN_WAIT\<close> it is either served or refused.
\<close>

lemma waiting_decided:
  assumes "reachable conn_init conn_step c" "i < length (cn_conns c)" "cn_conns c ! i = Waiting t"
  shows "\<exists>d. conn_step\<^sup>*\<^sup>* c d \<and> cn_now d \<le> cn_now c + CONN_WAIT \<and>
    cn_conns d = (cn_conns c)[i := (if cn_permits c = 0 then Refused else Serving)] \<and>
    (\<forall>k < length (cn_conns c). k \<noteq> i \<longrightarrow> cn_conns d ! k = cn_conns c ! k)"
proof (cases "cn_permits c = 0")
  case True
  let ?c1 = "c\<lparr>cn_now := cn_now c + CONN_WAIT\<rparr>"
  have born: "t \<le> cn_now c" using assms by (rule waiting_since)
  then have "conn_step ?c1 (?c1\<lparr>cn_conns := (cn_conns c)[i := Refused]\<rparr>)"
    using conn_step.timeout [of i ?c1 t] True assms(2,3) by simp
  with tick_steps [of c CONN_WAIT] have "conn_step\<^sup>*\<^sup>* c (?c1\<lparr>cn_conns := (cn_conns c)[i := Refused]\<rparr>)"
    by (rule rtranclp.rtrancl_into_rtrancl)
  then show ?thesis using True by (intro exI conjI) (assumption, simp_all)
next
  case False
  then show ?thesis using conn_step.acquire [OF assms(2,3)] by (intro exI conjI) (rule r_into_rtranclp, auto)
qed

lemma waiting_decided_witness:
  "\<exists>c d. reachable conn_init conn_step c \<and> conn_step\<^sup>*\<^sup>* c d \<and> cn_conns d = [Serving, Serving]"
proof -
  let ?c = "one_conn\<lparr>cn_conns := [Serving, Waiting 0]\<rparr>"
  have reach: "reachable conn_init conn_step ?c"
    using reach_step [OF one_conn_reachable, of ?c] conn_step.accept [of one_conn] by (simp add: one_conn_def)
  from waiting_decided [OF this, of 1 0] obtain d where d: "conn_step\<^sup>*\<^sup>* ?c d" "cn_conns d = [Serving, Serving]"
    by (auto simp: one_conn_def)
  with reach show ?thesis by blast
qed

end
