(* ===== verification/Host.thy ===== *)
theory Host
  imports Server_Props Chan_Conn
begin

section \<open>A server behind its connections, up to its end\<close>

text \<open>
  The connections of \<open>Chan_Conn\<close> and the tasks of \<open>Server_Tasks\<close> together. A request comes in over a connection
  that is being served, and its task lives as long as the connection is: when the connection ends, or the
  server is dropped, the task is dropped at the await it is at. That is http/1, where a request is handled inside
  its connection's task; over http/2 the executor given to hyper runs the streams, which is outside this
  model. A call of sqlite that was started by then is
  not: it runs in a thread of its own (\<open>spawn_blocking\<close> in \<open>rs/v-m-io-db/src/sql.rs\<close>), so a write can still reach
  the tables after its task is gone. The host refines both machines, so what they promise holds here.
\<close>

subsection \<open>The machine\<close>

text \<open>
  \<open>ho_owner\<close> has the connection of every task, none for the server's own task. \<open>ho_pruning\<close> says that a prune
  transaction was started and has not ended.
\<close>

record 'b host =
  ho_conns :: conn_sys
  ho_srv :: "'b server_sys"
  ho_owner :: "nat option list"
  ho_pruning :: bool

definition serves :: "conn_sys \<Rightarrow> nat \<Rightarrow> bool" where
  "serves c k \<longleftrightarrow> k < length (cn_conns c) \<and> cn_conns c ! k = Serving"

text \<open>A task runs while its connection is served; the server's own one while the server is there.\<close>

definition alive :: "'b host \<Rightarrow> nat \<Rightarrow> bool" where
  "alive c i \<longleftrightarrow> (case ho_owner c ! i of
      None \<Rightarrow> cn_listening (ho_conns c)
    | Some k \<Rightarrow> serves (ho_conns c) k)"

text \<open>A task that waits for the upsert it has started.\<close>

definition in_upsert :: "'b task \<Rightarrow> bool" where
  "in_upsert t \<longleftrightarrow> (case task_writer t of Some (Storing p m nxt) \<Rightarrow> True | _ \<Rightarrow> False)"

text \<open>
  The reply of a task that is no longer alive goes nowhere. The two kinds of work on files may also go on
  after the end: file system calls run in threads of their own too.
\<close>

inductive host_step ::
  "'b http_lib \<Rightarrow> codec \<Rightarrow> envs \<Rightarrow> crates \<Rightarrow> vm_io_db \<Rightarrow> 'b host \<Rightarrow> 'b host \<Rightarrow> bool"
  for hl :: "'b http_lib" and cd :: codec and envs :: envs and cr :: crates and db :: vm_io_db where
  connection: "conn_step (ho_conns c) d \<Longrightarrow> host_step hl cd envs cr db c (c\<lparr>ho_conns := d\<rparr>)"
| request: "serves (ho_conns c) k \<Longrightarrow>
    host_step hl cd envs cr db c
      (c\<lparr>ho_srv := (ho_srv c)\<lparr>ss_tasks := ss_tasks (ho_srv c) @ [Arrived req]\<rparr>, ho_owner := ho_owner c @ [Some k]\<rparr>)"
| run: "i < length (ss_tasks (ho_srv c)) \<Longrightarrow> alive c i \<or> in_upsert (ss_tasks (ho_srv c) ! i) \<Longrightarrow>
    run_task hl cd envs (ss_tasks (ho_srv c) ! i) (ss_back (ho_srv c)) = (t, b) \<Longrightarrow>
    host_step hl cd envs cr db c
      (c\<lparr>ho_srv := (ho_srv c)\<lparr>ss_back := b, ss_tasks := (ss_tasks (ho_srv c))[i := t]\<rparr>\<rparr>)"
| prune_begin: "cn_listening (ho_conns c) \<Longrightarrow> ss_doomed (ho_srv c) = [] \<Longrightarrow>
    host_step hl cd envs cr db c (c\<lparr>ho_pruning := True\<rparr>)"
| prune: "ho_pruning c \<Longrightarrow> ss_doomed (ho_srv c) = [] \<Longrightarrow> micros_since_epoch (ev_now ev) = Some now \<Longrightarrow>
    host_step hl cd envs cr db c (c\<lparr>ho_srv := prune_tx ev now (ho_srv c), ho_pruning := False\<rparr>)"
| unlink: "host_step hl cd envs cr db c (c\<lparr>ho_srv := unlink_next cr db ev (ho_srv c)\<rparr>)"
| collect: "host_step hl cd envs cr db c (c\<lparr>ho_srv := collect_files cr db ev (ho_srv c)\<rparr>)"

inductive_cases host_stepE: "host_step hl cd envs cr db c c'"

definition host_new :: "back_state \<Rightarrow> socket_addr list \<Rightarrow> 'b host" where
  "host_new b addrs =
     \<lparr>ho_conns = \<lparr>cn_listening = True, cn_now = 0, cn_permits = MAX_CONNS, cn_conns = []\<rparr>,
      ho_srv = server_new b addrs, ho_owner = [None], ho_pruning = False\<rparr>"

subsection \<open>The host refines its parts\<close>

text \<open>A machine that also may stand still.\<close>

definition or_same :: "('s \<Rightarrow> 's \<Rightarrow> bool) \<Rightarrow> 's \<Rightarrow> 's \<Rightarrow> bool" where
  "or_same step s t \<longleftrightarrow> s = t \<or> step s t"

lemma or_same_steps: "(or_same step)\<^sup>*\<^sup>* s t \<Longrightarrow> step\<^sup>*\<^sup>* s t"
  by (induction rule: rtranclp_induct) (auto simp: or_same_def intro: rtranclp.rtrancl_into_rtrancl)

lemma host_server_step:
  assumes "host_step hl cd envs cr db c c'"
  shows "or_same (server_step hl cd envs cr db) (ho_srv c) (ho_srv c')"
  using assms by cases (auto simp: or_same_def intro: server_step.intros)

lemma host_conn_step:
  assumes "host_step hl cd envs cr db c c'"
  shows "or_same conn_step (ho_conns c) (ho_conns c')"
  using assms by cases (auto simp: or_same_def)

interpretation host_server: forward_simulation "\<lambda>a c. a = ho_srv c"
  "or_same (server_step hl cd envs cr db)" "host_step hl cd envs cr db"
  for hl :: "'b http_lib" and cd envs cr db
proof unfold_locales
  show "\<exists>a'. or_same (server_step hl cd envs cr db) a a' \<and> a' = ho_srv c'"
    if "a = ho_srv c" "host_step hl cd envs cr db c c'" for a and c c' :: "'b host"
    using host_server_step [OF that(2)] that(1) by simp
qed

interpretation host_conns: forward_simulation "\<lambda>a c. a = ho_conns c" "or_same conn_step" "host_step hl cd envs cr db"
  for hl :: "'b http_lib" and cd envs cr db
proof unfold_locales
  show "\<exists>a'. or_same conn_step a a' \<and> a' = ho_conns c'"
    if "a = ho_conns c" "host_step hl cd envs cr db c c'" for a and c c' :: "'b host"
    using host_conn_step [OF that(2)] that(1) by simp
qed

lemma host_server_steps:
  assumes "(host_step hl cd envs cr db)\<^sup>*\<^sup>* c c'"
  shows "(server_step hl cd envs cr db)\<^sup>*\<^sup>* (ho_srv c) (ho_srv c')"
proof -
  have "\<exists>a'. (or_same (server_step hl cd envs cr db))\<^sup>*\<^sup>* (ho_srv c) a' \<and> a' = ho_srv c'"
    by (rule host_server.sim_steps [OF assms refl])
  then show ?thesis by (elim exE conjE) (simp add: or_same_steps)
qed

lemma host_conn_steps:
  assumes "(host_step hl cd envs cr db)\<^sup>*\<^sup>* c c'"
  shows "conn_step\<^sup>*\<^sup>* (ho_conns c) (ho_conns c')"
proof -
  have "\<exists>a'. (or_same conn_step)\<^sup>*\<^sup>* (ho_conns c) a' \<and> a' = ho_conns c'"
    by (rule host_conns.sim_steps [OF assms refl])
  then show ?thesis by (elim exE conjE) (simp add: or_same_steps)
qed

subsection \<open>Connections and their requests\<close>

text \<open>
  Every task but the first belongs to a connection that was served, and that either still is or has ended.
\<close>

definition host_inv :: "'b host \<Rightarrow> bool" where
  "host_inv c \<longleftrightarrow> permits_inv (ho_conns c) \<and> length (ho_owner c) = length (ss_tasks (ho_srv c)) \<and>
     (\<exists>ks. ho_owner c = None # map Some ks) \<and>
     (\<forall>k. Some k \<in> set (ho_owner c) \<longrightarrow> k < length (cn_conns (ho_conns c)) \<and> cn_conns (ho_conns c) ! k \<in> {Serving, Closed})"

lemma conn_step_served:
  assumes "conn_step c d" "k < length (cn_conns c)" "cn_conns c ! k \<in> {Serving, Closed}"
  shows "k < length (cn_conns d) \<and> cn_conns d ! k \<in> {Serving, Closed}"
  using assms(1) by cases (use assms(2,3) in \<open>auto simp: nth_append nth_list_update\<close>)

lemma conn_step_listening: "conn_step c d \<Longrightarrow> \<not> cn_listening c \<Longrightarrow> \<not> cn_listening d"
  by (induction rule: conn_step.induct) simp_all

lemma prune_tx_tasks [simp]: "ss_tasks (prune_tx ev now c) = ss_tasks c"
  by (simp add: prune_tx_def split: prod.split)

interpretation hosts: inductive_invariant "\<lambda>c. \<exists>b. c = host_new b addrs" "host_step hl cd envs cr db" host_inv
  for hl :: "'b http_lib" and cd envs cr db addrs
proof unfold_locales
  fix c c' :: "'b host"
  show "host_inv c" if "\<exists>b. c = host_new b addrs"
    using that by (auto simp: host_inv_def host_new_def server_new_def permits_inv_def serving_def)
  assume step: "host_step hl cd envs cr db c c'" and inv: "host_inv c"
  from step show "host_inv c'"
  proof cases
    case (connection d)
    then show ?thesis
      using inv permits_inv_step [OF connection(2)] conn_step_served [OF connection(2)] by (simp add: host_inv_def)
  next
    case (request k req)
    have "\<exists>ks. ho_owner c = None # map Some ks" using inv unfolding host_inv_def by blast
    then obtain ks where "ho_owner c = None # map Some ks" ..
    then have "\<exists>ks. ho_owner c' = None # map Some ks" using request(1) by (intro exI [of _ "ks @ [k]"]) simp
    moreover have "\<forall>j. Some j \<in> set (ho_owner c') \<longrightarrow>
        j < length (cn_conns (ho_conns c')) \<and> cn_conns (ho_conns c') ! j \<in> {Serving, Closed}"
      using request inv unfolding host_inv_def serves_def by simp
    ultimately show ?thesis using request(1) inv unfolding host_inv_def by simp
  qed (use inv in \<open>simp_all add: host_inv_def\<close>)
qed

lemma host_inv_run:
  "(host_step hl cd envs cr db)\<^sup>*\<^sup>* (host_new b addrs) c \<Longrightarrow> host_inv c"
  using hosts.inv_steps hosts.inv_init by blast

lemma card_serves: "card {k. serves c k} = count_list (cn_conns c) Serving"
  by (simp add: serves_def count_list_eq_length_filter length_filter_conv_card conj_commute eq_commute [of Serving])

text \<open>
  C5. The limits of the connections are limits of the work: at most 2048 connections have a request that can
  make progress; every request belongs to a connection that got a permit, so one that was answered 503 has
  never reached the authorization callback or a handler; and a task whose connection has ended does no
  further step, but for the end of an upsert it had started.
\<close>

theorem requests_within_limits:
  assumes "(host_step hl cd envs cr db)\<^sup>*\<^sup>* (host_new b addrs) c"
  shows "card {k. \<exists>i < length (ss_tasks (ho_srv c)). ho_owner c ! i = Some k \<and> alive c i} \<le> MAX_CONNS \<and>
    (\<forall>i < length (ss_tasks (ho_srv c)). \<forall>k. ho_owner c ! i = Some k \<longrightarrow>
       k < length (cn_conns (ho_conns c)) \<and> cn_conns (ho_conns c) ! k \<in> {Serving, Closed}) \<and>
    (\<forall>c' i. host_step hl cd envs cr db c c' \<and> i < length (ss_tasks (ho_srv c)) \<and>
       ss_tasks (ho_srv c') ! i \<noteq> ss_tasks (ho_srv c) ! i \<longrightarrow> alive c i \<or> in_upsert (ss_tasks (ho_srv c) ! i))"
proof (intro conjI allI impI)
  have inv: "host_inv c" by (rule host_inv_run [OF assms])
  let ?S = "{k. \<exists>i < length (ss_tasks (ho_srv c)). ho_owner c ! i = Some k \<and> alive c i}"
  have "?S \<subseteq> {k. serves (ho_conns c) k}" by (auto simp: alive_def)
  moreover have "finite {k. serves (ho_conns c) k}" by (simp add: serves_def)
  ultimately have "card ?S \<le> card {k. serves (ho_conns c) k}" by (rule card_mono [rotated])
  also have "\<dots> \<le> MAX_CONNS" using inv by (simp add: card_serves host_inv_def permits_inv_def serving_def)
  finally show "card ?S \<le> MAX_CONNS" .
  fix i k
  assume "i < length (ss_tasks (ho_srv c))" "ho_owner c ! i = Some k"
  then have "Some k \<in> set (ho_owner c)" using inv by (metis host_inv_def nth_mem)
  then show "k < length (cn_conns (ho_conns c))" "cn_conns (ho_conns c) ! k \<in> {Serving, Closed}"
    using inv by (simp_all add: host_inv_def)
next
  fix c' i
  assume h: "host_step hl cd envs cr db c c' \<and> i < length (ss_tasks (ho_srv c)) \<and>
       ss_tasks (ho_srv c') ! i \<noteq> ss_tasks (ho_srv c) ! i"
  from conjunct1 [OF h] show "alive c i \<or> in_upsert (ss_tasks (ho_srv c) ! i)"
  proof cases
    case (run j t b)
    then have "j = i" using h by (auto simp: nth_list_update split: if_splits)
    then show ?thesis using run(3) by simp
  qed (use h in \<open>auto simp: nth_append\<close>)
qed

subsection \<open>The end\<close>

text \<open>What is still under way when the server has been dropped: upserts, and a prune transaction.\<close>

definition under_way :: "'b host \<Rightarrow> nat" where
  "under_way c = length (filter in_upsert (ss_tasks (ho_srv c))) + (if ho_pruning c then 1 else 0)"

lemma length_filter_update_less:
  "i < length xs \<Longrightarrow> P (xs ! i) \<Longrightarrow> \<not> P y \<Longrightarrow> length (filter P (xs[i := y])) < length (filter P xs)"
proof (induction xs arbitrary: i)
  case (Cons x xs)
  then show ?case by (cases i) simp_all
qed simp

lemma upsert_ends:
  assumes "in_upsert t" "run_task hl cd envs t b = (t', b')"
  shows "\<not> in_upsert t'"
proof -
  obtain p m nxt where w: "task_writer t = Some (Storing p m nxt)"
    using assms(1) by (auto simp: in_upsert_def split: option.splits writer.splits)
  obtain w1 b1 where step: "writer_step envs (Storing p m nxt) b = (w1, b1)" by force
  then have "\<And>q k x. w1 \<noteq> Storing q k x" by (auto split: prod.splits sum.splits option.splits)
  moreover have "t' = (case t of Putting req put w \<Rightarrow> put_task req put w1 | Announcing addrs w rest x \<Rightarrow> announce_task addrs rest x w1)"
    using w step assms(2) by (cases t) auto
  ultimately show ?thesis
    using w by (cases t) (auto simp: in_upsert_def put_task_def announce_task_def split: option.splits sum.splits writer.splits)
qed

lemma stopped_not_alive:
  assumes "host_inv c" "\<not> cn_listening (ho_conns c)" "i < length (ss_tasks (ho_srv c))"
  shows "\<not> alive c i"
proof (cases "ho_owner c ! i")
  case None
  then show ?thesis using assms(2) by (simp add: alive_def)
next
  case (Some k)
  have "set (cn_conns (ho_conns c)) \<subseteq> {Closed}" using assms(1,2) by (simp add: host_inv_def permits_inv_def)
  then have "\<not> serves (ho_conns c) k" by (auto simp: serves_def dest: nth_mem)
  then show ?thesis using Some by (simp add: alive_def)
qed

text \<open>A step after the end: no new request or write starts, and a change of the tables ends one of those under way.\<close>

lemma stopped_step:
  assumes step: "host_step hl cd envs cr db c c'" and inv: "host_inv c" and stop: "\<not> cn_listening (ho_conns c)"
  shows "\<not> cn_listening (ho_conns c')"
    and "length (ss_tasks (ho_srv c')) = length (ss_tasks (ho_srv c))"
    and "t \<in> set (ss_tasks (ho_srv c')) \<Longrightarrow> in_upsert t \<Longrightarrow> t \<in> set (ss_tasks (ho_srv c))"
    and "under_way c' + (if st_sql (bk_store (ss_back (ho_srv c'))) = st_sql (bk_store (ss_back (ho_srv c))) then 0 else 1) \<le> under_way c"
proof -
  have closed: "\<not> serves (ho_conns c) k" for k
    using inv stop by (auto simp: host_inv_def permits_inv_def serves_def dest: nth_mem)
  have "\<not> cn_listening (ho_conns c') \<and> length (ss_tasks (ho_srv c')) = length (ss_tasks (ho_srv c)) \<and>
      (\<forall>t. t \<in> set (ss_tasks (ho_srv c')) \<and> in_upsert t \<longrightarrow> t \<in> set (ss_tasks (ho_srv c))) \<and>
      under_way c' + (if st_sql (bk_store (ss_back (ho_srv c'))) = st_sql (bk_store (ss_back (ho_srv c))) then 0 else 1) \<le> under_way c"
    using step
  proof cases
    case (connection d)
    then show ?thesis using conn_step_listening [OF connection(2) stop] by (simp add: under_way_def)
  next
    case (request k req)
    then show ?thesis using closed by simp
  next
    case (run i t b)
    then have was: "in_upsert (ss_tasks (ho_srv c) ! i)" using stopped_not_alive [OF inv stop] by blast
    have ended: "\<not> in_upsert t" by (rule upsert_ends [OF was run(4)])
    have "u \<in> set (ss_tasks (ho_srv c))" if "u \<in> set ((ss_tasks (ho_srv c))[i := t])" "in_upsert u" for u
      using that ended set_update_subset_insert [of "ss_tasks (ho_srv c)" i t] by auto
    then show ?thesis
      using run(1) stop length_filter_update_less [OF run(2), of in_upsert t] was ended by (auto simp: under_way_def)
  next
    case prune_begin
    then show ?thesis using stop by simp
  next
    case (prune ev now)
    then show ?thesis using stop by (simp add: under_way_def)
  next
    case (unlink ev)
    then show ?thesis using stop by (simp add: under_way_def)
  next
    case (collect ev)
    then show ?thesis using stop by (simp add: under_way_def)
  qed
  then show "\<not> cn_listening (ho_conns c')" "length (ss_tasks (ho_srv c')) = length (ss_tasks (ho_srv c))"
    "t \<in> set (ss_tasks (ho_srv c')) \<Longrightarrow> in_upsert t \<Longrightarrow> t \<in> set (ss_tasks (ho_srv c))"
    "under_way c' + (if st_sql (bk_store (ss_back (ho_srv c'))) = st_sql (bk_store (ss_back (ho_srv c))) then 0 else 1) \<le> under_way c"
    by blast+
qed


text \<open>Runs with the number of steps that changed the tables.\<close>

definition tables_of :: "'b host \<Rightarrow> tables" where
  "tables_of c = st_sql (bk_store (ss_back (ho_srv c)))"

definition counted_step ::
  "'b http_lib \<Rightarrow> codec \<Rightarrow> envs \<Rightarrow> crates \<Rightarrow> vm_io_db \<Rightarrow> nat \<times> 'b host \<Rightarrow> nat \<times> 'b host \<Rightarrow> bool" where
  "counted_step hl cd envs cr db x y \<longleftrightarrow> host_step hl cd envs cr db (snd x) (snd y) \<and>
     fst y = fst x + (if tables_of (snd y) = tables_of (snd x) then 0 else 1)"

text \<open>What a run after the end keeps: \<open>c\<close> is the state it starts in.\<close>

definition settling :: "'b host \<Rightarrow> nat \<Rightarrow> 'b host \<Rightarrow> bool" where
  "settling c n d \<longleftrightarrow> host_inv d \<and> \<not> cn_listening (ho_conns d) \<and> back_wf (ss_back (ho_srv d)) \<and>
     length (ss_tasks (ho_srv d)) = length (ss_tasks (ho_srv c)) \<and> n + under_way d \<le> under_way c \<and>
     (\<forall>t \<in> set (ss_tasks (ho_srv d)). in_upsert t \<longrightarrow> t \<in> set (ss_tasks (ho_srv c))) \<and>
     (\<forall>k row. cfg_entry k (ss_back (ho_srv d)) = Some row \<longrightarrow> cfg_entry k (ss_back (ho_srv c)) = Some row \<or>
        (\<exists>t \<in> set (ss_tasks (ho_srv c)). \<exists>p m nxt. task_writer t = Some (Storing p m nxt) \<and> k = pa_key p \<and> row = writer_row p m))"

lemma settling_rows:
  assumes st: "settling c n d" and step: "host_step hl cd envs cr db d e"
  shows "back_wf (ss_back (ho_srv e)) \<and>
    (\<forall>k row. cfg_entry k (ss_back (ho_srv e)) = Some row \<longrightarrow> cfg_entry k (ss_back (ho_srv d)) = Some row \<or>
       (\<exists>t \<in> set (ss_tasks (ho_srv d)). \<exists>p m nxt. in_upsert t \<and> task_writer t = Some (Storing p m nxt) \<and> k = pa_key p \<and> row = writer_row p m))"
proof -
  have wf: "back_wf (ss_back (ho_srv d))" using st by (simp add: settling_def)
  from host_server_step [OF step] show ?thesis
    unfolding or_same_def
  proof
    assume "ho_srv d = ho_srv e"
    then show ?thesis using wf by simp
  next
    assume "server_step hl cd envs cr db (ho_srv d) (ho_srv e)"
    from this wf show ?thesis
    proof (cases rule: server_step_cases)
      case (run i t b)
      let ?t = "ss_tasks (ho_srv d) ! i"
      from run_task_store [OF run(2) wf] show ?thesis
      proof (elim disjE exE conjE)
        assume "bk_store b = bk_store (ss_back (ho_srv d))"
        then show ?thesis using wf run(3) by (simp add: back_wf_def cfg_entry_def)
      next
        fix p m
        assume stored: "stored_by p m ?t t" and wr: "wrote p m (ss_back (ho_srv d)) b"
        obtain nxt where w: "task_writer ?t = Some (Storing p m nxt)" using stored by (auto simp: stored_by_def)
        have mine: "?t \<in> set (ss_tasks (ho_srv d)) \<and> in_upsert ?t" using w run(1) by (simp add: in_upsert_def)
        have "cfg_entry k (ss_back (ho_srv d)) = Some row \<or> k = pa_key p \<and> row = writer_row p m"
          if "cfg_entry k b = Some row" for k row
          using that wrote_entry [OF wr, of k] by (auto simp: newest_def split: if_splits option.splits)
        then show ?thesis using mine w wr run(3) unfolding wrote_def written_def by blast
      qed
    next
      case (background s)
      then show ?thesis using wf by (auto simp: cfg_entry_def q_entry_Some back_wf_def)
    qed (use wf in auto)
  qed
qed

lemma settling_step:
  assumes st: "settling c n d" and step: "host_step hl cd envs cr db d e"
  shows "settling c (n + (if tables_of e = tables_of d then 0 else 1)) e"
proof -
  have inv: "host_inv d" and stop: "\<not> cn_listening (ho_conns d)" using st by (simp_all add: settling_def)
  note after = stopped_step [OF step inv stop]
  have "host_inv e" by (rule hosts.inv_step [OF step inv])
  moreover have "n + (if tables_of e = tables_of d then 0 else 1) + under_way e \<le> under_way c"
    using after(4) st by (simp add: settling_def tables_of_def)
  moreover have "t \<in> set (ss_tasks (ho_srv c))" if "t \<in> set (ss_tasks (ho_srv e))" "in_upsert t" for t
    using after(3) [OF that] that(2) st by (simp add: settling_def)
  moreover have "cfg_entry k (ss_back (ho_srv c)) = Some row \<or>
      (\<exists>t \<in> set (ss_tasks (ho_srv c)). \<exists>p m nxt. task_writer t = Some (Storing p m nxt) \<and> k = pa_key p \<and> row = writer_row p m)"
    if "cfg_entry k (ss_back (ho_srv e)) = Some row" for k row
    using settling_rows [OF st step] that st unfolding settling_def by blast
  ultimately show ?thesis
    using after(1,2) settling_rows [OF st step] st unfolding settling_def by simp
qed

text \<open>
  C4. The end settles: once the server was dropped, no request arrives and no task goes on, and in any run from
  there, however long, the tables change at most once for each upsert that was under way and once for a
  prune transaction that was; every entry of the config is one there was, or the row of an upsert that was
  under way.
\<close>

theorem shutdown_settles:
  assumes "back_wf b" "(host_step hl cd envs cr db)\<^sup>*\<^sup>* (host_new b addrs) c" "\<not> cn_listening (ho_conns c)"
    and "(counted_step hl cd envs cr db)\<^sup>*\<^sup>* (0, c) (n, d)"
  shows "n \<le> length (filter in_upsert (ss_tasks (ho_srv c))) + (if ho_pruning c then 1 else 0) \<and>
    length (ss_tasks (ho_srv d)) = length (ss_tasks (ho_srv c)) \<and>
    (\<forall>i < length (ss_tasks (ho_srv d)). \<not> alive d i) \<and>
    (\<forall>k row. cfg_entry k (ss_back (ho_srv d)) = Some row \<longrightarrow> cfg_entry k (ss_back (ho_srv c)) = Some row \<or>
       (\<exists>t \<in> set (ss_tasks (ho_srv c)). \<exists>p m nxt. task_writer t = Some (Storing p m nxt) \<and> k = pa_key p \<and> row = writer_row p m))"
proof -
  have "(server_step hl cd envs cr db)\<^sup>*\<^sup>* (server_new b addrs) (ho_srv c)"
    using host_server_steps [OF assms(2)] by (simp add: host_new_def)
  then have "back_wf (ss_back (ho_srv c))" by (rule tracedD(1) [OF traced_run [OF assms(1)]])
  then have "settling c 0 c" using host_inv_run [OF assms(2)] assms(3) by (simp add: settling_def)
  then have start: "settling c (fst (0 :: nat, c)) (snd (0 :: nat, c))" by simp
  have "settling c (fst (n, d)) (snd (n, d))"
    using assms(4)
  proof (induction rule: rtranclp_induct)
    case base
    then show ?case by (rule start)
  next
    case (step x y)
    then show ?case using settling_step [OF step.IH, of hl cd envs cr db "snd y"] by (simp add: counted_step_def)
  qed
  then have st: "settling c n d" by simp
  then have "\<not> alive d i" if "i < length (ss_tasks (ho_srv d))" for i
    using stopped_not_alive [OF _ _ that] by (simp add: settling_def)
  then show ?thesis using st by (simp add: settling_def under_way_def)
qed


subsection \<open>A run to the end\<close>

text \<open>The put of \<open>Server_Demo\<close> over a connection; the server is dropped while the upsert is under way.\<close>

abbreviation demo_host :: "conn_sys \<Rightarrow> bytes task \<Rightarrow> back_state \<Rightarrow> bytes host" where
  "demo_host cs t b \<equiv> \<lparr>ho_conns = cs, ho_srv = demo_sys t b, ho_owner = [None, Some 0], ho_pruning = False\<rparr>"

abbreviation demo_host_step :: "bytes host \<Rightarrow> bytes host \<Rightarrow> bool" where
  "demo_host_step \<equiv> host_step demo_http demo_codec demo_envs demo_crates demo_db"

abbreviation demo_in_upsert :: "bytes task" where
  "demo_in_upsert \<equiv> Putting demo_put_http demo_put_req (Storing (put_args_of demo_put_req) 1 (Some 63))"

definition ended_conn :: conn_sys where
  "ended_conn = \<lparr>cn_listening = False, cn_now = 0, cn_permits = 2048, cn_conns = [Closed]\<rparr>"

lemma demo_host_arrives: "demo_host_step\<^sup>*\<^sup>* (host_new keyed_back []) (demo_host one_conn (Arrived demo_put_http) keyed_back)"
proof -
  let ?c0 = "host_new keyed_back [] :: bytes host"
  let ?w = "\<lparr>cn_listening = True, cn_now = 0, cn_permits = MAX_CONNS, cn_conns = [Waiting 0]\<rparr>"
  have "conn_step (ho_conns ?c0) ?w" using conn_step.accept [of "ho_conns ?c0"] by (simp add: host_new_def)
  then have "demo_host_step ?c0 (?c0\<lparr>ho_conns := ?w\<rparr>)" by (rule host_step.connection)
  moreover have "conn_step (ho_conns (?c0\<lparr>ho_conns := ?w\<rparr>)) one_conn"
    using conn_step.acquire [of 0 ?w 0] by (simp add: MAX_CONNS_def one_conn_def)
  then have "demo_host_step (?c0\<lparr>ho_conns := ?w\<rparr>) (?c0\<lparr>ho_conns := ?w\<rparr>\<lparr>ho_conns := one_conn\<rparr>)" by (rule host_step.connection)
  moreover have "serves (ho_conns (?c0\<lparr>ho_conns := one_conn\<rparr>)) 0" by (simp add: serves_def one_conn_def)
  from host_step.request [OF this, of demo_http demo_codec demo_envs demo_crates demo_db demo_put_http]
  have "demo_host_step (?c0\<lparr>ho_conns := one_conn\<rparr>) (demo_host one_conn (Arrived demo_put_http) keyed_back)"
    by (simp add: host_new_def server_new_def)
  ultimately show ?thesis by (simp add: converse_rtranclp_into_rtranclp)
qed

lemma demo_host_runs:
  assumes "run_task demo_http demo_codec demo_envs t b = (t', b')" "cs = one_conn \<or> in_upsert t"
  shows "demo_host_step (demo_host cs t b) (demo_host cs t' b')"
proof -
  have "alive (demo_host one_conn t b) 1" by (simp add: alive_def serves_def one_conn_def)
  then have "alive (demo_host cs t b) 1 \<or> in_upsert (ss_tasks (ho_srv (demo_host cs t b)) ! 1)" using assms(2) by auto
  from host_step.run [OF _ this] show ?thesis using assms(1) by simp
qed

lemma demo_host_storing:
  "demo_host_step\<^sup>*\<^sup>* (host_new keyed_back []) (demo_host one_conn demo_in_upsert ((demo_back 2)\<lparr>bk_counter := 1\<rparr>))"
  by (rule rtranclp.rtrancl_into_rtrancl [OF rtranclp.rtrancl_into_rtrancl [OF rtranclp.rtrancl_into_rtrancl [OF demo_host_arrives]]])
    (rule demo_host_runs demo_authorizes demo_starts demo_stamps disjI1 refl)+

theorem requests_within_limits_witness:
  "\<exists>c. demo_host_step\<^sup>*\<^sup>* (host_new keyed_back []) c \<and> alive c 1 \<and> ho_owner c ! 1 = Some 0 \<and>
     0 < length (cn_conns (ho_conns c)) \<and> cn_conns (ho_conns c) ! 0 \<in> {Serving, Closed}"
proof -
  let ?c = "demo_host one_conn demo_in_upsert ((demo_back 2)\<lparr>bk_counter := 1\<rparr>)"
  have "\<forall>i < length (ss_tasks (ho_srv ?c)). \<forall>k. ho_owner ?c ! i = Some k \<longrightarrow>
      k < length (cn_conns (ho_conns ?c)) \<and> cn_conns (ho_conns ?c) ! k \<in> {Serving, Closed}"
    using requests_within_limits [OF demo_host_storing] by blast
  then have "0 < length (cn_conns (ho_conns ?c)) \<and> cn_conns (ho_conns ?c) ! 0 \<in> {Serving, Closed}"
    by (elim allE [of _ 1]) simp
  moreover have "alive ?c 1" by (simp add: alive_def serves_def one_conn_def)
  ultimately show ?thesis using demo_host_storing by (intro exI [of _ ?c]) simp
qed

theorem shutdown_settles_witness:
  "\<exists>c d. demo_host_step\<^sup>*\<^sup>* (host_new keyed_back []) c \<and> \<not> cn_listening (ho_conns c) \<and>
     (counted_step demo_http demo_codec demo_envs demo_crates demo_db)\<^sup>*\<^sup>* (0, c) (1, d) \<and>
     cfg_entry ''k'' (ss_back (ho_srv d)) = Some (writer_row (put_args_of demo_put_req) 1) \<and>
     (\<forall>i < length (ss_tasks (ho_srv d)). \<not> alive d i)"
proof -
  let ?b = "(demo_back 2)\<lparr>bk_counter := 1\<rparr>"
  let ?c = "demo_host ended_conn demo_in_upsert ?b"
  have "conn_step one_conn ended_conn" using conn_step.dropped [of one_conn] by (simp add: one_conn_def ended_conn_def)
  then have "demo_host_step (demo_host one_conn demo_in_upsert ?b) ?c"
    using host_step.connection [of "demo_host one_conn demo_in_upsert ?b" ended_conn] by simp
  with demo_host_storing have c: "demo_host_step\<^sup>*\<^sup>* (host_new keyed_back []) ?c" by (rule rtranclp.rtrancl_into_rtrancl)
  have stop: "\<not> cn_listening (ho_conns ?c)" by (simp add: ended_conn_def)
  obtain b where run: "run_task demo_http demo_codec demo_envs demo_in_upsert ?b = (Replied demo_put_http (resp OK []), b)"
    and wr: "wrote (put_args_of demo_put_req) 1 ?b b" by (rule demo_reply)
  let ?d = "demo_host ended_conn (Replied demo_put_http (resp OK [])) b"
  have entry: "cfg_entry ''k'' b = Some (writer_row (put_args_of demo_put_req) 1)"
    using wrote_entry [OF wr, of "''k''"] demo_back_entry(1) by (simp add: put_args_of_def demo_put_req_def newest_def)
  then have "cfg_entry ''k'' b \<noteq> cfg_entry ''k'' ?b" using demo_back_entry(1) by simp
  then have "tables_of ?d \<noteq> tables_of ?c" by (auto simp: tables_of_def cfg_entry_def)
  moreover have "demo_host_step ?c ?d" by (rule demo_host_runs [OF run]) (simp add: in_upsert_def)
  ultimately have "counted_step demo_http demo_codec demo_envs demo_crates demo_db (0, ?c) (1, ?d)"
    by (simp add: counted_step_def)
  then have once: "(counted_step demo_http demo_codec demo_envs demo_crates demo_db)\<^sup>*\<^sup>* (0, ?c) (1, ?d)" by (rule r_into_rtranclp)
  have "\<forall>i < length (ss_tasks (ho_srv ?d)). \<not> alive ?d i"
    using shutdown_settles [OF keyed_back_wf(1) c stop once] by blast
  then show ?thesis using c stop once entry by (intro exI [of _ ?c] exI [of _ ?d]) simp
qed

end
