(* ===== verification/Cli.thy ===== *)
theory Cli
  imports Server
begin

section \<open>The command line client\<close>

text \<open>
  \<open>rs/v-m-io-cli/src/lib.rs\<close>: the client functions and \<open>client_run\<close>. What \<open>cfg-get\<close> prints is a
  \<open>BTreeMap\<close> of the items by key, given to \<open>serde_json\<close>'s printer, a parameter; parsing the command
  line is the crate \<open>clap\<close>'s.
\<close>

datatype cmd =
    Health
  | CfgGet bool
  | CfgPut string string "int option" "int option"
  | CfgRm string "int option" "int option"

record cli_config =
  cl_addr :: socket_addr
  cl_api_key :: string
  cl_cmd :: cmd

definition bearer :: "cli_config \<Rightarrow> string" where
  "bearer config = ''Bearer '' @ cl_api_key config"

definition health :: "'s net \<Rightarrow> cli_config \<Rightarrow> 's \<Rightarrow> unit res \<times> 's" where
  "health net config s =
     then_st (cli_connect net (cl_addr config) (bearer config) s) (\<lambda>cli s1.
     then_st (cli_request net cli ''__health'' [] s1) (\<lambda>_ s2. (Inr (), s2)))"

definition cfg_get :: "codec \<Rightarrow> 's net \<Rightarrow> cli_config \<Rightarrow> 's \<Rightarrow> cfg_get_res res \<times> 's" where
  "cfg_get cd net config s =
     then_st (cli_connect net (cl_addr config) (bearer config) s) (\<lambda>cli s1. cli_cfg_get cd net cli s1)"

definition cfg_put ::
  "codec \<Rightarrow> 's net \<Rightarrow> cli_config \<Rightarrow> string \<Rightarrow> string \<Rightarrow> int option \<Rightarrow> int option \<Rightarrow> 's \<Rightarrow> unit res \<times> 's" where
  "cfg_put cd net config key value expires modified s =
     then_st (cli_connect net (cl_addr config) (bearer config) s) (\<lambda>cli s1.
       cli_cfg_put cd net cli \<lparr>pr_key = key, pr_value = value, pr_expires_at_micros = expires,
         pr_modified_at_micros = modified\<rparr> s1)"

text \<open>The map that \<open>cfg-get\<close> prints.\<close>

definition shown_items :: "bool \<Rightarrow> cfg_get_item list \<Rightarrow> (string \<times> cfg_get_item) list" where
  "shown_items show_tombstones items =
     fold (\<lambda>item m. bt_insert (gi_key item) item m)
       (filter (\<lambda>item. show_tombstones \<or> gi_value item \<noteq> CONFIG_TOMBSTONE) items) []"

definition RM_TTL_MICROS :: int where
  "RM_TTL_MICROS = 1000 * 1000 * 60 * 60 * 24 * 30"

text \<open>
  \<open>client_run\<close>: the printed text where the command prints. The outer option is the panic of
  \<open>expect("system time")\<close>, for a clock before the epoch.
\<close>

definition client_run ::
  "codec \<Rightarrow> 's net \<Rightarrow> ((string \<times> cfg_get_item) list \<Rightarrow> string res) \<Rightarrow> system_time \<Rightarrow> cli_config \<Rightarrow> 's \<Rightarrow>
   ((string option) res \<times> 's) option" where
  "client_run cd net pretty now config s =
     (case cl_cmd config of
        Health \<Rightarrow> Some (then_st (health net config s) (\<lambda>_ s1. (Inr None, s1)))
      | CfgGet show_tombstones \<Rightarrow>
          Some (then_st (cfg_get cd net config s) (\<lambda>res s1.
            (case res of
               Inl err \<Rightarrow> (Inl (io_other err), s1)
             | Inr items \<Rightarrow>
                 (and_then (pretty (shown_items show_tombstones items)) (\<lambda>text. Inr (Some text)), s1))))
      | CfgPut key value expires modified \<Rightarrow>
          Some (then_st (cfg_put cd net config key value expires modified s) (\<lambda>_ s1. (Inr None, s1)))
      | CfgRm key expires modified \<Rightarrow>
          (case (case expires of
                   Some x \<Rightarrow> Some x
                 | None \<Rightarrow> map_option (\<lambda>m. wrap_i64 (m + RM_TTL_MICROS)) (micros_since_epoch now)) of
             None \<Rightarrow> None
           | Some x \<Rightarrow>
               Some (then_st (cfg_put cd net config key CONFIG_TOMBSTONE (Some x) modified s)
                 (\<lambda>_ s1. (Inr None, s1)))))"

subsection \<open>What is shown\<close>

lemma bt_insert_fold:
  assumes "sorted_wrt (<) (map fst m)"
  shows "sorted_wrt (<) (map fst (fold (\<lambda>i m. bt_insert (gi_key i) i m) items m)) \<and>
    map_of (fold (\<lambda>i m. bt_insert (gi_key i) i m) items m) = fold (\<lambda>i f. f(gi_key i \<mapsto> i)) items (map_of m)"
  using assms
proof (induction items arbitrary: m)
  case (Cons i items)
  then show ?case
    using Cons.IH [OF sorted_bt_insert [OF Cons.prems, of "gi_key i" i]] map_of_bt_insert [OF Cons.prems, of "gi_key i" i]
    by simp
qed simp

lemma fold_update_last:
  "distinct (map gi_key items) \<Longrightarrow>
   fold (\<lambda>i f. f(gi_key i \<mapsto> i)) items f k =
     (case find (\<lambda>i. gi_key i = k) items of Some i \<Rightarrow> Some i | None \<Rightarrow> f k)"
proof (induction items arbitrary: f)
  case (Cons i items)
  then have "find (\<lambda>j. gi_key j = gi_key i) items = None"
    unfolding find_None_iff by (simp add: image_iff) metis
  then show ?case using Cons by auto
qed simp

text \<open>For items with different keys, as a server sends them: each shown item under its key.\<close>

lemma shown_items_map:
  assumes "sorted_wrt (<) (map gi_key items)"
  shows "map_of (shown_items show_tombstones items) k = Some i \<longleftrightarrow>
    i \<in> set items \<and> gi_key i = k \<and> (show_tombstones \<or> gi_value i \<noteq> CONFIG_TOMBSTONE)"
proof -
  let ?keep = "filter (\<lambda>item. show_tombstones \<or> gi_value item \<noteq> CONFIG_TOMBSTONE) items"
  have "distinct (map gi_key items)" using assms strict_sorted_iff by blast
  then have d: "distinct (map gi_key ?keep)" by (rule distinct_map_filter)
  have "map_of (shown_items show_tombstones items) k = (case find (\<lambda>i. gi_key i = k) ?keep of Some i \<Rightarrow> Some i | None \<Rightarrow> None)"
    using bt_insert_fold [of "[]" ?keep] fold_update_last [OF d, of Map.empty k] by (simp add: shown_items_def)
  then have "map_of (shown_items show_tombstones items) k = find_row gi_key k ?keep"
    by (cases "find (\<lambda>i. gi_key i = k) ?keep") (simp_all add: find_row_def)
  then show ?thesis using find_row_distinct [OF d, of k i] by auto
qed

subsection \<open>Calls of a running server\<close>

text \<open>A client with a stored key, and a server without faults of sqlite.\<close>

definition healthy :: "'b http_lib \<Rightarrow> 'b transport \<Rightarrow> codec \<Rightarrow> envs \<Rightarrow> bool" where
  "healthy hl tr cd envs \<longleftrightarrow> transport_ok hl tr \<and> codec_ok cd \<and> (\<forall>n. ev_sql (envs n) = sql_ok)"

definition authorized :: "cli_config \<Rightarrow> back_state \<Rightarrow> bool" where
  "authorized config b \<longleftrightarrow> plain_key (cl_api_key config) \<and> cfg_entry (CFG_API_KEY_PREFIX @ cl_api_key config) b \<noteq> None"

abbreviation ticked :: "back_state \<Rightarrow> back_state" where
  "ticked b \<equiv> b\<lparr>bk_tick := Suc (bk_tick b)\<rparr>"

lemma authorized_ticked [simp]: "authorized config (ticked b) \<longleftrightarrow> authorized config b"
  by (simp add: authorized_def cfg_entry_def)

lemma auth_cb_ok:
  assumes "healthy hl tr cd envs" "authorized config b"
  shows "make_auth_cb envs (bearer config) b = (Inr OK, ticked b)"
proof -
  have "token_of (bearer config) = cl_api_key config" "cl_api_key config \<noteq> []"
    using assms(2) token_of_bearer by (auto simp: authorized_def bearer_def plain_key_def)
  then show ?thesis using assms by (auto simp: make_auth_cb_eq healthy_def authorized_def key_entry_def)
qed

lemma auth_cb_refused:
  assumes "plain_key (cl_api_key config)" "cfg_entry (CFG_API_KEY_PREFIX @ cl_api_key config) b = None"
  shows "\<exists>code. make_auth_cb envs (bearer config) b = (Inr code, ticked b) \<and> code \<in> {UNAUTHORIZED, INTERNAL_SERVER_ERROR}"
proof -
  have "token_of (bearer config) = cl_api_key config" "cl_api_key config \<noteq> []"
    using assms(1) token_of_bearer by (auto simp: bearer_def plain_key_def)
  then show ?thesis using assms(2) by (auto simp: make_auth_cb_eq key_entry_def)
qed

definition client_of :: "cli_config \<Rightarrow> chan_cli" where
  "client_of config = \<lparr>cc_base = ''http://'' @ addr_text (cl_addr config), cc_auth_header = bearer config\<rparr>"

lemma health_handler_in [simp]: "si_handlers (back_inner cd envs) HEALTH_REQ = Some health_handler"
  by (simp add: back_inner_def CFG_GET_REQ_def CFG_PUT_REQ_def HEALTH_REQ_def)

lemma handlers_in [simp]:
  "si_handlers (back_inner cd envs) ''cfg-get'' = Some (cfg_get_handler cd envs)"
  "si_handlers (back_inner cd envs) ''cfg-put'' = Some (cfg_put_handler cd envs)"
  "si_auth_cb (back_inner cd envs) = make_auth_cb envs"
  by (simp_all add: back_inner_def CFG_GET_REQ_def CFG_PUT_REQ_def HEALTH_REQ_def)

lemma connect_ok:
  assumes "healthy hl tr cd envs" "authorized config b"
  shows "cli_connect (loopback hl tr (back_inner cd envs)) (cl_addr config) (bearer config) b = (Inr (client_of config), ticked b)"
proof -
  have "header_text (bearer config)"
    using assms(2) header_text_bearer by (auto simp: authorized_def bearer_def)
  then show ?thesis
    using assms auth_cb_ok [OF assms]
    by (simp add: connect_loopback local_call_health healthy_def client_of_def)
qed

lemma call_ok:
  assumes "healthy hl tr cd envs" "authorized config b" "plain_name name"
    and "si_handlers (back_inner cd envs) name = Some h" "length body \<le> MAX_BODY"
  shows "cli_request (loopback hl tr (back_inner cd envs)) (client_of config) name body b =
    (case h_handle h body (ticked b) of
       (Inr out, s2) \<Rightarrow> (Inr out, s2)
     | (Inl e, s2) \<Rightarrow> (reply INTERNAL_SERVER_ERROR (into_bytes (err_to_string e)), s2))"
proof -
  have "header_text (bearer config)"
    using assms(2) header_text_bearer by (auto simp: authorized_def bearer_def)
  moreover have "transport_ok hl tr" "length body < 2 ^ 64"
    using assms(1,5) by (simp_all add: healthy_def MAX_BODY_def)
  ultimately have "cli_request (loopback hl tr (back_inner cd envs)) (client_of config) name body b =
      local_call hl (back_inner cd envs) (bearer config) name body b"
    unfolding client_of_def by (intro request_loopback assms(3))
  then show ?thesis using auth_cb_ok [OF assms(1,2)] assms(4,5) by (simp add: local_call_def)
qed

lemma connect_refused:
  assumes "transport_ok hl tr" "plain_key (cl_api_key config)" "cfg_entry (CFG_API_KEY_PREFIX @ cl_api_key config) b = None"
  shows "\<exists>e. cli_connect (loopback hl tr (back_inner cd envs)) (cl_addr config) (bearer config) b = (Inl e, ticked b)"
proof -
  have head: "header_text (bearer config)"
    using assms(2) header_text_bearer by (simp add: bearer_def)
  obtain code where code: "make_auth_cb envs (bearer config) b = (Inr code, ticked b)"
    "code \<in> {UNAUTHORIZED, INTERNAL_SERVER_ERROR}"
    using auth_cb_refused [OF assms(2,3)] by blast
  then have "code \<noteq> OK" "\<not> is_success code" by (auto simp: status_defs is_success_def)
  then show ?thesis
    using connect_loopback [OF assms(1) head health_handler_in, of cd envs "cl_addr config" b] code(1)
    by (auto simp: local_call_health reply_def)
qed

lemma cfg_put_run:
  assumes "healthy hl tr cd envs" "authorized config b"
    and "encode_put_req cd \<lparr>pr_key = key, pr_value = value, pr_expires_at_micros = x, pr_modified_at_micros = modified\<rparr> = Inr body"
    and "length body \<le> MAX_BODY" "upsert_value envs key value modified x (ticked (ticked b)) = (r, b')"
  shows "\<exists>r'. cfg_put cd (loopback hl tr (back_inner cd envs)) config key value x modified b = (r', b') \<and> isl r' = isl r"
proof -
  let ?q = "\<lparr>pr_key = key, pr_value = value, pr_expires_at_micros = x, pr_modified_at_micros = modified\<rparr>"
  have dec: "decode_put_req cd body = Inr ?q"
    using assms(1,3) codec_okD(2) by (simp add: healthy_def)
  have auth: "authorized config (ticked b)" using assms(2) by simp
  have run: "cli_request (loopback hl tr (back_inner cd envs)) (client_of config) ''cfg-put'' body (ticked b) =
      (case h_handle (cfg_put_handler cd envs) body (ticked (ticked b)) of
         (Inr out, s2) \<Rightarrow> (Inr out, s2)
       | (Inl e, s2) \<Rightarrow> (reply INTERNAL_SERVER_ERROR (into_bytes (err_to_string e)), s2))"
    by (rule call_ok [OF assms(1) auth plain_names(3) handlers_in(2) assms(4)])
  have err: "\<exists>e'. reply INTERNAL_SERVER_ERROR bs = Inl e'" for bs
    by (simp add: reply_def is_success_def status_defs)
  show ?thesis
  proof (cases r)
    case (Inr u)
    then show ?thesis
      using run dec assms(3,5) connect_ok [OF assms(1,2)]
      by (simp add: cfg_put_def cli_cfg_put_def cfg_put_handler_def cfg_put_handle_def)
  next
    case (Inl e)
    obtain e' where "reply INTERNAL_SERVER_ERROR (into_bytes (err_to_string e)) = Inl e'" using err by blast
    then show ?thesis
      using Inl run dec assms(3,5) connect_ok [OF assms(1,2)]
      by (simp add: cfg_put_def cli_cfg_put_def cfg_put_handler_def cfg_put_handle_def)
  qed
qed

lemma tick_simps [simp]:
  "cfg_rows (b\<lparr>bk_tick := n\<rparr>) = cfg_rows b" "back_wf (b\<lparr>bk_tick := n\<rparr>) = back_wf b"
  "listable (b\<lparr>bk_tick := n\<rparr>) = listable b" "values_text (b\<lparr>bk_tick := n\<rparr>) = values_text b"
  "cfg_entry key (b\<lparr>bk_tick := n\<rparr>) = cfg_entry key b" "stamps (b\<lparr>bk_tick := n\<rparr>) = stamps b"
  by (simp_all add: cfg_rows_def back_wf_def listable_def values_text_def cfg_entry_def stamps_def)

lemma cfg_get_run:
  assumes "healthy hl tr cd envs" "authorized config b" "back_wf b" "listable b" "values_text b"
    and "encode_get_res cd (Inr (map item_of (cfg_rows b))) = Inr payload"
  shows "cfg_get cd (loopback hl tr (back_inner cd envs)) config b =
    (Inr (Inr (map item_of (cfg_rows b))), ticked (ticked (ticked b)))"
proof -
  have auth: "authorized config (ticked b)" using assms(2) by simp
  have read: "read_all envs (ticked (ticked b)) = (Inr (map item_of (cfg_rows b)), ticked (ticked (ticked b)))"
    using read_all_ok [of "ticked (ticked b)" envs] assms(1,3-5) by (simp add: healthy_def)
  have dec: "decode_get_res cd payload = Inr (Inr (map item_of (cfg_rows b)))"
    using assms(1,6) codec_okD(1) by (simp add: healthy_def)
  have "cli_request (loopback hl tr (back_inner cd envs)) (client_of config) ''cfg-get'' [] (ticked b) =
      (case h_handle (cfg_get_handler cd envs) [] (ticked (ticked b)) of
         (Inr out, s2) \<Rightarrow> (Inr out, s2)
       | (Inl e, s2) \<Rightarrow> (reply INTERNAL_SERVER_ERROR (into_bytes (err_to_string e)), s2))"
    by (rule call_ok [OF assms(1) auth plain_names(2) handlers_in(1)]) simp
  also have "\<dots> = (Inr payload, ticked (ticked (ticked b)))"
    using read assms(6) by (simp add: cfg_get_handler_def cfg_get_handle_def)
  finally show ?thesis
    using connect_ok [OF assms(1,2)] dec by (simp add: cfg_get_def cli_cfg_get_def)
qed

text \<open>A put and a get, by a client that may.\<close>

lemma put_then_get:
  assumes "healthy hl tr cd envs" "server_inv cd envs b" "room envs b" "authorized config b"
    and "int (length (entries (st_sql (bk_store b)))) < i64_max"
    and "utf8_valid value" "length key \<le> CFG_KEY_MAX" "length value \<le> CFG_VALUE_MAX"
    and "encode_put_req cd \<lparr>pr_key = key, pr_value = value, pr_expires_at_micros = x, pr_modified_at_micros = None\<rparr> = Inr body"
    and "length body \<le> MAX_BODY" "\<And>r. \<exists>bs. encode_get_res cd r = Inr bs"
  shows "\<exists>b1 m items b2.
    cfg_put cd (loopback hl tr (back_inner cd envs)) config key value x None b = (Inr (), b1) \<and>
    cfg_get cd (loopback hl tr (back_inner cd envs)) config b1 = (Inr (Inr items), b2) \<and>
    sorted_wrt (<) (map gi_key items) \<and>
    (\<forall>i. i \<in> set items \<longleftrightarrow>
       i = \<lparr>gi_key = key, gi_value = value, gi_modified_at_micros = m, gi_expires_at_micros = x\<rparr> \<or>
       gi_key i \<noteq> key \<and> (\<exists>q. cfg_entry (gi_key i) b = Some q \<and> i = item_of q))"
proof -
  let ?b = "ticked (ticked b)"
  have inv: "server_inv cd envs ?b" by (rule server_inv_same [OF assms(2)]) simp_all
  then have ahead: "counter_ahead envs ?b" by (simp add: server_inv_def)
  have room: "room envs ?b" using assms(3) by (simp add: room_def)
  obtain r b1 where up: "upsert_value envs key value None x ?b = (r, b1)" by force
  have put: "r = Inr ()" "written key (bk_counter b1) x (into_bytes value) ?b b1"
    "cfg_entry key b1 = Some (cfg_row key (bk_counter b1) x value)"
    using attempt_ahead [OF ahead _ _ assms(7,8) up] assms(1) room by (simp_all add: healthy_def room_def)
  have others: "cfg_entry k b1 = cfg_entry k b" if "k \<noteq> key" for k
    using written_cfg_entry [OF put(2), of k] that by simp
  have b1: "server_inv cd envs b1" by (rule server_inv_upsert [OF up inv room assms(6)]) simp
  then have wf: "back_wf b1" "values_text b1" by (simp_all add: server_inv_def counter_ahead_def)
  have "listable b1"
    using written_length [OF put(2) counter_aheadD(1) [OF ahead]] assms(5) by (simp add: listable_def)
  moreover have auth: "authorized config b1"
    using assms(4) put(3) others [of "CFG_API_KEY_PREFIX @ cl_api_key config"]
    by (cases "CFG_API_KEY_PREFIX @ cl_api_key config = key") (auto simp: authorized_def)
  moreover obtain payload where "encode_get_res cd (Inr (map item_of (cfg_rows b1))) = Inr payload"
    using assms(11) by blast
  ultimately have get: "cfg_get cd (loopback hl tr (back_inner cd envs)) config b1 =
      (Inr (Inr (map item_of (cfg_rows b1))), ticked (ticked (ticked b1)))"
    using wf by (intro cfg_get_run [OF assms(1)])
  obtain r' where r': "cfg_put cd (loopback hl tr (back_inner cd envs)) config key value x None b = (r', b1)" "isl r' = isl r"
    using cfg_put_run [OF assms(1,4,9,10) up] by blast
  then have put_ok: "cfg_put cd (loopback hl tr (back_inner cd envs)) config key value x None b = (Inr (), b1)"
    using put(1) by (cases r') simp_all
  have item: "i \<in> set (map item_of (cfg_rows b1)) \<longleftrightarrow> (\<exists>q. cfg_entry (gi_key i) b1 = Some q \<and> i = item_of q)" for i
  proof -
    have "gi_key (item_of q) = k" if "cfg_entry k b1 = Some q" for k q
    proof -
      have "q \<in> set (entries (st_sql (bk_store b1))) \<and> e_pk q = (CFG_CLASS, k)"
        using that wf(1) by (simp add: cfg_entry_def back_wf_def q_entry_Some)
      then show ?thesis by (simp add: item_of_def e_pk_def)
    qed
    then show ?thesis by (auto simp: set_cfg_rows [OF wf(1)])
  qed
  have "i \<in> set (map item_of (cfg_rows b1)) \<longleftrightarrow>
      i = \<lparr>gi_key = key, gi_value = value, gi_modified_at_micros = bk_counter b1, gi_expires_at_micros = x\<rparr> \<or>
      gi_key i \<noteq> key \<and> (\<exists>q. cfg_entry (gi_key i) b = Some q \<and> i = item_of q)" for i
    using item [of i] put(3) others [of "gi_key i"] by (cases "gi_key i = key") auto
  then show ?thesis using put_ok get sorted_cfg_rows [OF wf(1)] by blast
qed

end
