(* ===== verification/Process.thy ===== *)
theory Process
  imports Host Cli
begin

section \<open>The two programs\<close>

text \<open>
  The \<open>main\<close> functions (\<open>rs/v-m-io-back/src/bin/v-m-io-cfg.rs\<close>, \<open>rs/v-m-io-cli/src/bin/v-m-io-cli.rs\<close>), the wait for a
  shutdown signal and the end of a test run (\<open>rs/v-m-io-back/src/lib.rs\<close>), and the server process as a machine on
  the host of \<open>Host\<close>. What clap makes of the command line and what the set up of the logging gives are
  arguments; so is what the removal of the temporary directory leaves of the files.
\<close>

subsection \<open>From main to serving\<close>

text \<open>clap ends the process with a code of its own when it shows its help or refuses the command line.\<close>

datatype 'u outcome =
    Exited nat
  | Failed io_error
  | Panicked
  | Ended 'u

definition cfg_main ::
  "platform \<Rightarrow> envs \<Rightarrow> envs \<Rightarrow> path res \<Rightarrow> string + unit \<Rightarrow> nat + config \<Rightarrow> store \<Rightarrow> run outcome \<times> store" where
  "cfg_main pf envs_init envs_srv tmp logging parsed s =
     (case logging of
        Inl err \<Rightarrow> (Failed (io_other err), s)
      | Inr _ \<Rightarrow>
          (case parsed of
             Inl code \<Rightarrow> (Exited code, s)
           | Inr config \<Rightarrow>
               (case back_run pf envs_init envs_srv tmp config s of
                  (None, s1) \<Rightarrow> (Panicked, s1)
                | (Some (Inl e), s1) \<Rightarrow> (Failed e, s1)
                | (Some (Inr r), s1) \<Rightarrow> (Ended r, s1))))"

definition cli_main ::
  "codec \<Rightarrow> 's net \<Rightarrow> ((string \<times> cfg_get_item) list \<Rightarrow> string res) \<Rightarrow> system_time \<Rightarrow> nat + cli_config \<Rightarrow> 's \<Rightarrow>
   (string option) outcome \<times> 's" where
  "cli_main cd net pretty now parsed s =
     (case parsed of
        Inl code \<Rightarrow> (Exited code, s)
      | Inr config \<Rightarrow>
          (case client_run cd net pretty now config s of
             None \<Rightarrow> (Panicked, s)
           | Some (Inl e, s1) \<Rightarrow> (Failed e, s1)
           | Some (Inr printed, s1) \<Rightarrow> (Ended printed, s1)))"

subsection \<open>The wait for a shutdown\<close>

datatype signal = CtrlC | SigTerm

text \<open>
  What the process uses of the platform here: whether it is unix, whether the handlers of \<open>SIGTERM\<close> and of
  ctrl-c can be installed, and the removal of the temporary directory, whose errors are ignored.
\<close>

record os =
  os_unix :: bool
  os_sigterm :: bool
  os_ctrl_c :: bool
  os_remove_tmp :: "fs \<Rightarrow> fs"

text \<open>\<open>ctrl_c().await\<close> with its result ignored: an error resolves it as well.\<close>

definition ctrl_c :: "os \<Rightarrow> signal list \<Rightarrow> bool" where
  "ctrl_c os signals \<longleftrightarrow> \<not> os_ctrl_c os \<or> CtrlC \<in> set signals"

text \<open>Whether \<open>wait_for_shutdown\<close> has resolved, by the signals the process got since it was called.\<close>

definition wait_for_shutdown :: "os \<Rightarrow> signal list \<Rightarrow> bool" where
  "wait_for_shutdown os signals \<longleftrightarrow>
     (if os_unix os then
        (if os_sigterm os then ctrl_c os signals \<or> SigTerm \<in> set signals
         else ctrl_c os signals)
      else ctrl_c os signals)"

subsection \<open>The server process\<close>

datatype stage =
    Awaiting
  | Stopped
  | Removed fs

record 'b process =
  pr_test :: bool
  pr_host :: "'b host"
  pr_signals :: "signal list"
  pr_stage :: stage

text \<open>Dropping the server ends its accept loops and with them every connection; its permits come back.\<close>

definition drop_srv :: "'b host \<Rightarrow> 'b host" where
  "drop_srv h = h\<lparr>ho_conns := (ho_conns h)\<lparr>cn_listening := False,
     cn_permits := cn_permits (ho_conns h) + count_list (cn_conns (ho_conns h)) Serving,
     cn_conns := map (\<lambda>_. Closed) (cn_conns (ho_conns h))\<rparr>\<rparr>"

text \<open>
  A process that serves: its host works, signals come in, and in test mode the end of \<open>back_run_test\<close>: the
  wait, \<open>drop(srv)\<close>, \<open>drop(tmp)\<close>. The host goes on after the return: the runtime waits for the calls of
  sqlite that were started. Otherwise \<open>back_run\<close> waits for \<open>pending()\<close>.
\<close>

inductive process_step ::
  "os \<Rightarrow> 'b http_lib \<Rightarrow> codec \<Rightarrow> envs \<Rightarrow> crates \<Rightarrow> vm_io_db \<Rightarrow> 'b process \<Rightarrow> 'b process \<Rightarrow> bool"
  for os :: os and hl :: "'b http_lib" and cd :: codec and envs :: envs and cr :: crates and db :: vm_io_db where
  work: "host_step hl cd envs cr db (pr_host p) h \<Longrightarrow> cn_listening (ho_conns h) = cn_listening (ho_conns (pr_host p)) \<Longrightarrow>
    process_step os hl cd envs cr db p (p\<lparr>pr_host := h\<rparr>)"
| signal: "process_step os hl cd envs cr db p (p\<lparr>pr_signals := pr_signals p @ [s]\<rparr>)"
| stop: "pr_test p \<Longrightarrow> pr_stage p = Awaiting \<Longrightarrow> wait_for_shutdown os (pr_signals p) \<Longrightarrow>
    process_step os hl cd envs cr db p (p\<lparr>pr_host := drop_srv (pr_host p), pr_stage := Stopped\<rparr>)"
| remove_tmp: "pr_stage p = Stopped \<Longrightarrow> process_step os hl cd envs cr db p
      (p\<lparr>pr_stage := Removed (os_remove_tmp os (st_fs (bk_store (ss_back (ho_srv (pr_host p))))))\<rparr>)"

definition process_new :: "bool \<Rightarrow> back_srv_rec \<Rightarrow> back_state \<Rightarrow> 'b process" where
  "process_new test srv b = \<lparr>pr_test = test, pr_host = host_new b (cs_local_addrs (bs_srv srv)),
     pr_signals = [], pr_stage = Awaiting\<rparr>"

lemma process_new_simps [simp]:
  "pr_test (process_new test srv b) = test"
  "pr_host (process_new test srv b) = host_new b (cs_local_addrs (bs_srv srv))"
  "pr_signals (process_new test srv b) = []"
  "pr_stage (process_new test srv b) = Awaiting"
  by (simp_all add: process_new_def)

subsection \<open>The process refines the host\<close>

lemma drop_srv_simps [simp]:
  "ho_srv (drop_srv h) = ho_srv h"
  "cn_listening (ho_conns (drop_srv h)) = False"
  by (simp_all add: drop_srv_def)

lemma drop_srv_step: "host_step hl cd envs cr db h (drop_srv h)"
  unfolding drop_srv_def by (rule host_step.connection [OF conn_step.dropped])

lemma process_host_step:
  assumes "process_step os hl cd envs cr db p p'"
  shows "or_same (host_step hl cd envs cr db) (pr_host p) (pr_host p')"
  using assms by cases (auto simp: or_same_def intro: drop_srv_step)

interpretation process_host: forward_simulation "\<lambda>h p. h = pr_host p"
  "or_same (host_step hl cd envs cr db)" "process_step os hl cd envs cr db"
  for os :: os and hl :: "'b http_lib" and cd envs cr db
proof unfold_locales
  show "\<exists>h'. or_same (host_step hl cd envs cr db) h h' \<and> h' = pr_host p'"
    if "h = pr_host p" "process_step os hl cd envs cr db p p'" for h and p p' :: "'b process"
    using process_host_step [OF that(2)] that(1) by simp
qed

lemma process_host_steps:
  assumes "(process_step os hl cd envs cr db)\<^sup>*\<^sup>* p p'"
  shows "(host_step hl cd envs cr db)\<^sup>*\<^sup>* (pr_host p) (pr_host p')"
proof -
  have "\<exists>h'. (or_same (host_step hl cd envs cr db))\<^sup>*\<^sup>* (pr_host p) h' \<and> h' = pr_host p'"
    by (rule process_host.sim_steps [OF assms refl])
  then show ?thesis by (elim exE conjE) (simp add: or_same_steps)
qed


subsection \<open>The end of a test run\<close>

definition process_inv :: "os \<Rightarrow> bool \<Rightarrow> 'b process \<Rightarrow> bool" where
  "process_inv os test p \<longleftrightarrow> pr_test p = test \<and> host_inv (pr_host p) \<and>
     (cn_listening (ho_conns (pr_host p)) \<longleftrightarrow> pr_stage p = Awaiting) \<and>
     (pr_stage p \<noteq> Awaiting \<longrightarrow> test \<and> wait_for_shutdown os (pr_signals p))"

lemma wait_for_shutdown_later: "wait_for_shutdown os signals \<Longrightarrow> wait_for_shutdown os (signals @ more_signals)"
  by (auto simp: wait_for_shutdown_def ctrl_c_def split: if_splits)

lemma wait_for_shutdown_signal: "wait_for_shutdown os signals \<Longrightarrow> os_ctrl_c os \<Longrightarrow> signals \<noteq> []"
  by (auto simp: wait_for_shutdown_def ctrl_c_def split: if_splits)

interpretation processes: inductive_invariant "\<lambda>p. \<exists>srv b. p = process_new test srv b" "process_step os hl cd envs cr db"
  "process_inv os test" for os and hl :: "'b http_lib" and cd envs cr db test
proof unfold_locales
  fix p p' :: "'b process"
  show "process_inv os test p" if new: "\<exists>srv b. p = process_new test srv b"
  proof -
    obtain srv b where p: "p = process_new test srv b" using new by blast
    have "host_inv (host_new b (cs_local_addrs (bs_srv srv)))" by (rule hosts.inv_init) blast
    moreover have "cn_listening (ho_conns (host_new b (cs_local_addrs (bs_srv srv))))" by (simp add: host_new_def)
    ultimately show ?thesis using p by (simp add: process_inv_def)
  qed
  assume step: "process_step os hl cd envs cr db p p'" and inv: "process_inv os test p"
  from inv have host: "host_inv (pr_host p)" by (simp add: process_inv_def)
  have host': "host_inv (pr_host p')"
    using process_host_step [OF step] hosts.inv_step [OF _ host] host unfolding or_same_def by metis
  from step show "process_inv os test p'"
    by cases (use inv host' wait_for_shutdown_later in \<open>auto simp: process_inv_def\<close>)
qed

lemma process_inv_run:
  "(process_step os hl cd envs cr db)\<^sup>*\<^sup>* (process_new test srv b) p \<Longrightarrow> process_inv os test p"
  using processes.inv_steps processes.inv_init by blast

text \<open>A process that is to stop can, in two steps of its own.\<close>

lemma stop_returns:
  fixes p :: "'b process"
  assumes "process_inv os True p" "wait_for_shutdown os (pr_signals p)"
  shows "\<exists>q left. (process_step os hl cd envs cr db)\<^sup>*\<^sup>* p q \<and> pr_stage q = Removed left \<and> ho_srv (pr_host q) = ho_srv (pr_host p)"
proof -
  have finishes: "\<exists>q left. (process_step os hl cd envs cr db)\<^sup>*\<^sup>* r q \<and> pr_stage q = Removed left \<and> ho_srv (pr_host q) = ho_srv (pr_host r)"
    if "pr_stage r = Stopped" for r :: "'b process"
  proof -
    let ?q = "r\<lparr>pr_stage := Removed (os_remove_tmp os (st_fs (bk_store (ss_back (ho_srv (pr_host r))))))\<rparr>"
    have "process_step os hl cd envs cr db r ?q" by (rule process_step.remove_tmp [OF that])
    then show ?thesis by (intro exI [of _ ?q] exI) auto
  qed
  show ?thesis
  proof (cases "pr_stage p")
    case Awaiting
    let ?r = "p\<lparr>pr_host := drop_srv (pr_host p), pr_stage := Stopped\<rparr>"
    have "process_step os hl cd envs cr db p ?r"
      using assms Awaiting by (intro process_step.stop) (simp_all add: process_inv_def)
    then show ?thesis using finishes [of ?r] converse_rtranclp_into_rtranclp by fastforce
  qed (use finishes in auto)
qed


text \<open>
  C40. The process serves until it is told to stop, and then ends: it listens exactly until the end of the wait; a
  test run alone stops, and, where the ctrl-c handler could be installed, only after a signal; from then on no
  task is alive; and whatever it is doing, after a ctrl-c, or a \<open>SIGTERM\<close> that it listens for, it can get to
  the removal of its directory without any further change of the tables.
\<close>

theorem serves_until_signal:
  fixes p :: "'b process"
  assumes "(process_step os hl cd envs cr db)\<^sup>*\<^sup>* (process_new test srv b) p"
  shows "(cn_listening (ho_conns (pr_host p)) \<longleftrightarrow> pr_stage p = Awaiting) \<and>
    (pr_stage p \<noteq> Awaiting \<longrightarrow> test \<and> (os_ctrl_c os \<longrightarrow> pr_signals p \<noteq> []) \<and>
       (\<forall>i < length (ss_tasks (ho_srv (pr_host p))). \<not> alive (pr_host p) i)) \<and>
    (test \<and> (CtrlC \<in> set (pr_signals p) \<or> os_unix os \<and> os_sigterm os \<and> SigTerm \<in> set (pr_signals p)) \<longrightarrow>
       (\<exists>q left. (process_step os hl cd envs cr db)\<^sup>*\<^sup>* p q \<and> pr_stage q = Removed left \<and>
          ho_srv (pr_host q) = ho_srv (pr_host p)))"
proof (intro conjI impI)
  have inv: "process_inv os test p" by (rule process_inv_run [OF assms])
  then show "cn_listening (ho_conns (pr_host p)) \<longleftrightarrow> pr_stage p = Awaiting" by (simp add: process_inv_def)
  show test if "pr_stage p \<noteq> Awaiting" using inv that by (simp add: process_inv_def)
  show "pr_signals p \<noteq> []" if "pr_stage p \<noteq> Awaiting" "os_ctrl_c os"
    using inv that wait_for_shutdown_signal [OF _ that(2)] by (simp add: process_inv_def)
  show "\<forall>i < length (ss_tasks (ho_srv (pr_host p))). \<not> alive (pr_host p) i" if "pr_stage p \<noteq> Awaiting"
    using inv that stopped_not_alive [of "pr_host p"] by (simp add: process_inv_def)
  assume h: "test \<and> (CtrlC \<in> set (pr_signals p) \<or> os_unix os \<and> os_sigterm os \<and> SigTerm \<in> set (pr_signals p))"
  then have "wait_for_shutdown os (pr_signals p)" by (auto simp: wait_for_shutdown_def ctrl_c_def)
  moreover have "process_inv os True p" using inv h by simp
  ultimately show "\<exists>q left. (process_step os hl cd envs cr db)\<^sup>*\<^sup>* p q \<and> pr_stage q = Removed left \<and>
      ho_srv (pr_host q) = ho_srv (pr_host p)" by (intro stop_returns)
qed

definition demo_os :: os where
  "demo_os = \<lparr>os_unix = True, os_sigterm = True, os_ctrl_c = True, os_remove_tmp = (\<lambda>fs. [])\<rparr>"

theorem serves_until_signal_witness:
  "\<exists>(p :: bytes process) q left. pr_signals p = [SigTerm] \<and> cn_listening (ho_conns (pr_host p)) \<and>
     (process_step demo_os demo_http demo_codec demo_envs demo_crates demo_db)\<^sup>*\<^sup>* p q \<and>
     pr_stage q = Removed left \<and> ho_srv (pr_host q) = ho_srv (pr_host p)"
proof -
  let ?srv = "\<lparr>bs_srv = \<lparr>cs_local_addrs = [], cs_inner = back_inner demo_codec demo_envs\<rparr>, bs_db = demo_db\<rparr>"
  let ?p = "process_new True ?srv keyed_back :: bytes process"
  let ?q = "?p\<lparr>pr_signals := [SigTerm]\<rparr>"
  have "process_step demo_os demo_http demo_codec demo_envs demo_crates demo_db ?p ?q"
    using process_step.signal [of demo_os demo_http demo_codec demo_envs demo_crates demo_db ?p SigTerm] by simp
  then have run: "(process_step demo_os demo_http demo_codec demo_envs demo_crates demo_db)\<^sup>*\<^sup>* ?p ?q" by (rule r_into_rtranclp)
  obtain r left where "(process_step demo_os demo_http demo_codec demo_envs demo_crates demo_db)\<^sup>*\<^sup>* ?q r \<and>
      pr_stage r = Removed left \<and> ho_srv (pr_host r) = ho_srv (pr_host ?q)"
    by (rule exE [OF serves_until_signal [OF run, THEN conjunct2, THEN conjunct2, THEN mp]]) (auto simp: demo_os_def)
  moreover have "cn_listening (ho_conns (pr_host ?q))" by (simp add: host_new_def)
  ultimately show ?thesis by (intro exI [of _ ?q] exI [of _ r] exI [of _ left]) simp
qed

subsection \<open>Where config entries come from\<close>

text \<open>An entry that a test run stores before it serves: a value of \<open>--init\<close> or the test api key.\<close>

definition seeded :: "platform \<Rightarrow> config \<Rightarrow> string \<Rightarrow> entry_row \<Rightarrow> bool" where
  "seeded pf config k row \<longleftrightarrow>
     (\<exists>old v m. (case cf_init config of Some init \<Rightarrow> pf_from_json pf init | None \<Rightarrow> Inr []) = Inr old \<and>
        ((map_of old)(''cfg-api-key~test'' \<mapsto> [])) k = Some v \<and> row = cfg_row k m None v)"

lemma started_inner:
  "back_srv pf envs n config s = (Some (Inr (srv, b)), s') \<Longrightarrow> cs_inner (bs_srv srv) = back_inner (pf_codec pf) envs"
  by (drule back_srv_result) (simp add: back_inner_def)

text \<open>What a process that gets to serving starts from.\<close>

lemma served_store:
  assumes "platform_ok pf" "tables_wf (st_sql s)" "back_run pf envs_init envs tmp config s = (Some (Inr (Serve srv b)), s')"
  shows "back_wf b \<and> cs_inner (bs_srv srv) = back_inner (pf_codec pf) envs \<and>
    (\<forall>k row. cfg_entry k b = Some row \<longrightarrow> store_entry k s = Some row \<or> cf_test config \<and> seeded pf config k row)"
proof (cases "cf_test config")
  case True
  then have run: "back_run_test pf envs_init envs tmp config s = (Some (Inr (srv, b)), s')"
    using assms(3) by (simp add: back_run_serves)
  show ?thesis
  proof (rule back_run_test_seeds [OF assms(1,2) run])
    fix c s1 old
    assume srv: "back_srv pf envs 2 c s1 = (Some (Inr (srv, b)), s')" and wf: "tables_wf (st_sql s1)"
      and old: "(case cf_init config of Some init \<Rightarrow> pf_from_json pf init | None \<Rightarrow> Inr []) = Inr old"
      and stored: "\<And>key. case ((map_of old)(''cfg-api-key~test'' \<mapsto> [])) key of
          None \<Rightarrow> store_entry key s1 = store_entry key s
        | Some v \<Rightarrow> \<exists>m. store_entry key s1 = newest (cfg_row key m None v) (store_entry key s)"
    note res = back_srv_result [OF srv]
    have "store_entry k s = Some row \<or> seeded pf config k row" if entry: "cfg_entry k b = Some row" for k row
    proof (cases "((map_of old)(''cfg-api-key~test'' \<mapsto> [])) k")
      case None
      then show ?thesis using stored [of k] entry res by (simp add: cfg_entry_store store_entry_def)
    next
      case (Some v)
      then obtain m where "Some row = newest (cfg_row k m None v) (store_entry k s)"
        using stored [of k] entry res by (auto simp: cfg_entry_store store_entry_def)
      then have "row = cfg_row k m None v \<or> store_entry k s = Some row"
        by (auto simp: newest_def split: option.splits if_splits)
      then show ?thesis using old Some unfolding seeded_def by blast
    qed
    then show ?thesis using True started_inner [OF srv] wf res by (simp add: back_wf_def)
  qed
next
  case False
  then have run: "back_srv pf envs 2 config s = (Some (Inr (srv, b)), s')"
    using assms(3) by (cases "back_srv pf envs 2 config s"; cases "config_init pf envs_init 1 config s")
      (auto simp: back_run_def and_then_eq_Inr split: option.splits if_splits)
  note res = back_srv_result [OF run]
  then show ?thesis using started_inner [OF run] assms(2) by (simp add: back_wf_def cfg_entry_store store_entry_def)
qed

lemma cfg_main_serves:
  "cfg_main pf envs_init envs tmp logging parsed s = (Ended r, s') \<longleftrightarrow>
     logging = Inr () \<and> (\<exists>config. parsed = Inr config \<and> back_run pf envs_init envs tmp config s = (Some (Inr r), s'))"
  by (auto simp: cfg_main_def split: sum.splits prod.splits option.splits)

text \<open>
  C2. Every config entry of the process has an origin: from the command line on, through the start of the
  server and any interleaving of connections, requests, the advertiser, prune and cleanup, signals and
  the end, an entry was in the database at the start, or was seeded by a test run, or advertises a bound
  address, or is the row of a put answered 200 whose token was an api key at an earlier moment of a run.
\<close>

theorem config_provenance:
  fixes p :: "'b process"
  assumes "platform_ok pf" "tables_wf (st_sql s)"
    and "cfg_main pf envs_init envs tmp logging (Inr config) s = (Ended (Serve srv b), s')"
    and "(process_step os hl (pf_codec pf) envs (pf_crates pf) (bs_db srv))\<^sup>*\<^sup>* (process_new (cf_test config) srv b) p"
    and "cfg_entry k (ss_back (ho_srv (pr_host p))) = Some row"
  shows "cs_inner (bs_srv srv) = back_inner (pf_codec pf) envs \<and>
    (store_entry k s = Some row \<or> cf_test config \<and> seeded pf config k row \<or>
     (\<exists>addr \<in> set (cs_local_addrs (bs_srv srv)). \<exists>m x. k = addr_key addr \<and> row = cfg_row k m (Some x) []) \<or>
     (\<exists>req put m. Replied req (resp OK []) \<in> set (ss_tasks (ho_srv (pr_host p))) \<and> asks hl (pf_codec pf) req put \<and>
        was_authorized hl (pf_codec pf) envs (pf_crates pf) (bs_db srv) (server_new b (cs_local_addrs (bs_srv srv))) req
          (ho_srv (pr_host p)) \<and>
        pr_key put = k \<and> row = cfg_row k m (pr_expires_at_micros put) (pr_value put) \<and>
        (\<forall>n. pr_modified_at_micros put = Some n \<longrightarrow> m = n)))"
proof -
  let ?all = "cs_local_addrs (bs_srv srv)"
  have run: "back_run pf envs_init envs tmp config s = (Some (Inr (Serve srv b)), s')"
    using assms(3) by (simp add: cfg_main_serves)
  note start = served_store [OF assms(1,2) run]
  have "(server_step hl (pf_codec pf) envs (pf_crates pf) (bs_db srv))\<^sup>*\<^sup>* (server_new b ?all) (ho_srv (pr_host p))"
    using host_server_steps [OF process_host_steps [OF assms(4)]] by (simp add: host_new_def)
  then have "traced hl (pf_codec pf) envs (pf_crates pf) (bs_db srv) ?all (server_new b ?all) (ho_srv (pr_host p))"
    using start by (intro traced_run) simp_all
  from tracedD(4) [OF this assms(5)] show ?thesis
  proof (elim disjE)
    assume "cfg_entry k (ss_back (server_new b ?all)) = Some row"
    then show ?thesis using start by (auto simp: server_new_def)
  qed (use start in \<open>simp_all add: addr_row_def put_row_def\<close>)
qed


theorem config_provenance_witness:
  "\<exists>srv b s' (p :: bytes process) row. cfg_main demo_platform (\<lambda>_. ok_env) (\<lambda>_. ok_env) (Inr []) (Inr ()) (Inr demo_test_config)
       \<lparr>st_sql = empty_tables, st_fs = []\<rparr> = (Ended (Serve srv b), s') \<and>
     (process_step demo_os demo_http demo_codec (\<lambda>_. ok_env) demo_crates (bs_db srv))\<^sup>*\<^sup>* (process_new True srv b) p \<and>
     pr_signals p = [CtrlC] \<and> cfg_entry ''cfg-api-key~test'' (ss_back (ho_srv (pr_host p))) = Some row \<and>
     seeded demo_platform demo_test_config ''cfg-api-key~test'' row"
proof -
  let ?s = "\<lparr>st_sql = empty_tables, st_fs = []\<rparr>" and ?envs = "\<lambda>_. ok_env" and ?key = "''cfg-api-key~test''"
  obtain srv b s' where test: "back_run_test demo_platform ?envs ?envs (Inr []) demo_test_config ?s = (Some (Inr (srv, b)), s')"
    using demo_test_run by blast
  have pf: "pf_codec demo_platform = demo_codec" "pf_crates demo_platform = demo_crates" "cf_test demo_test_config"
    by (simp_all add: demo_platform_def demo_test_config_def)
  then have main: "cfg_main demo_platform ?envs ?envs (Inr []) (Inr ()) (Inr demo_test_config) ?s = (Ended (Serve srv b), s')"
    using test by (simp add: cfg_main_def back_run_def)
  have wf: "tables_wf (st_sql ?s)" by simp
  let ?p = "(process_new True srv b :: bytes process)\<lparr>pr_signals := [CtrlC]\<rparr>"
  obtain row where row: "cfg_entry ?key b = Some row" using back_run_test_result [OF platform_ok_demo wf test] by blast
  then have entry: "cfg_entry ?key (ss_back (ho_srv (pr_host ?p))) = Some row" by (simp add: host_new_def server_new_def)
  have "process_step demo_os demo_http demo_codec ?envs demo_crates (bs_db srv) (process_new True srv b) ?p"
    using process_step.signal [of demo_os demo_http demo_codec ?envs demo_crates "bs_db srv" "process_new True srv b" CtrlC] by simp
  then have run: "(process_step demo_os demo_http demo_codec ?envs demo_crates (bs_db srv))\<^sup>*\<^sup>* (process_new True srv b) ?p"
    by (rule r_into_rtranclp)
  have "Replied req res \<notin> set (ss_tasks (ho_srv (pr_host ?p)))" for req res
    by (auto simp: host_new_def server_new_def)
  moreover have "?key \<noteq> addr_key addr" for addr by (simp add: addr_key_def CFG_ADDR_PREFIX_def)
  moreover have "store_entry ?key ?s = None" by (simp add: store_entry_def q_entry_def empty_tables_def)
  ultimately have "seeded demo_platform demo_test_config ?key row"
    using config_provenance [OF platform_ok_demo wf main, of demo_os demo_http ?p ?key row] run entry pf by auto
  then show ?thesis using main run entry by (intro exI [of _ srv] exI [of _ b] exI [of _ s'] exI [of _ ?p] exI [of _ row]) simp
qed

end
