(* ===== verification/Spec2Isabelle.thy ===== *)
theory Spec2Isabelle
  imports Db_Races Db_Tasks Process
begin

text \<open>
  A verification library for \<open>v-m.io\<close>, a server that keeps configuration entries and chunked data on disk and
  answers requests over http (the Rust crates under \<open>src/rs\<close>).

  \<^bold>\<open>The program and its parts.\<close> A client (\<open>v-m-io-cli\<close>) sends a bincode payload (\<open>v-m-io-types\<close>) through a
  channel (\<open>v-m-io-chan\<close>: \<open>ChanCli\<close> to \<open>ChanSrv\<close>). The channel server authorizes the request with a callback, routes
  it to a handler by its path and limits its body. Handlers and callback belong to the backend (\<open>v-m-io-back\<close>), which
  keeps its config as entries of one class in the database (\<open>v-m-io-db\<close>) and stamps them from a shared counter. The
  database is an sqlite file (\<open>sql.rs\<close>, \<open>sql/*.sql\<close>) and encrypted blob files in shard directories (\<open>blob.rs\<close>), with
  two background tasks that prune expired entries and collect unreferenced files.

  \<^bold>\<open>Theories\<close>, from the bottom up.

  \<^item> \<open>Prelude\<close>: errors (\<open>io_error\<close>, \<open>'a res\<close> for \<open>std::io::Result\<close>), byte and integer types, list lemmas, and the two
    generic interfaces \<open>inductive_invariant\<close> and \<open>forward_simulation\<close>. \<open>Rust_Std\<close>: what is used of std's \<open>str\<close>,
    \<open>SystemTime\<close> and \<open>Bound\<close>. \<open>Crates\<close>: the record of sha2, hkdf, aegis and hex functions. \<open>Files\<close>: \<open>tokio::fs\<close> on a
    map from paths to nodes, every call fallible by a plan, a failing write leaving any prefix.
  \<^item> \<open>Keys\<close> and \<open>Sql_Open\<close>: \<open>RootKeys::derive\<close> (\<open>key.rs\<close>), \<open>key_literal\<close> and \<open>Sql::new\<close> (\<open>sql.rs\<close>), \<open>VmIoDb::new\<close>.
  \<^item> \<open>Blob\<close>: \<open>blob.rs\<close>; the framed identity of a chunk, its keys, path, encryption, and \<open>write\<close> with its retry.
    \<open>Blob_Store\<close>: the locale \<open>blob_store\<close>, what the database relies on, interpreted as \<open>blobs\<close> on these definitions.
  \<^item> \<open>Sql_Tables\<close>: \<open>schema.sql\<close> as two tables and each statement as a function on them. \<open>Sql_Glob\<close>:
    \<open>glob_prefix_pattern\<close> and sqlite's GLOB operator. \<open>Sql\<close>: every method of \<open>Sql\<close>, with a plan of engine faults at
    every \<open>?\<close>; \<open>Sql_Facts\<close>: their results. \<open>Ring_Pool\<close>: the pool of read connections as a machine.
  \<^item> \<open>Db\<close>: \<open>VmIoDb\<close> (\<open>v-m-io-db/src/lib.rs\<close>), each operation on a \<open>store\<close>, that is tables and files. \<open>Db_Refine\<close>: the
    abstract database \<open>adb\<close> (a map of entries, a map of chunks) and the relation \<open>store_rep\<close>. \<open>Db_Facts\<close> and \<open>Db_Props\<close>:
    the operations against it. \<open>Cleanup\<close>: \<open>cleanup_dir\<close> and a pass of \<open>cleanup_task\<close>. \<open>Db_Tasks\<close>: \<open>prune_task\<close> and
    \<open>cleanup_task\<close>. \<open>Db_Concurrent\<close>: the calls cut at their awaits and interleaved, with the interpretation \<open>tasks\<close> of
    \<open>forward_simulation\<close>. \<open>Db_Races\<close>: two schedules in which a committed chunk loses its file. \<open>Db_Demo\<close>: a concrete
    store for witnesses.
  \<^item> \<open>Micros\<close>: \<open>unix_micros\<close> and \<open>next_micros\<close> of \<open>v-m-io-back/src/lib.rs\<close>, as a function and as a compare-exchange
    machine (\<open>counter\<close>). \<open>Entry_Store\<close>: the locale \<open>entry_store\<close>, what the backend relies on, interpreted on
    \<open>VmIoDb::upsert\<close> (\<open>db_entries\<close>). \<open>Back_Store\<close>, \<open>Back_Props\<close>, \<open>Back_Read\<close>: \<open>upsert_value\<close>, \<open>read_all\<close> and
    \<open>announce_addrs\<close>, with \<open>entry_store\<close> again for the backend's own write (\<open>cfg_puts\<close>). \<open>Back_Concurrent\<close>: \<open>upsert_value\<close>
    cut at its awaits (\<open>newest_wins\<close>, \<open>stamping\<close>). \<open>Back_Srv\<close>, \<open>Back_Auth\<close>, \<open>Back_Start\<close>: the handlers, \<open>make_auth_cb\<close>, the
    configuration, \<open>config_init\<close>, \<open>back_srv\<close> and \<open>back_run\<close>.
  \<^item> \<open>Server\<close>, \<open>Server_Tasks\<close>, \<open>Server_Props\<close>: the tasks of a running backend on one database and counter, each request cut
    at the awaits of \<open>handle_request\<close> and of its handler, with the advertiser and the background work of the database
    between them, and its invariant (\<open>server\<close>); \<open>Server_Demo\<close>: a run for witnesses.
  \<^item> \<open>Http\<close> and \<open>Net\<close>: what is used of hyper; \<open>is_link_local\<close>, \<open>expand_bind_addrs\<close>, \<open>resolve_bind_addrs\<close>. \<open>Chan\<close>:
    \<open>handle_request\<close> and \<open>ChanSrv::new\<close>. \<open>Chan_Conn\<close>: \<open>accept_loop\<close> and \<open>serve_connection\<close> as a machine (\<open>conns\<close>, \<open>since\<close>).
    \<open>Api\<close>: \<open>api.rs\<close>. \<open>Addr_Text\<close>: \<open>Display\<close> of \<open>SocketAddr\<close>. \<open>Chan_Cli\<close>: \<open>ChanCli\<close>, \<open>ChanCliCfgExt\<close> (\<open>cfg.rs\<close>), and
    the transport that composes it with a server.
  \<^item> \<open>Host\<close>: the connections and the server's tasks together (\<open>host_server\<close>, \<open>host_conns\<close>, \<open>hosts\<close>); a task lives as long as
    its connection, an sqlite call that was started finishes. \<open>Process\<close>: the two \<open>main\<close> functions (\<open>bin/v-m-io-cfg.rs\<close>,
    \<open>bin/v-m-io-cli.rs\<close>), \<open>wait_for_shutdown\<close>, the end of \<open>back_run_test\<close>, and the server process as a machine on the host
    (\<open>process_host\<close>, \<open>processes\<close>).
  \<^item> \<open>Cli\<close>: \<open>client_run\<close> of \<open>v-m-io-cli/src/lib.rs\<close>. This theory: the command line client over the channel on a running
    server.

  \<^bold>\<open>State.\<close> A call is a function from the state to its result and the new state; errors are \<open>Inl\<close>, and every \<open>?\<close> of
  the source that depends on the outside is a branch of a plan. The record \<open>db_env\<close> holds the plan and the clock of one
  call; the backend takes the next one of a sequence \<open>envs\<close> at every call and clock reading (\<open>bk_tick\<close>). A statement
  for all environments thus covers all error paths. A panic is the outer \<open>None\<close> where the source can panic.

  \<^bold>\<open>What the lemmas show.\<close> \<open>Blob\<close>: framing is injective, layout round trips, a write is all, nothing or a prefix.
  \<open>Sql_Facts\<close>: methods are atomic and keep the schema; listing is filter, sort and page. \<open>Db_Props\<close>: every operation
  refines the maps on every path; newer entries win; a stored chunk is read back or an error is reported. \<open>Cleanup\<close>: only
  old unreferenced blobs and empty directories go, and all of them. \<open>Db_Concurrent\<close>: interleaved calls that share no blob
  refine the same maps; \<open>Db_Races\<close> shows that the condition is needed. \<open>Back_Props\<close> and \<open>Back_Concurrent\<close>: writes in
  any order or interleaving leave the newest value per key, and server timestamps never collide. \<open>Back_Auth\<close>: exactly the
  tokens with an entry are let in. \<open>Chan\<close>: a handler runs only behind authorization, routing and the body limit.
  \<open>Chan_Conn\<close>: never more connections served than permits, every wait is decided. \<open>Server_Tasks\<close>: a request or an
  advertisement that runs alone is \<open>handle_request\<close>, \<open>announce_addrs\<close>. \<open>Server_Props\<close>: in every interleaving only authorized
  requests and advertisements change the config, and an acknowledged put is read. \<open>Host\<close>: only connections with a permit
  have work going on, and after the end the tables change at most once for each write under way. \<open>Process\<close>: from the
  command line to the end every config entry has one of four origins, and a test run ends exactly on a signal.
  Here: what the cli puts, it gets.

  \<^bold>\<open>Bounds and fuel.\<close> \<open>upsert_value\<close> retries 64 times, so \<open>room\<close> asks for 64 free values below the largest \<open>i64\<close>. A
  prune pass ends because a full batch (\<open>PRUNE_BATCH\<close> = 256 rows) shrinks the table, which bounds its rounds; the walk
  of the cleanup ends at \<open>SHARD_DEPTH\<close>. The endless background loops (\<open>prune_task\<close>, \<open>cleanup_task\<close>,
  \<open>announce_addrs_task\<close>) take the number of passes; what they promise holds after the stated pass, for every number.
  \<open>MAX_BODY\<close> is 16 MiB, \<open>MAX_CONNS\<close> 2048, \<open>CONN_WAIT\<close> 17 milliseconds. \<open>listable\<close> asks for fewer rows than the
  \<open>LIMIT\<close> of \<open>read_all\<close>, the largest \<open>i64\<close>.

  \<^bold>\<open>Assumptions about code outside the repository\<close>, each with an instance: \<open>crypto_ok\<close> and \<open>hex_ok\<close> (output lengths,
  decryption inverts encryption, hex round trip); \<open>db_hyps\<close> adds that the writes in question have different blob ids, as a
  hash provides, and no other collision freedom is used; \<open>http_ok\<close> (a collected body obeys its limit) and
  \<open>transport_ok\<close> (requests arrive as sent); \<open>bincode_ok\<close>, \<open>codec_ok\<close>, \<open>codec_rust\<close> (payloads round trip and decode to Rust
  values); \<open>platform_ok\<close> (json, base64, random key lengths). The interleaved writes of chunks
  also ask that \<open>metadata()\<close> of a file that exists does not fail; \<open>upsert_chunk_refines\<close> says what happens when it does.

  \<^bold>\<open>Not modelled.\<close> Logging; an error of its set up is an argument of \<open>cfg_main\<close>, as is what clap makes of the command
  line and the environment, also for \<open>cli_main\<close>. Signals that no handler listens for are left to the platform. The host has
  the tasks of http/1, which end with their connection; streams of http/2 are run by the executor given to hyper.
  Scheduling is as fine as the machines cut it: awaits of database calls in \<open>Db_Concurrent\<close>, of config writes in
  \<open>Back_Concurrent\<close>, of requests in \<open>Server_Tasks\<close> and \<open>Host\<close> (a call of the database is one step there: its writes exclude
  each other by the mutex of the connection), single atomic operations in \<open>Micros\<close>, pool and connection events in
  \<open>Ring_Pool\<close> and \<open>Chan_Conn\<close>. A blob write is one step of
  the interleaved calls, with its retry. sqlcipher's encryption and its journal are behind the plan of faults: a commit happens or
  does not. Sleeps are in the clock of the next pass. Scope ids of IPv6 addresses, sqlite pragmas and indexes, the wiping
  of keys (\<open>Zeroizing\<close>) and tests have no part in results.
\<close>

section \<open>Properties of the whole system\<close>

text \<open>
  A running server as its clients see it, and a put that fits. The server is healthy: it was started where every
  later reading of the clock is above the stored timestamps (\<open>server_start\<close>), counter and clock are more than 64
  below the largest \<open>i64\<close>, requests get through and sqlite does not fail, and its listing can be encoded. The
  states outside of this are those of \<open>explicit_max_overflows\<close> and \<open>future_entry_not_overwritten\<close>.
\<close>

definition running ::
  "'b http_lib \<Rightarrow> 'b transport \<Rightarrow> codec \<Rightarrow> envs \<Rightarrow> crates \<Rightarrow> vm_io_db \<Rightarrow> back_state \<Rightarrow> bool" where
  "running hl tr cd envs cr db b \<longleftrightarrow>
     (\<exists>addrs c. reachable (server_init cd envs addrs) (server_step_ok hl cd envs cr db) c \<and> ss_back c = b) \<and> room envs b \<and>
     healthy hl tr cd envs \<and> int (length (entries (st_sql (bk_store b)))) < i64_max \<and>
     (\<forall>r. \<exists>bs. encode_get_res cd r = Inr bs)"

definition put_encoded :: "codec \<Rightarrow> string \<Rightarrow> string \<Rightarrow> int option \<Rightarrow> bool" where
  "put_encoded cd key value x \<longleftrightarrow> utf8_valid value \<and> length key \<le> CFG_KEY_MAX \<and> length value \<le> CFG_VALUE_MAX \<and>
     (\<exists>body. encode_put_req cd \<lparr>pr_key = key, pr_value = value, pr_expires_at_micros = x, pr_modified_at_micros = None\<rparr> = Inr body \<and>
        length body \<le> MAX_BODY)"

lemma running_put_get:
  assumes "running hl tr cd envs cr db b" "authorized config b" "put_encoded cd key value x"
  shows "\<exists>b1 m items b2.
    cfg_put cd (loopback hl tr (back_inner cd envs)) config key value x None b = (Inr (), b1) \<and>
    cfg_get cd (loopback hl tr (back_inner cd envs)) config b1 = (Inr (Inr items), b2) \<and>
    sorted_wrt (<) (map gi_key items) \<and>
    (\<forall>i. i \<in> set items \<longleftrightarrow>
       i = \<lparr>gi_key = key, gi_value = value, gi_modified_at_micros = m, gi_expires_at_micros = x\<rparr> \<or>
       gi_key i \<noteq> key \<and> (\<exists>q. cfg_entry (gi_key i) b = Some q \<and> i = item_of q))"
proof -
  have inv: "server_inv cd envs b"
    using assms(1) server_inv_run [of cd envs _ hl cr db] by (auto simp: running_def)
  obtain body where body: "encode_put_req cd \<lparr>pr_key = key, pr_value = value, pr_expires_at_micros = x, pr_modified_at_micros = None\<rparr> = Inr body"
    "length body \<le> MAX_BODY" and lims: "utf8_valid value" "length key \<le> CFG_KEY_MAX" "length value \<le> CFG_VALUE_MAX"
    using assms(3) by (auto simp: put_encoded_def)
  show ?thesis
    using assms(1) put_then_get [OF _ inv _ assms(2) _ lims body] unfolding running_def by blast
qed

text \<open>
  C1. A put is read back through the whole system, client, transport, channel server, handlers, retry loop
  and tables: in every state a healthy server (\<open>running\<close>) reaches, a client with a stored api key that puts a value within
  the limits gets a success, and a following get returns, strictly sorted by key, exactly this value with
  its expiry and every other entry as it was.
\<close>

theorem put_then_get_end_to_end:
  assumes "running hl tr cd envs cr db b" "authorized config b" "put_encoded cd key value x"
  shows "\<exists>b1 m items b2.
    cfg_put cd (loopback hl tr (back_inner cd envs)) config key value x None b = (Inr (), b1) \<and>
    cfg_get cd (loopback hl tr (back_inner cd envs)) config b1 = (Inr (Inr items), b2) \<and>
    sorted_wrt (<) (map gi_key items) \<and>
    (\<forall>i. i \<in> set items \<longleftrightarrow>
       i = \<lparr>gi_key = key, gi_value = value, gi_modified_at_micros = m, gi_expires_at_micros = x\<rparr> \<or>
       gi_key i \<noteq> key \<and> (\<exists>q. cfg_entry (gi_key i) b = Some q \<and> i = item_of q))"
  using assms by (rule running_put_get)

definition demo_client :: cli_config where
  "demo_client = \<lparr>cl_addr = TEST_BIND_ADDR, cl_api_key = ''test'', cl_cmd = CfgGet False\<rparr>"

lemma demo_running [simp]:
  "running demo_http demo_transport demo_codec (\<lambda>_. ok_env) demo_crates demo_db keyed_back"
proof -
  let ?c = "server_new keyed_back [] :: bytes server_sys"
  have "server_init demo_codec (\<lambda>_. ok_env) [] ?c" using keyed_back_start by (auto simp: server_init_def)
  then have "reachable (server_init demo_codec (\<lambda>_. ok_env) []) (server_step_ok demo_http demo_codec (\<lambda>_. ok_env) demo_crates demo_db) ?c"
    by (rule reach_init)
  then have "\<exists>addrs c. reachable (server_init demo_codec (\<lambda>_. ok_env) addrs) (server_step_ok demo_http demo_codec (\<lambda>_. ok_env) demo_crates demo_db) c \<and>
      ss_back c = keyed_back"
    by (intro exI [of _ "[]"] exI [of _ ?c]) (simp add: server_new_def)
  moreover have "room (\<lambda>_. ok_env) keyed_back"
    using demo_clock by (simp add: room_def i64_max_def)
  moreover have "healthy demo_http demo_transport demo_codec (\<lambda>_. ok_env)"
    by (simp add: healthy_def ok_env_def)
  moreover have "int (length (entries (st_sql (bk_store keyed_back)))) < i64_max"
    by (simp add: keyed_back_def i64_max_def)
  ultimately show ?thesis using demo_codec_total unfolding running_def by blast
qed

lemma demo_authorized [simp]: "authorized demo_client keyed_back"
  by (simp add: authorized_def demo_client_def plain_key_def printable_def CFG_API_KEY_PREFIX_def cfg_entry_def
      keyed_back_def q_entry_def cfg_row_def)

lemma demo_put_encoded: "put_encoded demo_codec ''k'' ''v'' None"
  by (simp add: put_encoded_def demo_codec_def put_fits_def CFG_KEY_MAX_def CFG_VALUE_MAX_def MAX_BODY_def)

theorem put_then_get_end_to_end_witness:
  "\<exists>b1 items b2 m.
    cfg_put demo_codec (loopback demo_http demo_transport (back_inner demo_codec (\<lambda>_. ok_env))) demo_client ''k'' ''v'' None None keyed_back = (Inr (), b1) \<and>
    cfg_get demo_codec (loopback demo_http demo_transport (back_inner demo_codec (\<lambda>_. ok_env))) demo_client b1 = (Inr (Inr items), b2) \<and>
    \<lparr>gi_key = ''k'', gi_value = ''v'', gi_modified_at_micros = m, gi_expires_at_micros = None\<rparr> \<in> set items"
  using put_then_get_end_to_end [OF demo_running demo_authorized demo_put_encoded] by blast

text \<open>What \<open>cfg-get\<close> shows of items in which a key has a tombstone.\<close>

lemma tombstone_shown:
  assumes sorted: "sorted_wrt (<) (map gi_key items)"
    and items: "\<forall>i. i \<in> set items \<longleftrightarrow>
      i = \<lparr>gi_key = key, gi_value = CONFIG_TOMBSTONE, gi_modified_at_micros = m, gi_expires_at_micros = x\<rparr> \<or>
      gi_key i \<noteq> key \<and> (\<exists>q. P (gi_key i) q \<and> i = f q)"
  shows "map_of (shown_items False items) key = None"
    and "map_of (shown_items True items) key = Some \<lparr>gi_key = key, gi_value = CONFIG_TOMBSTONE,
      gi_modified_at_micros = m, gi_expires_at_micros = x\<rparr>"
    and "k \<noteq> key \<Longrightarrow> map_of (shown_items False items) k = Some i \<longleftrightarrow>
      gi_key i = k \<and> gi_value i \<noteq> CONFIG_TOMBSTONE \<and> (\<exists>q. P k q \<and> i = f q)"
proof -
  show "map_of (shown_items False items) key = None"
  proof (cases "map_of (shown_items False items) key")
    case (Some i)
    then have i: "i \<in> set items \<and> gi_key i = key \<and> gi_value i \<noteq> CONFIG_TOMBSTONE"
      using shown_items_map [OF sorted, of False key i] by simp
    then have "i = \<lparr>gi_key = key, gi_value = CONFIG_TOMBSTONE, gi_modified_at_micros = m, gi_expires_at_micros = x\<rparr>"
      using items by blast
    then have "gi_value i = CONFIG_TOMBSTONE" by simp
    then show ?thesis using i by simp
  qed
  show "map_of (shown_items True items) key = Some \<lparr>gi_key = key, gi_value = CONFIG_TOMBSTONE,
      gi_modified_at_micros = m, gi_expires_at_micros = x\<rparr>"
    using shown_items_map [OF sorted, of True key "\<lparr>gi_key = key, gi_value = CONFIG_TOMBSTONE,
      gi_modified_at_micros = m, gi_expires_at_micros = x\<rparr>"] items by simp
  show "k \<noteq> key \<Longrightarrow> map_of (shown_items False items) k = Some i \<longleftrightarrow>
      gi_key i = k \<and> gi_value i \<noteq> CONFIG_TOMBSTONE \<and> (\<exists>q. P k q \<and> i = f q)"
    using shown_items_map [OF sorted, of False k i] spec [OF items, of i] by auto
qed

text \<open>
  C20. Removing hides: after \<open>cfg-rm\<close> by a client that may, with no expiry given, \<open>cfg-get\<close> prints every
  other entry that is no tombstone as before and nothing under the removed key; with
  \<open>--show-tombstones\<close> the key is there, as a tombstone that expires 30 days from the client's clock.
\<close>

theorem cfg_rm_hides:
  assumes "running hl tr cd envs cr db b" "authorized config b"
    and "micros_since_epoch now = Some t" "put_encoded cd key CONFIG_TOMBSTONE (Some (wrap_i64 (t + 2592000000000)))"
    and "net = loopback hl tr (back_inner cd envs)"
  shows "\<exists>b1 b2 items m.
    client_run cd net pretty now (config\<lparr>cl_cmd := CfgRm key None None\<rparr>) b = Some (Inr None, b1) \<and>
    client_run cd net pretty now' (config\<lparr>cl_cmd := CfgGet show_all\<rparr>) b1 =
      Some (and_then (pretty (shown_items show_all items)) (\<lambda>text. Inr (Some text)), b2) \<and>
    map_of (shown_items False items) key = None \<and>
    map_of (shown_items True items) key = Some \<lparr>gi_key = key, gi_value = CONFIG_TOMBSTONE,
      gi_modified_at_micros = m, gi_expires_at_micros = Some (wrap_i64 (t + 2592000000000))\<rparr> \<and>
    (\<forall>k i. k \<noteq> key \<longrightarrow> (map_of (shown_items False items) k = Some i \<longleftrightarrow>
       gi_key i = k \<and> gi_value i \<noteq> CONFIG_TOMBSTONE \<and> (\<exists>q. cfg_entry k b = Some q \<and> i = item_of q)))"
proof -
  let ?x = "Some (wrap_i64 (t + 2592000000000))"
  obtain b1 m items b2 where both: "cfg_put cd net config key CONFIG_TOMBSTONE ?x None b = (Inr (), b1) \<and>
      cfg_get cd net config b1 = (Inr (Inr items), b2) \<and> sorted_wrt (<) (map gi_key items) \<and>
      (\<forall>i. i \<in> set items \<longleftrightarrow>
        i = \<lparr>gi_key = key, gi_value = CONFIG_TOMBSTONE, gi_modified_at_micros = m, gi_expires_at_micros = ?x\<rparr> \<or>
        gi_key i \<noteq> key \<and> (\<exists>q. cfg_entry (gi_key i) b = Some q \<and> i = item_of q))"
    using running_put_get [OF assms(1,2,4), folded assms(5)] by (elim exE)
  note put = conjunct1 [OF both] and get = conjunct1 [OF conjunct2 [OF both]]
    and sorted = conjunct1 [OF conjunct2 [OF conjunct2 [OF both]]]
    and items = conjunct2 [OF conjunct2 [OF conjunct2 [OF both]]]
  have run_put: "cfg_put cd net (config\<lparr>cl_cmd := c\<rparr>) key CONFIG_TOMBSTONE ?x None b = (Inr (), b1)"
    and run_get: "cfg_get cd net (config\<lparr>cl_cmd := c\<rparr>) b1 = (Inr (Inr items), b2)" for c
    using put get by (simp_all add: cfg_put_def cfg_get_def bearer_def)
  have "RM_TTL_MICROS = 2592000000000" by (simp add: RM_TTL_MICROS_def)
  then have "client_run cd net pretty now (config\<lparr>cl_cmd := CfgRm key None None\<rparr>) b = Some (Inr None, b1)"
    using run_put assms(3) by (simp add: client_run_def)
  note rm = this
  have get_run: "client_run cd net pretty now' (config\<lparr>cl_cmd := CfgGet show_all\<rparr>) b1 =
      Some (and_then (pretty (shown_items show_all items)) (\<lambda>text. Inr (Some text)), b2)"
    using run_get by (simp add: client_run_def)
  note shown = tombstone_shown [OF sorted items]
  show ?thesis
    by (rule exI [of _ b1], rule exI [of _ b2], rule exI [of _ items], rule exI [of _ m], intro conjI allI impI)
      (rule rm get_run shown; assumption?)+
qed

theorem cfg_rm_hides_witness:
  "\<exists>b1 b2 items. client_run demo_codec (loopback demo_http demo_transport (back_inner demo_codec (\<lambda>_. ok_env)))
       (\<lambda>m. Inr ''{}'') 0 (demo_client\<lparr>cl_cmd := CfgRm ''k'' None None\<rparr>) keyed_back = Some (Inr None, b1) \<and>
     client_run demo_codec (loopback demo_http demo_transport (back_inner demo_codec (\<lambda>_. ok_env)))
       (\<lambda>m. Inr ''{}'') 0 (demo_client\<lparr>cl_cmd := CfgGet False\<rparr>) b1 = Some (Inr (Some ''{}''), b2) \<and>
     map_of (shown_items False items) ''k'' = None"
proof -
  let ?net = "loopback demo_http demo_transport (back_inner demo_codec (\<lambda>_. ok_env))"
  have clock: "micros_since_epoch 0 = Some 0" by (simp add: micros_since_epoch_def i64_defs)
  have wrap: "wrap_i64 (0 + 2592000000000) = demo_expiry"
    unfolding demo_expiry_def by (subst wrap_i64_id) (simp_all add: i64_defs)
  have "put_encoded demo_codec ''k'' CONFIG_TOMBSTONE (Some (wrap_i64 (0 + 2592000000000)))"
    unfolding wrap
    by (simp add: put_encoded_def demo_codec_def put_fits_def CFG_KEY_MAX_def CFG_VALUE_MAX_def MAX_BODY_def CONFIG_TOMBSTONE_def)
  from cfg_rm_hides [OF demo_running demo_authorized clock this refl, of "\<lambda>m. Inr ''{}''" 0 False]
  obtain b1 b2 items where "client_run demo_codec ?net (\<lambda>m. Inr ''{}'') 0 (demo_client\<lparr>cl_cmd := CfgRm ''k'' None None\<rparr>) keyed_back = Some (Inr None, b1)"
    "client_run demo_codec ?net (\<lambda>m. Inr ''{}'') 0 (demo_client\<lparr>cl_cmd := CfgGet False\<rparr>) b1 =
       Some (and_then (Inr ''{}'') (\<lambda>text. Inr (Some text)), b2)"
    "map_of (shown_items False items) ''k'' = None"
    by (elim exE conjE) (rule that)
  then show ?thesis by auto
qed

text \<open>
  C8. No key, no effect: whatever command a client runs whose api key is not stored, and whatever fails
  in the database, it ends with an error and leaves the database and the timestamp counter as they were.
\<close>

theorem unauthorized_client_changes_nothing:
  assumes "transport_ok hl tr" "plain_key (cl_api_key config)"
    and "cfg_entry (CFG_API_KEY_PREFIX @ cl_api_key config) b = None"
  shows "case client_run cd (loopback hl tr (back_inner cd envs)) pretty now config b of
      None \<Rightarrow> micros_since_epoch now = None
    | Some (r, b') \<Rightarrow> isl r \<and> bk_store b' = bk_store b \<and> bk_counter b' = bk_counter b"
proof -
  let ?net = "loopback hl tr (back_inner cd envs)"
  obtain e where "cli_connect ?net (cl_addr config) (bearer config) b = (Inl e, ticked b)"
    using connect_refused [OF assms] by blast
  then have "health ?net config b = (Inl e, ticked b)" "cfg_get cd ?net config b = (Inl e, ticked b)"
    "cfg_put cd ?net config key v x modified b = (Inl e, ticked b)" for key v x modified
    by (simp_all add: health_def cfg_get_def cfg_put_def)
  then show ?thesis
    by (cases "cl_cmd config") (auto simp: client_run_def split: option.split)
qed

theorem unauthorized_client_changes_nothing_witness:
  "isl (fst (the (client_run demo_codec (loopback demo_http demo_transport (back_inner demo_codec (\<lambda>_. ok_env)))
     (\<lambda>m. Inr ''{}'') 0 (demo_client\<lparr>cl_api_key := ''wrong''\<rparr>) keyed_back)))"
proof -
  let ?c = "demo_client\<lparr>cl_api_key := ''wrong''\<rparr>"
  have "plain_key (cl_api_key ?c)" by (simp add: plain_key_def printable_def)
  moreover have "cfg_entry (CFG_API_KEY_PREFIX @ cl_api_key ?c) keyed_back = None"
    by (simp add: CFG_API_KEY_PREFIX_def cfg_entry_def keyed_back_def q_entry_def cfg_row_def)
  ultimately have "case client_run demo_codec (loopback demo_http demo_transport (back_inner demo_codec (\<lambda>_. ok_env)))
       (\<lambda>m. Inr ''{}'') 0 ?c keyed_back of
      None \<Rightarrow> micros_since_epoch 0 = None
    | Some (r, b') \<Rightarrow> isl r \<and> bk_store b' = bk_store keyed_back \<and> bk_counter b' = bk_counter keyed_back"
    by (rule unauthorized_client_changes_nothing [OF transport_ok_demo])
  moreover have "micros_since_epoch 0 \<noteq> None" by (simp add: micros_since_epoch_def)
  ultimately show ?thesis by (auto split: option.splits prod.splits)
qed

end
